(* ===== verification/Prelude.thy ===== *)
theory Prelude
  imports Main "HOL-Library.Word"
begin

text \<open>
  Shared vocabulary of the development: the machine integers of \<^verbatim>\<open>src/kernel/stdint.h\<close>,
  the faults a kernel path can end in, the result type of every fallible operation with
  its sequencing operator, and the generic lemmas and theorem collections the component
  theories rely on.
\<close>

section \<open>Machine integers\<close>

text \<open>
  The typedefs of \<^verbatim>\<open>src/kernel/stdint.h\<close> on the 32-bit target: \<^verbatim>\<open>long\<close>, \<^verbatim>\<open>int\<close>
  and pointers have 32 bits. A C \<^verbatim>\<open>int\<close> is a mathematical integer in the model where a
  bound on it is proved, and a 32-bit word where the code relies on its width.
\<close>

type_synonym u8 = "8 word"
type_synonym u16 = "16 word"
type_synonym u32 = "32 word"
type_synonym u64 = "64 word"

section \<open>Faults and results\<close>

text \<open>
  How a path through the kernel can end other than by returning. \<open>Panic\<close> and
  \<open>AssertFailed\<close> are calls of \<^verbatim>\<open>Debug::panic\<close> and failed \<^verbatim>\<open>ASSERT\<close>s, which print and
  then loop for ever; \<open>OutOfRange\<close> is an access outside the object the code means to
  access; \<open>NullDeref\<close> a call through a null reference; \<open>DivideByZero\<close> the processor's
  trap; \<open>Diverges\<close> a loop that uses up the fuel its model was given.
\<close>

datatype fault =
    Panic string
  | AssertFailed string
  | OutOfRange
  | NullDeref
  | DivideByZero
  | Diverges

type_synonym 'a result = "fault + 'a"

definition bindR :: "'a result \<Rightarrow> ('a \<Rightarrow> 'b result) \<Rightarrow> 'b result" where
  "bindR m f = (case m of Inl e \<Rightarrow> Inl e | Inr x \<Rightarrow> f x)"

definition assertR :: "bool \<Rightarrow> string \<Rightarrow> unit result" where
  "assertR b msg = (if b then Inr () else Inl (AssertFailed msg))"

lemma bindR_Inr [simp]: "bindR (Inr x) f = f x"
  by (simp add: bindR_def)

lemma bindR_Inl [simp]: "bindR (Inl e) f = Inl e"
  by (simp add: bindR_def)

lemma bindR_eq_Inr: "bindR m f = Inr y \<longleftrightarrow> (\<exists>x. m = Inr x \<and> f x = Inr y)"
  by (cases m) simp_all

lemma bindR_InrE [elim]:
  assumes "bindR m f = Inr y"
  obtains x where "m = Inr x" "f x = Inr y"
  using assms by (auto simp: bindR_eq_Inr)

lemma bindR_assoc: "bindR (bindR m f) g = bindR m (\<lambda>x. bindR (f x) g)"
  by (cases m) simp_all

lemma bindR_cong [fundef_cong]:
  "m = m' \<Longrightarrow> (\<And>x. m' = Inr x \<Longrightarrow> f x = g x) \<Longrightarrow> bindR m f = bindR m' g"
  by (cases m') simp_all

lemma assertR_True [simp]: "b \<Longrightarrow> assertR b msg = Inr ()"
  by (simp add: assertR_def)

lemma assertR_False [simp]: "\<not> b \<Longrightarrow> assertR b msg = Inl (AssertFailed msg)"
  by (simp add: assertR_def)

lemma assertR_eq_Inr [simp]: "assertR b msg = Inr u \<longleftrightarrow> b"
  by (simp add: assertR_def)

section \<open>Loops\<close>

text \<open>
  A loop that runs a body for each element of a list of indices, and its invariant rule:
  the invariant mentions the elements already processed.
\<close>

fun foldM :: "('b \<Rightarrow> 's \<Rightarrow> 's result) \<Rightarrow> 'b list \<Rightarrow> 's \<Rightarrow> 's result" where
  "foldM f [] s = Inr s"
| "foldM f (x # xs) s = bindR (f x s) (foldM f xs)"

lemma foldM_append: "foldM f (xs @ ys) s = bindR (foldM f xs s) (foldM f ys)"
  by (induction xs arbitrary: s) (simp_all add: bindR_def split: sum.splits)

lemma foldM_upt_inv:
  assumes "P m s" and "m \<le> n"
    and "\<And>i s. P i s \<Longrightarrow> m \<le> i \<Longrightarrow> i < n \<Longrightarrow> \<exists>s'. f i s = Inr s' \<and> P (Suc i) s'"
  shows "\<exists>s'. foldM f [m..<n] s = Inr s' \<and> P n s'"
  using assms(2,1,3)
proof (induction n rule: dec_induct)
  case (step n)
  then obtain s1 where "foldM f [m..<n] s = Inr s1" "P n s1" by (metis less_SucI)
  moreover from this(2) step.prems(2) [of n s1] step.hyps obtain s2 where "f n s1 = Inr s2" "P (Suc n) s2"
    by blast
  ultimately show ?case using step.hyps by (auto simp: foldM_append)
qed simp

section \<open>Theorem collections\<close>

named_theorems array_simps \<open>reads and writes of a C array that stay in range\<close>
named_theorems frame_simps \<open>address arithmetic on page frames\<close>
named_theorems preserves \<open>operations that keep a component's invariant\<close>

section \<open>Lists\<close>

lemma remove1_middle: "x \<notin> set xs \<Longrightarrow> remove1 x (xs @ x # ys) = xs @ ys"
  by (simp add: remove1_append)

section \<open>Words\<close>

lemma unat_bound: "unat (a :: u32) < 4294967296"
  using unsigned_less [of a, where 'a = nat] by simp

text \<open>
  A C \<^verbatim>\<open>int\<close> or \<^verbatim>\<open>long\<close> as an integer: the value arithmetic leaves in 32 bits.
\<close>

definition i32 :: "int \<Rightarrow> int" where
  "i32 x = sint (word_of_int x :: u32)"

lemma i32_id: "- (2 ^ 31) \<le> x \<Longrightarrow> x < 2 ^ 31 \<Longrightarrow> i32 x = x"
  unfolding i32_def by (subst signed_take_bit_int_eq_self [of 31 x, symmetric]) (simp_all add: sint_sbintrunc')

end
