(* ===== verification/Snprintf.thy ===== *)
theory Snprintf
  imports Prelude Complex_Main "HOL-Library.Char_ord"
begin

unbundle bit_operations_syntax

text \<open>
  Formatted output: \<^verbatim>\<open>src/kernel/snprintf.cc\<close> with \<^verbatim>\<open>isdigit\<close> of \<^verbatim>\<open>libk.cc\<close>. \<^verbatim>\<open>int\<close> and \<^verbatim>\<open>long\<close>
  are integers in the 32-bit range; arithmetic that can leave the range wraps (\<open>i32\<close> of the prelude), as the
  compiled code does. A string is the list of its bytes without the terminating NUL.
\<close>

section \<open>Arithmetic, arguments and output\<close>

text \<open>
  What the caller passes after the format: a word (an integer or a pointer), a pointer to a
  string (\<open>None\<close> is the null pointer) or a finite floating-point value. Taking an argument
  that is missing or of another kind is undefined in C and a fault here.
\<close>

datatype arg = AWord u32 | AStr "string option" | AFloat rat

fun va_word :: "arg list \<Rightarrow> (u32 \<times> arg list) result" where
  "va_word (AWord w # as) = Inr (w, as)"
| "va_word _ = Inl OutOfRange"

fun va_str :: "arg list \<Rightarrow> (string option \<times> arg list) result" where
  "va_str (AStr s # as) = Inr (s, as)"
| "va_str _ = Inl OutOfRange"

fun va_float :: "arg list \<Rightarrow> (rat \<times> arg list) result" where
  "va_float (AFloat x # as) = Inr (x, as)"
| "va_float _ = Inl OutOfRange"

text \<open>
  The stream the characters go to, the counter \<^verbatim>\<open>currlen\<close>, and the stores a \<^verbatim>\<open>%n\<close> makes
  (address, number of bytes, value).
\<close>

record sink =
  chars :: string
  currlen :: int
  stores :: "(u32 \<times> nat \<times> int) list"

definition dopr_outch :: "char \<Rightarrow> sink \<Rightarrow> sink" where
  "dopr_outch c s = s\<lparr>currlen := i32 (currlen s + 1), chars := chars s @ [c]\<rparr>"

text \<open>
  The loops that put a character again and again, or the characters of an array one after
  another; \<open>out\<close> is the function that puts a character.
\<close>

fun put_n :: "(char \<Rightarrow> 'o \<Rightarrow> 'o) \<Rightarrow> char \<Rightarrow> nat \<Rightarrow> 'o \<Rightarrow> 'o" where
  "put_n out c 0 s = s"
| "put_n out c (Suc n) s = put_n out c n (out c s)"

fun put_all :: "(char \<Rightarrow> 'o \<Rightarrow> 'o) \<Rightarrow> string \<Rightarrow> 'o \<Rightarrow> 'o" where
  "put_all out [] s = s"
| "put_all out (c # cs) s = put_all out cs (out c s)"

text \<open>The loops of \<^verbatim>\<open>fmtstr\<close>, which put characters while \<^verbatim>\<open>cnt < max\<close>.\<close>

fun put_while :: "(char \<Rightarrow> 'o \<Rightarrow> 'o) \<Rightarrow> string \<Rightarrow> int \<Rightarrow> int \<Rightarrow> 'o \<Rightarrow> int \<times> 'o" where
  "put_while out [] cnt mx s = (cnt, s)"
| "put_while out (c # cs) cnt mx s =
     (if cnt < mx then put_while out cs (cnt + 1) mx (out c s) else (cnt, s))"

section \<open>Format flags and states\<close>

definition DP_F_MINUS :: u32 where "DP_F_MINUS = 1"
definition DP_F_PLUS :: u32 where "DP_F_PLUS = 2"
definition DP_F_SPACE :: u32 where "DP_F_SPACE = 4"
definition DP_F_NUM :: u32 where "DP_F_NUM = 8"
definition DP_F_ZERO :: u32 where "DP_F_ZERO = 16"
definition DP_F_UP :: u32 where "DP_F_UP = 32"
definition DP_F_UNSIGNED :: u32 where "DP_F_UNSIGNED = 64"

definition has :: "u32 \<Rightarrow> u32 \<Rightarrow> bool" where
  "has flags f \<longleftrightarrow> flags AND f \<noteq> 0"

datatype dp_state =
    DP_S_DEFAULT | DP_S_FLAGS | DP_S_MIN | DP_S_DOT | DP_S_MAX | DP_S_MOD | DP_S_CONV | DP_S_DONE

datatype dp_cflag = DP_C_NONE | DP_C_SHORT | DP_C_LONG | DP_C_LDOUBLE

definition isdigit :: "char \<Rightarrow> bool" where
  "isdigit c \<longleftrightarrow> CHR ''0'' \<le> c \<and> c \<le> CHR ''9''"

definition char_to_int :: "char \<Rightarrow> int" where
  "char_to_int c = of_char c - of_char CHR ''0''"

section \<open>Strings\<close>

definition fmtstr :: "string option \<Rightarrow> u32 \<Rightarrow> int \<Rightarrow> int \<Rightarrow> sink \<Rightarrow> sink" where
  "fmtstr value flags mn mx s =
     (let v = (case value of None \<Rightarrow> ''<NULL>'' | Some v \<Rightarrow> v);
          strln = int (length v);
          padlen0 = i32 (mn - strln);
          padlen1 = (if padlen0 < 0 then 0 else padlen0);
          padlen = (if has flags DP_F_MINUS then - padlen1 else padlen1);
          (cnt1, s1) = put_while dopr_outch (replicate (nat padlen) CHR '' '') 0 mx s;
          (cnt2, s2) = put_while dopr_outch v cnt1 mx s1;
          (cnt3, s3) = put_while dopr_outch (replicate (nat (- padlen)) CHR '' '') cnt2 mx s2
      in s3)"

section \<open>Integers\<close>

definition digit_char :: "bool \<Rightarrow> nat \<Rightarrow> char" where
  "digit_char caps d = (if caps then ''0123456789ABCDEF'' else ''0123456789abcdef'') ! d"

text \<open>The conversion loop: \<^verbatim>\<open>convert\<close> receives the digits, the last one first.\<close>

function convert_loop :: "bool \<Rightarrow> u32 \<Rightarrow> u32 \<Rightarrow> string \<Rightarrow> string" where
  "convert_loop caps base uvalue convert =
     (let convert' = convert @ [digit_char caps (unat (uvalue mod base))];
          uvalue' = uvalue div base
      in if uvalue' \<noteq> 0 \<and> length convert' < 20 then convert_loop caps base uvalue' convert'
         else convert')"
  by pat_completeness auto
termination
  by (relation "measure (\<lambda>(caps, base, u, convert). 20 - length convert)") auto

declare convert_loop.simps [simp del]

definition fmtint :: "int \<Rightarrow> u32 \<Rightarrow> int \<Rightarrow> int \<Rightarrow> u32 \<Rightarrow> sink \<Rightarrow> sink" where
  "fmtint value base mn mx0 flags s =
     (let mx = (if mx0 < 0 then 0 else mx0);
          (signvalue, uvalue) =
            (if \<not> has flags DP_F_UNSIGNED then
               (if value < 0 then (''-'', word_of_int (i32 (- value)))
                else if has flags DP_F_PLUS then (''+'', word_of_int value)
                else if has flags DP_F_SPACE then ('' '', word_of_int value)
                else ('''', word_of_int value))
             else ('''', word_of_int value));
          caps = has flags DP_F_UP;
          convert = convert_loop caps base uvalue [];
          place = (if length convert = 20 then 19 else length convert);
          zpadlen0 = mx - int place;
          spadlen0 = i32 (mn - (if mx \<ge> int place then mx else int place) - int (length signvalue));
          zpadlen1 = (if zpadlen0 < 0 then 0 else zpadlen0);
          spadlen1 = (if spadlen0 < 0 then 0 else spadlen0);
          (zpadlen, spadlen2) =
            (if has flags DP_F_ZERO then (if zpadlen1 \<ge> spadlen1 then zpadlen1 else spadlen1, 0)
             else (zpadlen1, spadlen1));
          spadlen = (if has flags DP_F_MINUS then - spadlen2 else spadlen2);
          s1 = put_n dopr_outch CHR '' '' (nat spadlen) s;
          s2 = put_all dopr_outch signvalue s1;
          s3 = put_n dopr_outch CHR ''0'' (nat zpadlen) s2;
          s4 = put_all dopr_outch (rev (take place convert)) s3
      in put_n dopr_outch CHR '' '' (nat (- spadlen)) s4)"

section \<open>Floating point\<close>

text \<open>
  A \<^verbatim>\<open>long double\<close> is its rational value, and \<open>rnd\<close> is the rounding of the processor: the
  result of an operation is \<open>rnd\<close> of the exact one. Converting a value that does not fit a
  \<^verbatim>\<open>long\<close> is undefined.
\<close>

definition to_long :: "rat \<Rightarrow> int result" where
  "to_long x = (let n = (if x < 0 then - \<lfloor>- x\<rfloor> else \<lfloor>x\<rfloor>)
                in if - (2 ^ 31) \<le> n \<and> n < 2 ^ 31 then Inr n else Inl OutOfRange)"

definition abs_val :: "rat \<Rightarrow> rat" where
  "abs_val value = (if value < 0 then - value else value)"

fun pow10_loop :: "(rat \<Rightarrow> rat) \<Rightarrow> nat \<Rightarrow> rat \<Rightarrow> rat" where
  "pow10_loop rnd 0 res = res"
| "pow10_loop rnd (Suc e) res = pow10_loop rnd e (rnd (res * 10))"

definition pow10 :: "(rat \<Rightarrow> rat) \<Rightarrow> int \<Rightarrow> rat" where
  "pow10 rnd e = pow10_loop rnd (nat e) 1"

definition xround :: "(rat \<Rightarrow> rat) \<Rightarrow> rat \<Rightarrow> int result" where
  "xround rnd value =
     bindR (to_long value) (\<lambda>intpart.
     Inr (if rnd (value - of_int intpart) \<ge> 1 / 2 then i32 (intpart + 1) else intpart))"

text \<open>
  The digits of \<^verbatim>\<open>intpart\<close> and \<^verbatim>\<open>fracpart\<close>; a negative value would index the digits out of
  range.
\<close>

function fconvert_loop :: "int \<Rightarrow> string \<Rightarrow> string result" where
  "fconvert_loop v convert =
     (if v < 0 \<and> v mod 10 \<noteq> 0 then Inl OutOfRange
      else
        let convert' = convert @ [digit_char False (nat (v mod 10))];
            v' = (if v < 0 then - (- v div 10) else v div 10)
        in if v' \<noteq> 0 \<and> length convert' < 20 then fconvert_loop v' convert' else Inr convert')"
  by pat_completeness auto
termination
  by (relation "measure (\<lambda>(v, convert). 20 - length convert)") auto

declare fconvert_loop.simps [simp del]

definition fmtfp :: "(rat \<Rightarrow> rat) \<Rightarrow> rat \<Rightarrow> int \<Rightarrow> int \<Rightarrow> u32 \<Rightarrow> sink \<Rightarrow> sink result" where
  "fmtfp rnd fvalue mn mx0 flags s =
     (let mx1 = (if mx0 < 0 then 6 else mx0);
          ufvalue = abs_val fvalue;
          signvalue = (if fvalue < 0 then ''-''
                       else if has flags DP_F_PLUS then ''+''
                       else if has flags DP_F_SPACE then '' '' else '''')
      in bindR (to_long ufvalue) (\<lambda>intpart0.
      let mx = (if mx1 > 9 then 9 else mx1)
      in bindR (xround rnd (rnd (pow10 rnd mx * rnd (ufvalue - of_int intpart0)))) (\<lambda>fracpart0.
      bindR (if of_int fracpart0 \<ge> pow10 rnd mx
             then bindR (to_long (rnd (of_int fracpart0 - pow10 rnd mx))) (\<lambda>f. Inr (i32 (intpart0 + 1), f))
             else Inr (intpart0, fracpart0)) (\<lambda>(intpart, fracpart).
      bindR (fconvert_loop intpart []) (\<lambda>iconvert.
      bindR (fconvert_loop fracpart []) (\<lambda>fconvert.
      let iplace = (if length iconvert = 20 then 19 else length iconvert);
          fplace = (if length fconvert = 20 then 19 else length fconvert);
          padlen0 = i32 (mn - int iplace - mx - 1 - int (length signvalue));
          zpadlen0 = mx - int fplace;
          zpadlen = (if zpadlen0 < 0 then 0 else zpadlen0);
          padlen1 = (if padlen0 < 0 then 0 else padlen0);
          padlen2 = (if has flags DP_F_MINUS then - padlen1 else padlen1);
          zeros = (has flags DP_F_ZERO \<and> padlen2 > 0);
          s1 = (if zeros then put_n dopr_outch CHR ''0'' (nat (padlen2 - int (length signvalue))) (put_all dopr_outch signvalue s)
                else s);
          sign1 = (if zeros then '''' else signvalue);
          padlen = (if zeros then 0 else padlen2);
          s2 = put_n dopr_outch CHR '' '' (nat padlen) s1;
          s3 = put_all dopr_outch sign1 s2;
          s4 = put_all dopr_outch (rev (take iplace iconvert)) s3;
          s5 = (if mx > 0 then put_all dopr_outch (rev (take fplace fconvert)) (dopr_outch CHR ''.'' s4) else s4);
          s6 = put_n dopr_outch CHR ''0'' (nat zpadlen) s5
      in Inr (put_n dopr_outch CHR '' '' (nat (- padlen)) s6)))))))"

section \<open>The format\<close>

text \<open>
  The variables of \<^verbatim>\<open>dopr\<close>: \<open>dp_ch\<close> is the character read last, \<open>dp_format\<close> the rest of the
  format with its NUL. Reading on behind the NUL is a fault.
\<close>

record 'o dopr_state =
  dp_state :: dp_state
  dp_ch :: char
  dp_format :: string
  dp_args :: "arg list"
  dp_min :: int
  dp_max :: int
  dp_flags :: u32
  dp_cflags :: dp_cflag
  dp_out :: 'o

definition next_ch :: "'o dopr_state \<Rightarrow> 'o dopr_state result" where
  "next_ch d = (case dp_format d of [] \<Rightarrow> Inl OutOfRange
                | c # cs \<Rightarrow> Inr (d\<lparr>dp_ch := c, dp_format := cs\<rparr>))"

definition step_default :: "sink dopr_state \<Rightarrow> sink dopr_state result" where
  "step_default d =
     next_ch (if dp_ch d = CHR ''%'' then d\<lparr>dp_state := DP_S_FLAGS\<rparr>
              else d\<lparr>dp_out := dopr_outch (dp_ch d) (dp_out d)\<rparr>)"

definition step_flags :: "'o dopr_state \<Rightarrow> 'o dopr_state result" where
  "step_flags d =
     (let c = dp_ch d; add = (\<lambda>f. next_ch (d\<lparr>dp_flags := dp_flags d OR f\<rparr>))
      in if c = CHR ''-'' then add DP_F_MINUS
         else if c = CHR ''+'' then add DP_F_PLUS
         else if c = CHR '' '' then add DP_F_SPACE
         else if c = CHR ''#'' then add DP_F_NUM
         else if c = CHR ''0'' then add DP_F_ZERO
         else Inr (d\<lparr>dp_state := DP_S_MIN\<rparr>))"

definition step_min :: "'o dopr_state \<Rightarrow> 'o dopr_state result" where
  "step_min d =
     (if isdigit (dp_ch d) then next_ch (d\<lparr>dp_min := i32 (10 * dp_min d + char_to_int (dp_ch d))\<rparr>)
      else if dp_ch d = CHR ''*'' then
        bindR (va_word (dp_args d)) (\<lambda>(w, as).
        bindR (next_ch (d\<lparr>dp_min := sint w, dp_args := as\<rparr>)) (\<lambda>d. Inr (d\<lparr>dp_state := DP_S_DOT\<rparr>)))
      else Inr (d\<lparr>dp_state := DP_S_DOT\<rparr>))"

definition step_dot :: "'o dopr_state \<Rightarrow> 'o dopr_state result" where
  "step_dot d =
     (if dp_ch d = CHR ''.'' then next_ch (d\<lparr>dp_state := DP_S_MAX\<rparr>)
      else Inr (d\<lparr>dp_state := DP_S_MOD\<rparr>))"

definition step_max :: "'o dopr_state \<Rightarrow> 'o dopr_state result" where
  "step_max d =
     (if isdigit (dp_ch d) then
        (let m = (if dp_max d < 0 then 0 else dp_max d)
         in next_ch (d\<lparr>dp_max := i32 (10 * m + char_to_int (dp_ch d))\<rparr>))
      else if dp_ch d = CHR ''*'' then
        bindR (va_word (dp_args d)) (\<lambda>(w, as).
        bindR (next_ch (d\<lparr>dp_max := sint w, dp_args := as\<rparr>)) (\<lambda>d. Inr (d\<lparr>dp_state := DP_S_MOD\<rparr>)))
      else Inr (d\<lparr>dp_state := DP_S_MOD\<rparr>))"

definition step_mod :: "'o dopr_state \<Rightarrow> 'o dopr_state result" where
  "step_mod d =
     bindR (if dp_ch d = CHR ''h'' then next_ch (d\<lparr>dp_cflags := DP_C_SHORT\<rparr>)
            else if dp_ch d = CHR ''l'' then next_ch (d\<lparr>dp_cflags := DP_C_LONG\<rparr>)
            else if dp_ch d = CHR ''L'' then next_ch (d\<lparr>dp_cflags := DP_C_LDOUBLE\<rparr>)
            else Inr d)
       (\<lambda>d. Inr (d\<lparr>dp_state := DP_S_CONV\<rparr>))"

text \<open>
  The conversions: an integer argument is one word whatever its modifier, \<^verbatim>\<open>%e\<close> and \<^verbatim>\<open>%g\<close>
  take their argument and print nothing, \<^verbatim>\<open>%w\<close> skips the next character and an unknown
  conversion is skipped.
\<close>

definition put_int :: "u32 \<Rightarrow> sink dopr_state \<Rightarrow> sink dopr_state result" where
  "put_int base d =
     bindR (va_word (dp_args d)) (\<lambda>(w, as).
     Inr (d\<lparr>dp_args := as,
            dp_out := fmtint (sint w) base (dp_min d) (dp_max d) (dp_flags d) (dp_out d)\<rparr>))"

definition put_unsigned :: "u32 \<Rightarrow> sink dopr_state \<Rightarrow> sink dopr_state result" where
  "put_unsigned base d = put_int base (d\<lparr>dp_flags := dp_flags d OR DP_F_UNSIGNED\<rparr>)"

definition skip_float :: "'o dopr_state \<Rightarrow> 'o dopr_state result" where
  "skip_float d = bindR (va_float (dp_args d)) (\<lambda>(x, as). Inr (d\<lparr>dp_args := as\<rparr>))"

definition conversion :: "(rat \<Rightarrow> rat) \<Rightarrow> int \<Rightarrow> sink dopr_state \<Rightarrow> sink dopr_state result" where
  "conversion rnd maxlen d =
     (let c = dp_ch d
      in if c = CHR ''d'' \<or> c = CHR ''i'' then put_int 10 d
         else if c = CHR ''o'' then put_unsigned 8 d
         else if c = CHR ''u'' then put_unsigned 10 d
         else if c = CHR ''X'' then put_unsigned 16 (d\<lparr>dp_flags := dp_flags d OR DP_F_UP\<rparr>)
         else if c = CHR ''x'' then put_unsigned 16 d
         else if c = CHR ''f'' then
           bindR (va_float (dp_args d)) (\<lambda>(x, as).
           bindR (fmtfp rnd x (dp_min d) (dp_max d) (dp_flags d) (dp_out d)) (\<lambda>s.
           Inr (d\<lparr>dp_args := as, dp_out := s\<rparr>)))
         else if c = CHR ''E'' then skip_float (d\<lparr>dp_flags := dp_flags d OR DP_F_UP\<rparr>)
         else if c = CHR ''e'' then skip_float d
         else if c = CHR ''G'' then skip_float (d\<lparr>dp_flags := dp_flags d OR DP_F_UP\<rparr>)
         else if c = CHR ''g'' then skip_float d
         else if c = CHR ''c'' then
           bindR (va_word (dp_args d)) (\<lambda>(w, as).
           Inr (d\<lparr>dp_args := as, dp_out := dopr_outch (char_of (unat w)) (dp_out d)\<rparr>))
         else if c = CHR ''s'' then
           bindR (va_str (dp_args d)) (\<lambda>(v, as).
           let m = (if dp_max d < 0 then maxlen else dp_max d)
           in Inr (d\<lparr>dp_args := as, dp_max := m,
                     dp_out := fmtstr v (dp_flags d) (dp_min d) m (dp_out d)\<rparr>))
         else if c = CHR ''p'' then put_int 16 d
         else if c = CHR ''n'' then
           bindR (va_word (dp_args d)) (\<lambda>(p, as).
           let n = (if dp_cflags d = DP_C_SHORT then 2 else 4)
           in Inr (d\<lparr>dp_args := as,
                     dp_out := (dp_out d)\<lparr>stores := stores (dp_out d) @ [(p, n, currlen (dp_out d))]\<rparr>\<rparr>))
         else if c = CHR ''%'' then Inr (d\<lparr>dp_out := dopr_outch c (dp_out d)\<rparr>)
         else if c = CHR ''w'' then next_ch d
         else Inr d)"

definition step_conv :: "(rat \<Rightarrow> rat) \<Rightarrow> int \<Rightarrow> sink dopr_state \<Rightarrow> sink dopr_state result" where
  "step_conv rnd maxlen d =
     bindR (conversion rnd maxlen d) (\<lambda>d.
     bindR (next_ch d) (\<lambda>d.
     Inr (d\<lparr>dp_state := DP_S_DEFAULT, dp_flags := 0, dp_cflags := DP_C_NONE, dp_min := 0, dp_max := -1\<rparr>)))"

text \<open>One round of the loop of \<^verbatim>\<open>dopr\<close>, and the loop.\<close>

definition dopr_step :: "(rat \<Rightarrow> rat) \<Rightarrow> int \<Rightarrow> sink dopr_state \<Rightarrow> sink dopr_state result" where
  "dopr_step rnd maxlen d0 =
     (let d = (if dp_ch d0 = CHR 0x00 \<or> currlen (dp_out d0) \<ge> maxlen then d0\<lparr>dp_state := DP_S_DONE\<rparr> else d0)
      in case dp_state d of
           DP_S_DEFAULT \<Rightarrow> step_default d
         | DP_S_FLAGS \<Rightarrow> step_flags d
         | DP_S_MIN \<Rightarrow> step_min d
         | DP_S_DOT \<Rightarrow> step_dot d
         | DP_S_MAX \<Rightarrow> step_max d
         | DP_S_MOD \<Rightarrow> step_mod d
         | DP_S_CONV \<Rightarrow> step_conv rnd maxlen d
         | DP_S_DONE \<Rightarrow> Inr d)"

text \<open>
  Every round reads a character or moves on to a later state, so the loop ends.
\<close>

fun rank :: "dp_state \<Rightarrow> nat" where
  "rank DP_S_DEFAULT = 7" | "rank DP_S_FLAGS = 6" | "rank DP_S_MIN = 5" | "rank DP_S_DOT = 4"
| "rank DP_S_MAX = 3" | "rank DP_S_MOD = 2" | "rank DP_S_CONV = 1" | "rank DP_S_DONE = 0"

definition dopr_order :: "('o dopr_state \<times> 'o dopr_state) set" where
  "dopr_order = measures [\<lambda>d. if dp_state d = DP_S_DONE then 0 else 1, \<lambda>d. length (dp_format d), \<lambda>d. rank (dp_state d)]"

lemma next_ch_less:
  "next_ch d = Inr d' \<Longrightarrow> length (dp_format d') < length (dp_format d) \<and> dp_state d' = dp_state d"
  by (auto simp: next_ch_def split: list.splits)

lemma conversion_state:
  "conversion rnd m d = Inr d' \<Longrightarrow>
     length (dp_format d') \<le> length (dp_format d) \<and> dp_state d' = dp_state d"
  by (auto simp: conversion_def put_int_def put_unsigned_def skip_float_def bindR_eq_Inr Let_def
      dest: next_ch_less split: if_splits prod.splits)

lemma step_flags_less:
  "step_flags d = Inr d' \<Longrightarrow> dp_state d = DP_S_FLAGS \<Longrightarrow> (d', d) \<in> dopr_order"
  by (auto simp: step_flags_def Let_def dopr_order_def dest!: next_ch_less split: if_splits)

lemma step_min_less:
  "step_min d = Inr d' \<Longrightarrow> dp_state d = DP_S_MIN \<Longrightarrow> (d', d) \<in> dopr_order"
  by (auto simp: step_min_def bindR_eq_Inr dopr_order_def dest!: next_ch_less split: if_splits)

lemma step_dot_less:
  "step_dot d = Inr d' \<Longrightarrow> dp_state d = DP_S_DOT \<Longrightarrow> (d', d) \<in> dopr_order"
  by (auto simp: step_dot_def dopr_order_def dest!: next_ch_less split: if_splits)

lemma step_max_less:
  "step_max d = Inr d' \<Longrightarrow> dp_state d = DP_S_MAX \<Longrightarrow> (d', d) \<in> dopr_order"
  by (auto simp: step_max_def bindR_eq_Inr Let_def dopr_order_def dest!: next_ch_less split: if_splits)

lemma step_mod_less:
  "step_mod d = Inr d' \<Longrightarrow> dp_state d = DP_S_MOD \<Longrightarrow> (d', d) \<in> dopr_order"
  by (auto simp: step_mod_def bindR_eq_Inr dopr_order_def dest!: next_ch_less split: if_splits)

lemmas steps_less = step_flags_less step_min_less step_dot_less step_max_less step_mod_less

lemma less_dopr_order:
  "length (dp_format d') < length (dp_format d) \<Longrightarrow> dp_state d \<noteq> DP_S_DONE \<Longrightarrow> (d', d) \<in> dopr_order"
  by (auto simp: dopr_order_def)

lemma step_default_less:
  "step_default d = Inr d' \<Longrightarrow> dp_state d = DP_S_DEFAULT \<Longrightarrow> (d', d) \<in> dopr_order"
  by (auto simp: step_default_def intro!: less_dopr_order dest!: next_ch_less split: if_splits)

lemma step_conv_less:
  "step_conv rnd m d = Inr d' \<Longrightarrow> dp_state d = DP_S_CONV \<Longrightarrow> (d', d) \<in> dopr_order"
  by (auto simp: step_conv_def bindR_eq_Inr intro!: less_dopr_order dest!: next_ch_less conversion_state)

lemma dopr_step_less:
  assumes "dopr_step rnd m d = Inr d'" "dp_state d \<noteq> DP_S_DONE"
  shows "(d', d) \<in> dopr_order"
proof (cases "dp_ch d = CHR 0x00 \<or> currlen (dp_out d) \<ge> m")
  case True
  then show ?thesis using assms by (auto simp: dopr_step_def dopr_order_def)
next
  case False
  then show ?thesis using assms steps_less step_default_less step_conv_less
    by (cases "dp_state d") (auto simp: dopr_step_def)
qed

function dopr_loop :: "(rat \<Rightarrow> rat) \<Rightarrow> int \<Rightarrow> sink dopr_state \<Rightarrow> sink dopr_state result" where
  "dopr_loop rnd maxlen d =
     (if dp_state d = DP_S_DONE then Inr d
      else bindR (dopr_step rnd maxlen d) (dopr_loop rnd maxlen))"
  by pat_completeness auto
termination
proof (relation "inv_image dopr_order (\<lambda>(r, m, d). d)")
  show "wf (inv_image dopr_order (\<lambda>(r, m, d). d))" by (simp add: dopr_order_def)
qed (simp add: dopr_step_less)

declare dopr_loop.simps [simp del]

definition dopr :: "(rat \<Rightarrow> rat) \<Rightarrow> int \<Rightarrow> string \<Rightarrow> arg list \<Rightarrow> sink result" where
  "dopr rnd maxlen format as =
     bindR (next_ch \<lparr>dp_state = DP_S_DEFAULT, dp_ch = CHR 0x00, dp_format = format @ [CHR 0x00],
              dp_args = as, dp_min = 0, dp_max = -1, dp_flags = 0, dp_cflags = DP_C_NONE,
              dp_out = \<lparr>chars = [], currlen = 0, stores = []\<rparr>\<rparr>) (\<lambda>d.
     bindR (dopr_loop rnd maxlen d) (\<lambda>d. Inr (dp_out d)))"

definition vsnprintf :: "(rat \<Rightarrow> rat) \<Rightarrow> int \<Rightarrow> string \<Rightarrow> arg list \<Rightarrow> sink result" where
  "vsnprintf rnd maxlen fmt as = dopr rnd maxlen fmt as"

definition snprintf :: "(rat \<Rightarrow> rat) \<Rightarrow> int \<Rightarrow> string \<Rightarrow> arg list \<Rightarrow> sink result" where
  "snprintf rnd maxlen fmt as = vsnprintf rnd maxlen fmt as"

end
