(* ===== verification/Snprintf_Props.thy ===== *)
theory Snprintf_Props
  imports Snprintf
begin

text \<open>
  What formatted output prints: the text of a number and the number it denotes, the text of a
  whole format as the sequence of its directives, and what becomes of the length limit.
\<close>

section \<open>Output\<close>

lemma chars_outch [simp]: "chars (dopr_outch c s) = chars s @ [c]"
  by (simp add: dopr_outch_def)

lemma currlen_outch [simp]: "currlen (dopr_outch c s) = i32 (currlen s + 1)"
  by (simp add: dopr_outch_def)

lemma chars_put_n [simp]: "chars (put_n dopr_outch c n s) = chars s @ replicate n c"
  by (induction n arbitrary: s) simp_all

lemma chars_put_all [simp]: "chars (put_all dopr_outch cs s) = chars s @ cs"
  by (induction cs arbitrary: s) simp_all

section \<open>Digits\<close>

text \<open>The number a string of digits denotes, most significant digit first.\<close>

definition digit_val :: "char \<Rightarrow> nat" where
  "digit_val c = (let n = of_char c in if n < 58 then n - 48 else if n < 97 then n - 55 else n - 87)"


lemma digit_table:
  "\<forall>d \<in> set [0..<16]. digit_val (digit_char caps d) = d \<and> (digit_char caps d = CHR ''0'' \<longrightarrow> d = 0)"
proof (cases caps)
  case True
  moreover have "\<forall>d \<in> set [0..<16]. digit_val (digit_char True d) = d \<and> (digit_char True d = CHR ''0'' \<longrightarrow> d = 0)"
    by code_simp
  ultimately show ?thesis by simp
next
  case False
  moreover have "\<forall>d \<in> set [0..<16]. digit_val (digit_char False d) = d \<and> (digit_char False d = CHR ''0'' \<longrightarrow> d = 0)"
    by code_simp
  ultimately show ?thesis by simp
qed


lemma digit_char_zero: "d < 16 \<Longrightarrow> digit_char caps d = CHR ''0'' \<Longrightarrow> d = 0"
  using digit_table [of caps] by simp



section \<open>Integers\<close>




lemma word_of_i32 [simp]: "word_of_int (i32 x) = (word_of_int x :: u32)"
  by (simp add: i32_def)







text \<open>
  What the last condition excludes: a width of ten and a precision of five with the flag \<^verbatim>\<open>0\<close>
  print seven characters.
\<close>

lemma zero_flag_loses_width:
  "snprintf rnd 1000 ''%010.5d'' [AWord 42] = Inr \<lparr>chars = ''0000042'', currlen = 7, stores = []\<rparr>"
  by code_simp

end
