(* ===== verification/Snprintf_Format.thy ===== *)
theory Snprintf_Format
  imports Snprintf
begin

text \<open>
  The text of a whole format: \<^verbatim>\<open>dopr\<close> carries out the directives of its format one after
  another, until the counter has reached the limit.
\<close>

section \<open>Formats\<close>

text \<open>
  A format as a list of directives: a character that stands for itself, or a conversion with
  its flags, the digits of its width and of its precision, and its modifier.
\<close>

datatype directive = Lit char | Conv string string "string option" "char option" char

fun show_directive :: "directive \<Rightarrow> string" where
  "show_directive (Lit c) = [c]"
| "show_directive (Conv fs ws ps m c) =
     ''%'' @ fs @ ws @ (case ps of None \<Rightarrow> [] | Some p \<Rightarrow> CHR ''.'' # p) @
     (case m of None \<Rightarrow> [] | Some x \<Rightarrow> [x]) @ [c]"

definition flag_bit :: "char \<Rightarrow> u32" where
  "flag_bit c = (if c = CHR ''-'' then DP_F_MINUS else if c = CHR ''+'' then DP_F_PLUS
     else if c = CHR '' '' then DP_F_SPACE else if c = CHR ''#'' then DP_F_NUM else DP_F_ZERO)"

definition dec :: "int \<Rightarrow> string \<Rightarrow> int" where
  "dec n ws = foldl (\<lambda>n c. i32 (10 * n + char_to_int c)) n ws"

definition dec_max :: "int \<Rightarrow> string \<Rightarrow> int" where
  "dec_max n ws = foldl (\<lambda>n c. i32 (10 * (if n < 0 then 0 else n) + char_to_int c)) n ws"

definition mod_flag :: "char option \<Rightarrow> dp_cflag" where
  "mod_flag m = (case m of None \<Rightarrow> DP_C_NONE | Some x \<Rightarrow>
     if x = CHR ''h'' then DP_C_SHORT else if x = CHR ''l'' then DP_C_LONG else DP_C_LDOUBLE)"

definition conv_chars :: string where
  "conv_chars = ''diouXxfEeGgcspn%''"

fun wf_directive :: "directive \<Rightarrow> bool" where
  "wf_directive (Lit c) \<longleftrightarrow> c \<noteq> CHR ''%'' \<and> c \<noteq> CHR 0x00"
| "wf_directive (Conv fs ws ps m c) \<longleftrightarrow>
     set fs \<subseteq> set ''-+ #0'' \<and> list_all isdigit ws \<and> (ws \<noteq> [] \<longrightarrow> hd ws \<noteq> CHR ''0'') \<and>
     (case ps of None \<Rightarrow> True | Some p \<Rightarrow> list_all isdigit p) \<and>
     (case m of None \<Rightarrow> True | Some x \<Rightarrow> x \<in> set ''hlL'') \<and> c \<in> set conv_chars"

text \<open>
  The reference: the directives are carried out one after another until the counter has
  reached the limit.
\<close>

definition ready :: "arg list \<Rightarrow> sink \<Rightarrow> sink dopr_state" where
  "ready as out = \<lparr>dp_state = DP_S_DEFAULT, dp_ch = CHR 0x00, dp_format = [], dp_args = as, dp_min = 0,
     dp_max = -1, dp_flags = 0, dp_cflags = DP_C_NONE, dp_out = out\<rparr>"

fun render :: "(rat \<Rightarrow> rat) \<Rightarrow> int \<Rightarrow> directive \<Rightarrow> arg list \<Rightarrow> sink \<Rightarrow> (arg list \<times> sink) result" where
  "render rnd maxlen (Lit c) as out = Inr (as, dopr_outch c out)"
| "render rnd maxlen (Conv fs ws ps m c) as out =
     bindR (conversion rnd maxlen
       ((ready as out)\<lparr>dp_ch := c, dp_flags := foldl (\<lambda>f x. f OR flag_bit x) 0 fs, dp_min := dec 0 ws,
          dp_max := (case ps of None \<Rightarrow> -1 | Some p \<Rightarrow> dec_max (-1) p),
          dp_cflags := mod_flag m\<rparr>)) (\<lambda>d. Inr (dp_args d, dp_out d))"

fun render_all :: "(rat \<Rightarrow> rat) \<Rightarrow> int \<Rightarrow> directive list \<Rightarrow> arg list \<Rightarrow> sink \<Rightarrow> sink result" where
  "render_all rnd maxlen [] as out = Inr out"
| "render_all rnd maxlen (x # xs) as out =
     (if currlen out \<ge> maxlen then Inr out
      else bindR (render rnd maxlen x as out) (\<lambda>(as, out). render_all rnd maxlen xs as out))"

text \<open>The state in which the text still to be read, the character read last included, is \<open>t\<close>.\<close>

definition reading :: "string \<Rightarrow> sink dopr_state \<Rightarrow> sink dopr_state" where
  "reading t d = d\<lparr>dp_ch := hd t, dp_format := tl t\<rparr>"

lemma reading_simps [simp]:
  "dp_ch (reading t d) = hd t" "dp_format (reading t d) = tl t" "dp_state (reading t d) = dp_state d"
  "dp_args (reading t d) = dp_args d" "dp_min (reading t d) = dp_min d" "dp_max (reading t d) = dp_max d"
  "dp_flags (reading t d) = dp_flags d" "dp_cflags (reading t d) = dp_cflags d" "dp_out (reading t d) = dp_out d"
  by (simp_all add: reading_def)

lemma reading_update [simp]:
  "(reading t d)\<lparr>dp_state := x1\<rparr> = reading t (d\<lparr>dp_state := x1\<rparr>)"
  "(reading t d)\<lparr>dp_args := x2\<rparr> = reading t (d\<lparr>dp_args := x2\<rparr>)"
  "(reading t d)\<lparr>dp_min := x3\<rparr> = reading t (d\<lparr>dp_min := x3\<rparr>)"
  "(reading t d)\<lparr>dp_max := x4\<rparr> = reading t (d\<lparr>dp_max := x4\<rparr>)"
  "(reading t d)\<lparr>dp_flags := x5\<rparr> = reading t (d\<lparr>dp_flags := x5\<rparr>)"
  "(reading t d)\<lparr>dp_cflags := x6\<rparr> = reading t (d\<lparr>dp_cflags := x6\<rparr>)"
  "(reading t d)\<lparr>dp_out := x7\<rparr> = reading t (d\<lparr>dp_out := x7\<rparr>)"
  by (simp_all add: reading_def)

lemma next_reading [simp]: "t \<noteq> [] \<Longrightarrow> next_ch (reading (c # t) d) = Inr (reading t d)"
  by (cases t) (simp_all add: next_ch_def reading_def)

lemma loop_step:
  "dp_state d \<noteq> DP_S_DONE \<Longrightarrow> dopr_loop rnd m d = bindR (dopr_step rnd m d) (dopr_loop rnd m)"
  by (subst dopr_loop.simps) simp

lemma loop_done: "dp_state d = DP_S_DONE \<Longrightarrow> dopr_loop rnd m d = Inr d"
  by (subst dopr_loop.simps) simp

lemma loop_stop:
  assumes "hd t = CHR 0x00 \<or> m \<le> currlen (dp_out d)"
  shows "bindR (dopr_loop rnd m (reading t d)) (\<lambda>d. Inr (dp_out d)) = Inr (dp_out d)"
proof (cases "dp_state d = DP_S_DONE")
  case False
  then show ?thesis using assms by (subst loop_step) (auto simp: dopr_step_def loop_done)
qed (simp add: loop_done)

lemma loop_flags:
  assumes "set fs \<subseteq> set ''-+ #0''" "c \<notin> set ''-+ #0''" "c \<noteq> CHR 0x00" "currlen (dp_out d) < m"
    and "dp_state d = DP_S_FLAGS"
  shows "dopr_loop rnd m (reading (fs @ c # t) d) =
    dopr_loop rnd m (reading (c # t) (d\<lparr>dp_state := DP_S_MIN, dp_flags := foldl (\<lambda>f x. f OR flag_bit x) (dp_flags d) fs\<rparr>))"
  using assms(1,4,5)
proof (induction fs arbitrary: d)
  case Nil
  then show ?case using assms(2,3) by (subst loop_step) (auto simp: dopr_step_def step_flags_def Let_def)
next
  case (Cons f fs)
  then have f: "f \<in> set ''-+ #0''" "f \<noteq> CHR 0x00" by auto
  have "dopr_step rnd m (reading (f # fs @ c # t) d) = Inr (reading (fs @ c # t) (d\<lparr>dp_flags := dp_flags d OR flag_bit f\<rparr>))"
    using f Cons.prems(2,3) by (auto simp: dopr_step_def step_flags_def flag_bit_def Let_def)
  then show ?case using Cons by (subst append_Cons, subst loop_step) simp_all
qed

lemma loop_min:
  assumes "list_all isdigit ws" "\<not> isdigit c" "c \<noteq> CHR ''*''" "c \<noteq> CHR 0x00" "currlen (dp_out d) < m"
    and "dp_state d = DP_S_MIN"
  shows "dopr_loop rnd m (reading (ws @ c # t) d) =
    dopr_loop rnd m (reading (c # t) (d\<lparr>dp_state := DP_S_DOT, dp_min := dec (dp_min d) ws\<rparr>))"
  using assms(1,5,6)
proof (induction ws arbitrary: d)
  case Nil
  then show ?case using assms(2-4) by (subst loop_step) (auto simp: dopr_step_def step_min_def dec_def)
next
  case (Cons w ws)
  then have w: "isdigit w" "w \<noteq> CHR 0x00" by (auto simp: isdigit_def)
  have "dopr_step rnd m (reading (w # ws @ c # t) d) = Inr (reading (ws @ c # t) (d\<lparr>dp_min := i32 (10 * dp_min d + char_to_int w)\<rparr>))"
    using w Cons.prems(2,3) by (auto simp: dopr_step_def step_min_def)
  then show ?case using Cons by (subst append_Cons, subst loop_step) (simp_all add: dec_def)
qed

lemma loop_max:
  assumes "list_all isdigit ws" "\<not> isdigit c" "c \<noteq> CHR ''*''" "c \<noteq> CHR 0x00" "currlen (dp_out d) < m"
    and "dp_state d = DP_S_MAX"
  shows "dopr_loop rnd m (reading (ws @ c # t) d) =
    dopr_loop rnd m (reading (c # t) (d\<lparr>dp_state := DP_S_MOD, dp_max := dec_max (dp_max d) ws\<rparr>))"
  using assms(1,5,6)
proof (induction ws arbitrary: d)
  case Nil
  then show ?case using assms(2-4) by (subst loop_step) (auto simp: dopr_step_def step_max_def dec_max_def)
next
  case (Cons w ws)
  then have w: "isdigit w" "w \<noteq> CHR 0x00" by (auto simp: isdigit_def)
  have "dopr_step rnd m (reading (w # ws @ c # t) d) =
      Inr (reading (ws @ c # t) (d\<lparr>dp_max := i32 (10 * (if dp_max d < 0 then 0 else dp_max d) + char_to_int w)\<rparr>))"
    using w Cons.prems(2,3) by (auto simp: dopr_step_def step_max_def Let_def)
  then show ?case using Cons by (subst append_Cons, subst loop_step) (simp_all add: dec_max_def)
qed

lemma loop_precision:
  assumes "case ps of None \<Rightarrow> True | Some p \<Rightarrow> list_all isdigit p"
    and c: "c \<noteq> CHR ''.''" "\<not> isdigit c" "c \<noteq> CHR ''*''" "c \<noteq> CHR 0x00" "currlen (dp_out d) < m"
    and "dp_state d = DP_S_DOT"
  shows "dopr_loop rnd m (reading ((case ps of None \<Rightarrow> [] | Some p \<Rightarrow> CHR ''.'' # p) @ c # t) d) =
    dopr_loop rnd m (reading (c # t) (d\<lparr>dp_state := DP_S_MOD,
      dp_max := (case ps of None \<Rightarrow> dp_max d | Some p \<Rightarrow> dec_max (dp_max d) p)\<rparr>))"
proof (cases ps)
  case None
  then show ?thesis using assms by (simp add: loop_step dopr_step_def step_dot_def)
next
  case (Some p)
  then have "dopr_step rnd m (reading (CHR ''.'' # p @ c # t) d) = Inr (reading (p @ c # t) (d\<lparr>dp_state := DP_S_MAX\<rparr>))"
    using assms by (simp add: dopr_step_def step_dot_def)
  then show ?thesis using Some assms by (subst loop_step) (simp_all add: loop_max)
qed

lemma loop_modifier:
  assumes "case x of None \<Rightarrow> True | Some x \<Rightarrow> x \<in> set ''hlL''"
    and c: "c \<notin> set ''hlL''" "c \<noteq> CHR 0x00" "currlen (dp_out d) < m"
    and "dp_state d = DP_S_MOD" "dp_cflags d = DP_C_NONE"
  shows "dopr_loop rnd m (reading ((case x of None \<Rightarrow> [] | Some x \<Rightarrow> [x]) @ c # t) d) =
    dopr_loop rnd m (reading (c # t) (d\<lparr>dp_cflags := mod_flag x, dp_state := DP_S_CONV\<rparr>))"
proof (cases x)
  case None
  have eq: "d\<lparr>dp_cflags := mod_flag x, dp_state := DP_S_CONV\<rparr> = d\<lparr>dp_state := DP_S_CONV\<rparr>"
    using assms(6) None by (cases d) (simp add: mod_flag_def)
  show ?thesis unfolding eq using None assms
    by (subst loop_step) (simp_all add: dopr_step_def step_mod_def)
next
  case (Some y)
  then show ?thesis using assms
    by (subst loop_step) (auto simp: dopr_step_def step_mod_def mod_flag_def)
qed

lemma conversion_reading:
  assumes "dp_ch d = c" "c \<noteq> CHR ''w''"
  shows "conversion rnd m (reading (c # t) d) =
    bindR (conversion rnd m d) (\<lambda>d'. Inr (reading (c # t) d'))"
  using assms unfolding conversion_def put_int_def put_unsigned_def skip_float_def Let_def
  by (simp add: bindR_assoc case_prod_unfold cong: if_cong)

lemma conversion_any_state:
  assumes "dp_ch d \<noteq> CHR ''w''"
  shows "conversion rnd m (d\<lparr>dp_state := st\<rparr>) = bindR (conversion rnd m d) (\<lambda>d'. Inr (d'\<lparr>dp_state := st\<rparr>))"
  using assms unfolding conversion_def put_int_def put_unsigned_def skip_float_def Let_def
  by (cases d) (simp add: bindR_assoc case_prod_unfold cong: if_cong)

lemma conv_char:
  assumes "c \<in> set conv_chars"
  shows "c \<notin> set ''-+ #0''" "\<not> isdigit c" "c \<noteq> CHR ''*''" "c \<noteq> CHR ''.''" "c \<notin> set ''hlL''"
    "c \<noteq> CHR 0x00" "c \<noteq> CHR ''w''"
proof -
  have "\<forall>c \<in> set conv_chars. c \<notin> set ''-+ #0'' \<and> \<not> isdigit c \<and> c \<noteq> CHR ''*'' \<and> c \<noteq> CHR ''.'' \<and>
      c \<notin> set ''hlL'' \<and> c \<noteq> CHR 0x00 \<and> c \<noteq> CHR ''w''"
    by code_simp
  then show "c \<notin> set ''-+ #0''" "\<not> isdigit c" "c \<noteq> CHR ''*''" "c \<noteq> CHR ''.''" "c \<notin> set ''hlL''"
    "c \<noteq> CHR 0x00" "c \<noteq> CHR ''w''" using assms by blast+
qed

lemma modifier_char: "x \<in> set ''hlL'' \<Longrightarrow> x \<notin> set ''-+ #0'' \<and> \<not> isdigit x \<and> x \<noteq> CHR ''*'' \<and> x \<noteq> CHR ''.'' \<and> x \<noteq> CHR 0x00"
  by (auto simp: isdigit_def)

text \<open>The character a part of a directive is followed by.\<close>

lemma after_precision:
  assumes "case x of None \<Rightarrow> True | Some x \<Rightarrow> x \<in> set ''hlL''" "c \<in> set conv_chars"
  obtains c' t' where "(case x of None \<Rightarrow> [] | Some x \<Rightarrow> [x]) @ c # t = c' # t'" "c' \<noteq> CHR ''.''"
    "\<not> isdigit c'" "c' \<noteq> CHR ''*''" "c' \<noteq> CHR 0x00" "c' \<notin> set ''-+ #0''"
  using conv_char [OF assms(2)] modifier_char assms(1) by (cases x) auto

lemma after_width:
  assumes "case x of None \<Rightarrow> True | Some x \<Rightarrow> x \<in> set ''hlL''" "c \<in> set conv_chars"
  obtains c' t' where "(case ps of None \<Rightarrow> [] | Some p \<Rightarrow> CHR ''.'' # p) @ (case x of None \<Rightarrow> [] | Some x \<Rightarrow> [x]) @ c # t = c' # t'"
    "\<not> isdigit c'" "c' \<noteq> CHR ''*''" "c' \<noteq> CHR 0x00" "c' \<notin> set ''-+ #0''"
proof (cases ps)
  case None
  obtain c' t' where "(case x of None \<Rightarrow> [] | Some x \<Rightarrow> [x]) @ c # t = c' # t'"
    "\<not> isdigit c'" "c' \<noteq> CHR ''*''" "c' \<noteq> CHR 0x00" "c' \<notin> set ''-+ #0''"
    by (rule after_precision [OF assms])
  then show ?thesis using None by (intro that) auto
next
  case (Some p)
  then show ?thesis by (intro that [of "CHR ''.''" "p @ (case x of None \<Rightarrow> [] | Some x \<Rightarrow> [x]) @ c # t"]) (auto simp: isdigit_def)
qed

lemma after_flags:
  assumes "list_all isdigit ws" "ws \<noteq> [] \<longrightarrow> hd ws \<noteq> CHR ''0''"
    "case x of None \<Rightarrow> True | Some x \<Rightarrow> x \<in> set ''hlL''" "c \<in> set conv_chars"
  obtains c' t' where "ws @ (case ps of None \<Rightarrow> [] | Some p \<Rightarrow> CHR ''.'' # p) @
      (case x of None \<Rightarrow> [] | Some x \<Rightarrow> [x]) @ c # t = c' # t'"
    "c' \<noteq> CHR 0x00" "c' \<notin> set ''-+ #0''"
proof (cases ws)
  case Nil
  obtain c' t' where "(case ps of None \<Rightarrow> [] | Some p \<Rightarrow> CHR ''.'' # p) @ (case x of None \<Rightarrow> [] | Some x \<Rightarrow> [x]) @ c # t = c' # t'"
    "c' \<noteq> CHR 0x00" "c' \<notin> set ''-+ #0''" by (rule after_width [OF assms(3,4)])
  then show ?thesis using Nil by (intro that) auto
next
  case (Cons w ws')
  then have "w \<noteq> CHR 0x00" "w \<notin> set ''-+ #0''" using assms(1,2) by (auto simp: isdigit_def)
  then show ?thesis using Cons by (intro that) auto
qed

lemma loop_directive:
  assumes "wf_directive x" "t \<noteq> []" "currlen out < m"
  shows "dopr_loop rnd m (reading (show_directive x @ t) (ready as out)) =
    bindR (render rnd m x as out) (\<lambda>(as, out). dopr_loop rnd m (reading t (ready as out)))"
proof (cases x)
  case (Lit c)
  then show ?thesis using assms
    by (subst loop_step) (simp_all add: ready_def dopr_step_def step_default_def)
next
  case (Conv fs ws ps y c)
  let ?P = "case ps of None \<Rightarrow> [] | Some p \<Rightarrow> CHR ''.'' # p" and ?M = "case y of None \<Rightarrow> [] | Some x \<Rightarrow> [x]"
  have w: "set fs \<subseteq> set ''-+ #0''" "list_all isdigit ws" "ws \<noteq> [] \<longrightarrow> hd ws \<noteq> CHR ''0''"
      "case ps of None \<Rightarrow> True | Some p \<Rightarrow> list_all isdigit p"
      "case y of None \<Rightarrow> True | Some x \<Rightarrow> x \<in> set ''hlL''" "c \<in> set conv_chars"
    using assms(1) Conv by simp_all
  let ?r = "\<lambda>s fl mn mx cf. \<lparr>dp_state = s, dp_ch = CHR 0x00, dp_format = [], dp_args = as, dp_min = mn,
     dp_max = mx, dp_flags = fl, dp_cflags = cf, dp_out = out\<rparr>"
  let ?fl = "foldl (\<lambda>f x. f OR flag_bit x) 0 fs" and ?mn = "dec 0 ws"
    and ?mx = "case ps of None \<Rightarrow> -1 | Some p \<Rightarrow> dec_max (-1) p" and ?L = "dopr_loop rnd m"
  have "?L (reading (show_directive x @ t) (ready as out)) = ?L (reading (fs @ ws @ ?P @ ?M @ c # t) (?r DP_S_FLAGS 0 0 (-1) DP_C_NONE))"
    using assms(3) unfolding Conv ready_def by (subst loop_step) (simp_all add: dopr_step_def step_default_def)
  also have "\<dots> = ?L (reading (ws @ ?P @ ?M @ c # t) (?r DP_S_MIN ?fl 0 (-1) DP_C_NONE))"
  proof -
    obtain c' t' where e: "ws @ ?P @ ?M @ c # t = c' # t'" "c' \<noteq> CHR 0x00" "c' \<notin> set ''-+ #0''"
      by (rule after_flags [OF w(2,3,5,6)])
    show ?thesis unfolding e(1) by (subst loop_flags) (use w(1) e(2,3) assms(3) in simp_all)
  qed
  also have "\<dots> = ?L (reading (?P @ ?M @ c # t) (?r DP_S_DOT ?fl ?mn (-1) DP_C_NONE))"
  proof -
    obtain c' t' where e: "?P @ ?M @ c # t = c' # t'" "\<not> isdigit c'" "c' \<noteq> CHR ''*''" "c' \<noteq> CHR 0x00"
      by (rule after_width [OF w(5,6)])
    show ?thesis unfolding e(1) by (subst loop_min) (use w(2) e(2-4) assms(3) in simp_all)
  qed
  also have "\<dots> = ?L (reading (?M @ c # t) (?r DP_S_MOD ?fl ?mn ?mx DP_C_NONE))"
  proof -
    obtain c' t' where e: "?M @ c # t = c' # t'" "c' \<noteq> CHR ''.''" "\<not> isdigit c'" "c' \<noteq> CHR ''*''" "c' \<noteq> CHR 0x00"
      by (rule after_precision [OF w(5,6)])
    show ?thesis unfolding e(1) by (subst loop_precision [OF w(4)]) (use e(2-5) assms(3) in \<open>simp_all cong: option.case_cong\<close>)
  qed
  also have "\<dots> = ?L (reading (c # t) (?r DP_S_CONV ?fl ?mn ?mx (mod_flag y)))"
    by (subst loop_modifier [OF w(5)]) (use conv_char [OF w(6)] assms(3) in simp_all)
  also have "\<dots> = bindR (step_conv rnd m (reading (c # t) (?r DP_S_CONV ?fl ?mn ?mx (mod_flag y)))) ?L"
    using conv_char(6) [OF w(6)] assms(3) by (subst loop_step) (simp_all add: dopr_step_def)
  also have "\<dots> = bindR (render rnd m x as out) (\<lambda>(as, out). ?L (reading t (ready as out)))"
  proof -
    let ?d = "(?r DP_S_CONV ?fl ?mn ?mx (mod_flag y))\<lparr>dp_ch := c\<rparr>"
    have d: "reading (c # t) (?r DP_S_CONV ?fl ?mn ?mx (mod_flag y)) = reading (c # t) ?d"
      by (simp add: reading_def)
    have fin: "reading t (d\<lparr>dp_state := DP_S_DEFAULT, dp_flags := 0, dp_cflags := DP_C_NONE, dp_min := 0, dp_max := - 1\<rparr>)
        = reading t (ready (dp_args d) (dp_out d))" for d
      by (cases d) (simp add: reading_def ready_def)
    have "conversion rnd m ((ready as out)\<lparr>dp_ch := c, dp_flags := ?fl, dp_min := ?mn, dp_max := ?mx, dp_cflags := mod_flag y\<rparr>)
        = bindR (conversion rnd m ?d) (\<lambda>d. Inr (d\<lparr>dp_state := DP_S_DEFAULT\<rparr>))"
      using conversion_any_state [of ?d rnd m DP_S_DEFAULT] conv_char(7) [OF w(6)] by (simp add: ready_def)
    then show ?thesis unfolding d step_conv_def Conv
      using conversion_reading [of ?d c rnd m t] conv_char(7) [OF w(6)] assms(2)
      by (simp add: bindR_assoc fin)
  qed
  finally show ?thesis .
qed

lemma dopr_directives:
  assumes "list_all wf_directive ds"
  shows "bindR (dopr_loop rnd m (reading (concat (map show_directive ds) @ [CHR 0x00]) (ready as out)))
      (\<lambda>d. Inr (dp_out d)) = render_all rnd m ds as out"
  using assms
proof (induction ds arbitrary: as out)
  case Nil
  then show ?case using loop_stop [of "[CHR 0x00]" m "ready as out" rnd] by (simp add: ready_def)
next
  case (Cons x ds)
  let ?t = "concat (map show_directive ds) @ [CHR 0x00]"
  show ?case
  proof (cases "currlen out \<ge> m")
    case True
    then show ?thesis
      using loop_stop [of "concat (map show_directive (x # ds)) @ [CHR 0x00]" m "ready as out" rnd]
      by (simp add: ready_def)
  next
    case False
    then have "dopr_loop rnd m (reading (show_directive x @ ?t) (ready as out)) =
        bindR (render rnd m x as out) (\<lambda>(as, out). dopr_loop rnd m (reading ?t (ready as out)))"
      using Cons.prems by (intro loop_directive) simp_all
    then show ?thesis using False Cons by (simp add: bindR_assoc case_prod_unfold)
  qed
qed

lemma snprintf_renders_lemma:
  assumes "list_all wf_directive ds"
  shows "snprintf rnd maxlen (concat (map show_directive ds)) as =
    render_all rnd maxlen ds as \<lparr>chars = [], currlen = 0, stores = []\<rparr>"
proof -
  let ?t = "concat (map show_directive ds) @ [CHR 0x00]" and ?o = "\<lparr>chars = [], currlen = 0, stores = []\<rparr>"
  have "next_ch \<lparr>dp_state = DP_S_DEFAULT, dp_ch = CHR 0x00, dp_format = ?t, dp_args = as, dp_min = 0,
      dp_max = -1, dp_flags = 0, dp_cflags = DP_C_NONE, dp_out = ?o\<rparr> = Inr (reading ?t (ready as ?o))"
    by (cases ?t) (simp_all add: next_ch_def reading_def ready_def)
  then show ?thesis
    using dopr_directives [OF assms, of rnd maxlen as ?o]
    by (simp add: snprintf_def vsnprintf_def dopr_def)
qed

section \<open>Properties of formatted output\<close>

text \<open>
  C17. \<^verbatim>\<open>snprintf\<close> on the text of a list of directives carries them out one after another, each
  conversion with exactly the flags, width, precision and modifier written in it, until the
  counter reaches the limit; it fails only where a conversion finds no argument of its kind.
\<close>
theorem snprintf_renders:
  assumes "list_all wf_directive ds"
  shows "snprintf rnd maxlen (concat (map show_directive ds)) as =
    render_all rnd maxlen ds as \<lparr>chars = [], currlen = 0, stores = []\<rparr>"
  using assms by (rule snprintf_renders_lemma)

theorem snprintf_renders_witness:
  "snprintf id 1000 ''n=%-5.3ld!'' [AWord 7] = Inr \<lparr>chars = ''n=007  !'', currlen = 8, stores = []\<rparr>"
proof -
  let ?ds = "[Lit CHR ''n'', Lit CHR ''='', Conv ''-'' ''5'' (Some ''3'') (Some CHR ''l'') CHR ''d'', Lit CHR ''!'']"
  have "list_all wf_directive ?ds" by code_simp
  moreover have "concat (map show_directive ?ds) = ''n=%-5.3ld!''" by simp
  moreover have "render_all id 1000 ?ds [AWord 7] \<lparr>chars = [], currlen = 0, stores = []\<rparr> =
      Inr \<lparr>chars = ''n=007  !'', currlen = 8, stores = []\<rparr>" by code_simp
  ultimately show ?thesis using snprintf_renders [of ?ds id 1000 "[AWord 7]"] by simp
qed




text \<open>
  A format that ends in \<^verbatim>\<open>%w\<close> makes \<^verbatim>\<open>dopr\<close> read on behind the end of the format.
\<close>
theorem snprintf_reads_past_end:
  "snprintf rnd 1000 ''%w'' as = Inl OutOfRange"
  by (simp add: snprintf_def vsnprintf_def dopr_def next_ch_def dopr_loop.simps dopr_step_def step_default_def
      step_flags_def step_min_def step_dot_def step_mod_def step_conv_def conversion_def isdigit_def Let_def)

end
