(* ===== verification/Printf.thy ===== *)
theory Printf
  imports Snprintf
begin

text \<open>
  The \<^verbatim>\<open>printf\<close> of user programs, \<^verbatim>\<open>src/t0.dir/sbin/printf.c\<close>: the kernel's formatter with
  every character written by a system call of its own (\<^verbatim>\<open>putchar\<close> of \<^verbatim>\<open>libc.c\<close>). \<^verbatim>\<open>isdigit\<close> is
  declared in \<^verbatim>\<open>libc.h\<close> and defined nowhere in the repository; it is the parameter \<open>is_digit\<close>.
\<close>

section \<open>Output\<close>

text \<open>
  The \<^verbatim>\<open>write\<close> calls made so far (descriptor and bytes), whose results \<^verbatim>\<open>dopr_outch\<close> ignores.
\<close>

record usink =
  written :: "(u32 \<times> string) list"
  ulen :: int
  ustores :: "(u32 \<times> nat \<times> int) list"

definition putchar :: "char \<Rightarrow> usink \<Rightarrow> usink" where
  "putchar c s = s\<lparr>written := written s @ [(1, [c])]\<rparr>"

definition p_outch :: "char \<Rightarrow> usink \<Rightarrow> usink" where
  "p_outch c s = putchar c (s\<lparr>ulen := i32 (ulen s + 1)\<rparr>)"

section \<open>Strings and integers\<close>

definition p_fmtstr :: "string option \<Rightarrow> u32 \<Rightarrow> int \<Rightarrow> int \<Rightarrow> usink \<Rightarrow> usink" where
  "p_fmtstr value flags mn mx s =
     (let v = (case value of None \<Rightarrow> ''<NULL>'' | Some v \<Rightarrow> v);
          strln = int (length v);
          padlen0 = i32 (mn - strln);
          padlen1 = (if padlen0 < 0 then 0 else padlen0);
          padlen = (if has flags DP_F_MINUS then - padlen1 else padlen1);
          (cnt1, s1) = put_while p_outch (replicate (nat padlen) CHR '' '') 0 mx s;
          (cnt2, s2) = put_while p_outch v cnt1 mx s1;
          (cnt3, s3) = put_while p_outch (replicate (nat (- padlen)) CHR '' '') cnt2 mx s2
      in s3)"

definition p_fmtint :: "int \<Rightarrow> u32 \<Rightarrow> int \<Rightarrow> int \<Rightarrow> u32 \<Rightarrow> usink \<Rightarrow> usink" where
  "p_fmtint value base mn mx0 flags s =
     (let mx = (if mx0 < 0 then 0 else mx0);
          (signvalue, uvalue) =
            (if \<not> has flags DP_F_UNSIGNED then
               (if value < 0 then (''-'', word_of_int (i32 (- value)))
                else if has flags DP_F_PLUS then (''+'', word_of_int value)
                else if has flags DP_F_SPACE then ('' '', word_of_int value)
                else ('''', word_of_int value))
             else ('''', word_of_int value));
          caps = has flags DP_F_UP;
          convert = convert_loop caps base uvalue [];
          place = (if length convert = 20 then 19 else length convert);
          zpadlen0 = mx - int place;
          spadlen0 = i32 (mn - (if mx \<ge> int place then mx else int place) - int (length signvalue));
          zpadlen1 = (if zpadlen0 < 0 then 0 else zpadlen0);
          spadlen1 = (if spadlen0 < 0 then 0 else spadlen0);
          (zpadlen, spadlen2) =
            (if has flags DP_F_ZERO then (if zpadlen1 \<ge> spadlen1 then zpadlen1 else spadlen1, 0)
             else (zpadlen1, spadlen1));
          spadlen = (if has flags DP_F_MINUS then - spadlen2 else spadlen2);
          s1 = put_n p_outch CHR '' '' (nat spadlen) s;
          s2 = put_all p_outch signvalue s1;
          s3 = put_n p_outch CHR ''0'' (nat zpadlen) s2;
          s4 = put_all p_outch (rev (take place convert)) s3
      in put_n p_outch CHR '' '' (nat (- spadlen)) s4)"

section \<open>Floating point\<close>






section \<open>The format\<close>




















section \<open>The same formatter\<close>

text \<open>What the kernel's stream would hold.\<close>

definition stream :: "usink \<Rightarrow> sink" where
  "stream u = \<lparr>chars = concat (map snd (written u)), currlen = ulen u, stores = ustores u\<rparr>"

definition streaming :: "usink dopr_state \<Rightarrow> sink dopr_state" where
  "streaming d = \<lparr>dp_state = dp_state d, dp_ch = dp_ch d, dp_format = dp_format d, dp_args = dp_args d,
     dp_min = dp_min d, dp_max = dp_max d, dp_flags = dp_flags d, dp_cflags = dp_cflags d, dp_out = stream (dp_out d)\<rparr>"

definition mapR :: "('a \<Rightarrow> 'b) \<Rightarrow> 'a result \<Rightarrow> 'b result" where
  "mapR f m = bindR m (\<lambda>x. Inr (f x))"

lemma stream_outch [simp]: "stream (p_outch c u) = dopr_outch c (stream u)"
  by (simp add: stream_def p_outch_def putchar_def dopr_outch_def)

lemma stream_put_n [simp]: "stream (put_n p_outch c n u) = put_n dopr_outch c n (stream u)"
  by (induction n arbitrary: u) simp_all

lemma stream_put_all [simp]: "stream (put_all p_outch cs u) = put_all dopr_outch cs (stream u)"
  by (induction cs arbitrary: u) simp_all

lemma stream_put_while:
  "put_while dopr_outch cs cnt mx (stream u) = map_prod id stream (put_while p_outch cs cnt mx u)"
  by (induction cs arbitrary: cnt u) (simp_all flip: stream_outch)

lemma stream_fmtstr [simp]: "stream (p_fmtstr v fl mn mx u) = fmtstr v fl mn mx (stream u)"
  by (simp add: p_fmtstr_def fmtstr_def Let_def stream_put_while split_beta)

lemma stream_Let: "stream (Let e f) = Let e (\<lambda>x. stream (f x))"
  by simp

lemma stream_case: "stream (case p of (a, b) \<Rightarrow> f a b) = (case p of (a, b) \<Rightarrow> stream (f a b))"
  by (cases p) simp

lemma inline_put:
  "Let (put_n out c n s) f = f (put_n out c n s)"
  "Let (put_all out cs s) g = g (put_all out cs s)"
  "Let (if b then put_n out c n s else s') h = h (if b then put_n out c n s else s')"
  "Let (if b then put_all out cs s else s') k = k (if b then put_all out cs s else s')"
  by simp_all

lemmas stream_simps = stream_Let stream_case inline_put stream_put_n stream_put_all stream_outch

lemma stream_fmtint [simp]: "stream (p_fmtint v b mn mx fl u) = fmtint v b mn mx fl (stream u)"
  unfolding p_fmtint_def fmtint_def by (simp only: stream_simps)



lemma mapR_Inl [simp]: "mapR f (Inl e) = Inl e"
  by (simp add: mapR_def)








lemma streaming_update [simp]:
  "streaming (d\<lparr>dp_state := x1\<rparr>) = (streaming d)\<lparr>dp_state := x1\<rparr>"
  "streaming (d\<lparr>dp_ch := x2\<rparr>) = (streaming d)\<lparr>dp_ch := x2\<rparr>"
  "streaming (d\<lparr>dp_format := x3\<rparr>) = (streaming d)\<lparr>dp_format := x3\<rparr>"
  "streaming (d\<lparr>dp_args := x4\<rparr>) = (streaming d)\<lparr>dp_args := x4\<rparr>"
  "streaming (d\<lparr>dp_min := x5\<rparr>) = (streaming d)\<lparr>dp_min := x5\<rparr>"
  "streaming (d\<lparr>dp_max := x6\<rparr>) = (streaming d)\<lparr>dp_max := x6\<rparr>"
  "streaming (d\<lparr>dp_flags := x7\<rparr>) = (streaming d)\<lparr>dp_flags := x7\<rparr>"
  "streaming (d\<lparr>dp_cflags := x8\<rparr>) = (streaming d)\<lparr>dp_cflags := x8\<rparr>"
  "streaming (d\<lparr>dp_out := x9\<rparr>) = (streaming d)\<lparr>dp_out := stream x9\<rparr>"
  by (simp_all add: streaming_def)

lemma stream_store [simp]: "stream (u\<lparr>ustores := x\<rparr>) = (stream u)\<lparr>stores := x\<rparr>"
  by (simp add: stream_def)

lemma stream_fields [simp]: "currlen (stream u) = ulen u" "stores (stream u) = ustores u"
  by (simp_all add: stream_def)




















end
