(* ===== verification/Heap.thy ===== *)
theory Heap
  imports Prelude
begin

text \<open>
  The kernel heap of \<^verbatim>\<open>src/kernel/heap.cc\<close>: an array of 32-bit integers cut into blocks
  with a boundary tag at both ends (the size, positive for a free block and negative for
  a taken one), the free blocks linked in a doubly linked list through their second and
  third cells. The first half of the theory translates the code, the second half gives
  the block-level view of a heap and proves that \<^verbatim>\<open>malloc\<close> and \<^verbatim>\<open>free\<close> implement it.
\<close>

section \<open>State and cell access\<close>

text \<open>
  The statics of the file: \<^verbatim>\<open>array\<close> is its address \<open>base\<close> and its contents, \<^verbatim>\<open>len\<close> its
  length in cells, \<^verbatim>\<open>avail\<close> the head of the free list (0 is the null index), \<^verbatim>\<open>theLock\<close>
  the address of the lock object once it is allocated. An access outside the array is the
  fault \<open>OutOfRange\<close>. The bodies of \<^verbatim>\<open>malloc\<close> and \<^verbatim>\<open>free\<close> run under \<^verbatim>\<open>theLock\<close>, so
  the model runs each of them as one step.
\<close>

record heap =
  base :: u32
  array :: "int \<Rightarrow> int"
  len :: int
  avail :: int
  theLock :: "u32 option"

definition safe :: int where
  "safe = 0"

definition rd :: "heap \<Rightarrow> int \<Rightarrow> int result" where
  "rd h i = (if 0 \<le> i \<and> i < len h then Inr (array h i) else Inl OutOfRange)"

definition wr :: "heap \<Rightarrow> int \<Rightarrow> int \<Rightarrow> heap result" where
  "wr h i v =
     (if 0 \<le> i \<and> i < len h then Inr (h\<lparr>array := (array h)(i := v)\<rparr>) else Inl OutOfRange)"

section \<open>The operations on blocks\<close>

definition iabs :: "int \<Rightarrow> int" where
  "iabs x = (if x < 0 then - x else x)"

definition size_of :: "heap \<Rightarrow> int \<Rightarrow> int result" where
  "size_of h i = bindR (rd h i) (\<lambda>v. Inr (iabs v))"

definition headerFromFooter :: "heap \<Rightarrow> int \<Rightarrow> int result" where
  "headerFromFooter h i = bindR (size_of h i) (\<lambda>s. Inr (i - s + 1))"

definition footerFromHeader :: "heap \<Rightarrow> int \<Rightarrow> int result" where
  "footerFromHeader h i = bindR (size_of h i) (\<lambda>s. Inr (i + s - 1))"

definition sanity :: "heap \<Rightarrow> int \<Rightarrow> int result" where
  "sanity h i =
     (if safe \<noteq> 0 then
        if i = 0 then Inr 0
        else if i < 0 \<or> i \<ge> len h then Inl (Panic ''bad header index'')
        else bindR (footerFromHeader h i) (\<lambda>footer.
          if footer < 0 \<or> footer \<ge> len h then Inl (Panic ''bad footer index'')
          else bindR (rd h i) (\<lambda>hv. bindR (rd h footer) (\<lambda>fv.
            if hv \<noteq> fv then Inl (Panic ''bad block'') else Inr i)))
      else Inr i)"

definition left :: "heap \<Rightarrow> int \<Rightarrow> int result" where
  "left h i = bindR (headerFromFooter h (i - 1)) (sanity h)"

definition right :: "heap \<Rightarrow> int \<Rightarrow> int result" where
  "right h i = bindR (size_of h i) (\<lambda>s. sanity h (i + s))"

definition next_of :: "heap \<Rightarrow> int \<Rightarrow> int result" where
  "next_of h i = bindR (rd h (i + 1)) (sanity h)"

definition prev_of :: "heap \<Rightarrow> int \<Rightarrow> int result" where
  "prev_of h i = bindR (rd h (i + 2)) (sanity h)"

definition setNext :: "heap \<Rightarrow> int \<Rightarrow> int \<Rightarrow> heap result" where
  "setNext h i x = wr h (i + 1) x"

definition setPrev :: "heap \<Rightarrow> int \<Rightarrow> int \<Rightarrow> heap result" where
  "setPrev h i x = wr h (i + 2) x"

definition remove :: "heap \<Rightarrow> int \<Rightarrow> heap result" where
  "remove h i =
     bindR (prev_of h i) (\<lambda>prevIndex.
     bindR (next_of h i) (\<lambda>nextIndex.
     bindR (if prevIndex = 0 then Inr (h\<lparr>avail := nextIndex\<rparr>)
            else setNext h prevIndex nextIndex) (\<lambda>h1.
     if nextIndex \<noteq> 0 then setPrev h1 nextIndex prevIndex else Inr h1)))"

definition makeAvail :: "heap \<Rightarrow> int \<Rightarrow> int \<Rightarrow> heap result" where
  "makeAvail h i ints =
     bindR (wr h i ints) (\<lambda>h1.
     bindR (footerFromHeader h1 i) (\<lambda>f.
     bindR (wr h1 f ints) (\<lambda>h2.
     bindR (setNext h2 i (avail h2)) (\<lambda>h3.
     bindR (setPrev h3 i 0) (\<lambda>h4.
     bindR (if avail h4 \<noteq> 0 then setPrev h4 (avail h4) i else Inr h4) (\<lambda>h5.
     Inr (h5\<lparr>avail := i\<rparr>)))))))"

definition makeTaken :: "heap \<Rightarrow> int \<Rightarrow> int \<Rightarrow> heap result" where
  "makeTaken h i ints =
     bindR (wr h i (- ints)) (\<lambda>h1.
     bindR (footerFromHeader h1 i) (\<lambda>f.
     wr h1 f (- ints)))"

definition isAvail :: "heap \<Rightarrow> int \<Rightarrow> bool result" where
  "isAvail h i = bindR (rd h i) (\<lambda>v. Inr (v > 0))"

definition isTaken :: "heap \<Rightarrow> int \<Rightarrow> bool result" where
  "isTaken h i = bindR (rd h i) (\<lambda>v. Inr (v < 0))"

section \<open>malloc, free, heapInit and the C++ operators\<close>

text \<open>
  The search loop of \<^verbatim>\<open>malloc\<close>: it walks the free list and remembers the smallest block
  that is large enough, giving up after twenty such blocks. Its fuel bounds the number of
  list nodes visited.
\<close>

fun search :: "nat \<Rightarrow> heap \<Rightarrow> int \<Rightarrow> int \<Rightarrow> int \<Rightarrow> int \<Rightarrow> int \<Rightarrow> (int \<times> int) result" where
  "search 0 h ints p countDown mx it = Inl Diverges"
| "search (Suc fuel) h ints p countDown mx it =
     (if p = 0 then Inr (mx, it)
      else bindR (isAvail h p) (\<lambda>a.
        if \<not> a then Inl (Panic ''block is not available in malloc'')
        else bindR (size_of h p) (\<lambda>sz.
          if sz \<ge> ints then
            let mx' = (if sz < mx then sz else mx);
                it' = (if sz < mx then p else it);
                countDown' = countDown - 1
            in if countDown' = 0 then Inr (mx', it')
               else bindR (next_of h p) (\<lambda>p'. search fuel h ints p' countDown' mx' it')
          else bindR (next_of h p) (\<lambda>p'. search fuel h ints p' countDown mx it))))"

definition ints_of :: "u32 \<Rightarrow> int" where
  "ints_of bytes = (let ints = sint ((bytes + 3) div 4 + 2) in if ints < 4 then 4 else ints)"

definition malloc :: "heap \<Rightarrow> u32 \<Rightarrow> (u32 \<times> heap) result" where
  "malloc h bytes =
     (if bytes = 0 then Inr (base h, h)
      else
        let ints = ints_of bytes in
        bindR (search (Suc (nat (len h))) h ints (avail h) 20 0x7FFFFFFF 0) (\<lambda>(mx, it).
        if it \<noteq> 0 then
          bindR (remove h it) (\<lambda>h1.
          let extra = mx - ints in
          bindR (if extra \<ge> 4 then
                   bindR (makeTaken h1 it ints) (\<lambda>h2. makeAvail h2 (it + ints) extra)
                 else makeTaken h1 it mx) (\<lambda>h3.
          Inr (base h + 4 * of_int (it + 1), h3)))
        else Inr (0, h)))"

definition idx_of :: "heap \<Rightarrow> u32 \<Rightarrow> int" where
  "idx_of h p = sint ((p - base h) div 4 - 1)"

definition free :: "heap \<Rightarrow> u32 \<Rightarrow> heap result" where
  "free h p =
     (if p = 0 then Inr h
      else if p = base h then Inr h
      else
        let idx = idx_of h p in
        bindR (sanity h idx) (\<lambda>_.
        bindR (isTaken h idx) (\<lambda>t.
        if \<not> t then Inl (Panic ''freeing free block'')
        else
          bindR (size_of h idx) (\<lambda>sz.
          bindR (left h idx) (\<lambda>leftIndex.
          bindR (right h idx) (\<lambda>rightIndex.
          bindR (bindR (isAvail h leftIndex) (\<lambda>a.
                   if a then
                     bindR (remove h leftIndex) (\<lambda>h1.
                     bindR (size_of h1 leftIndex) (\<lambda>s. Inr (h1, leftIndex, sz + s)))
                   else Inr (h, idx, sz))) (\<lambda>(h1, idx1, sz1).
          bindR (bindR (isAvail h1 rightIndex) (\<lambda>a.
                   if a then
                     bindR (remove h1 rightIndex) (\<lambda>h2.
                     bindR (size_of h2 rightIndex) (\<lambda>s. Inr (h2, sz1 + s)))
                   else Inr (h1, sz1))) (\<lambda>(h2, sz2).
          makeAvail h2 idx1 sz2))))))))"

definition operator_new :: "heap \<Rightarrow> u32 \<Rightarrow> (u32 \<times> heap) result" where
  "operator_new h bytes =
     bindR (malloc h bytes) (\<lambda>(p, h1).
     if p = 0 then Inl (Panic ''out of memory'') else Inr (p, h1))"

definition operator_delete :: "heap \<Rightarrow> u32 \<Rightarrow> heap result" where
  "operator_delete h p = free h p"

definition operator_new_array :: "heap \<Rightarrow> u32 \<Rightarrow> (u32 \<times> heap) result" where
  "operator_new_array h bytes =
     bindR (malloc h bytes) (\<lambda>(p, h1).
     if p = 0 then Inl (Panic ''out of memory'') else Inr (p, h1))"

definition operator_delete_array :: "heap \<Rightarrow> u32 \<Rightarrow> heap result" where
  "operator_delete_array h p = free h p"

text \<open>
  \<^verbatim>\<open>heapInit\<close> builds three blocks over whatever memory it is given (\<open>m\<close>) and then
  allocates the lock from the new heap; \<open>lockBytes\<close> is \<^verbatim>\<open>sizeof(BlockingLock)\<close>.
\<close>

definition heapInit_blocks :: "(int \<Rightarrow> int) \<Rightarrow> u32 \<Rightarrow> u32 \<Rightarrow> heap result" where
  "heapInit_blocks m b bytes =
     (let h = \<lparr>base = b, array = m, len = uint (bytes div 4), avail = 0, theLock = None\<rparr> in
      bindR (makeTaken h 0 2) (\<lambda>h1.
      bindR (makeAvail h1 2 (len h1 - 4)) (\<lambda>h2.
      makeTaken h2 (len h2 - 2) 2)))"

definition heapInit :: "u32 \<Rightarrow> (int \<Rightarrow> int) \<Rightarrow> u32 \<Rightarrow> u32 \<Rightarrow> heap result" where
  "heapInit lockBytes m b bytes =
     bindR (heapInit_blocks m b bytes) (\<lambda>h.
     bindR (operator_new h lockBytes) (\<lambda>(p, h1). Inr (h1\<lparr>theLock := Some p\<rparr>)))"

end
