(* ===== verification/Heap_Blocks.thy ===== *)
theory Heap_Blocks
  imports Heap
begin

text \<open>
  The block-level view of a kernel heap and the lemmas that carry its proofs. A view is
  the list of the heap's blocks, each with its first cell and its signed size, in address
  order. The invariant ties a heap to a view and to the order of its free list; the
  lemmas follow the primitives of \<^verbatim>\<open>heap.cc\<close> (\<^verbatim>\<open>remove\<close>, \<^verbatim>\<open>makeAvail\<close>, \<^verbatim>\<open>makeTaken\<close>) and
  then the two operations built from them.
\<close>

section \<open>Block lists\<close>

fun tiles :: "int \<Rightarrow> int \<Rightarrow> (int \<times> int) list \<Rightarrow> bool" where
  "tiles lo hi [] \<longleftrightarrow> lo = hi"
| "tiles lo hi ((p, b) # bs) \<longleftrightarrow> p = lo \<and> 2 \<le> \<bar>b\<bar> \<and> tiles (lo + \<bar>b\<bar>) hi bs"

lemma tiles_append: "tiles lo hi (xs @ ys) \<longleftrightarrow> (\<exists>m. tiles lo m xs \<and> tiles m hi ys)"
  by (induction lo hi xs rule: tiles.induct) auto

lemma tiles_le: "tiles lo hi bs \<Longrightarrow> lo \<le> hi"
  by (induction lo hi bs rule: tiles.induct) auto

lemma tiles_mem: "tiles lo hi bs \<Longrightarrow> (p, b) \<in> set bs \<Longrightarrow> lo \<le> p \<and> 2 \<le> \<bar>b\<bar> \<and> p + \<bar>b\<bar> \<le> hi"
  by (induction lo hi bs rule: tiles.induct) (auto dest: tiles_le)

lemma tiles_disjoint:
  "tiles lo hi bs \<Longrightarrow> (p, a) \<in> set bs \<Longrightarrow> (q, b) \<in> set bs \<Longrightarrow>
   (p, a) = (q, b) \<or> p + \<bar>a\<bar> \<le> q \<or> q + \<bar>b\<bar> \<le> p"
proof (induction lo hi bs rule: tiles.induct)
  case (2 lo hi r c bs)
  then show ?case by (fastforce dest: tiles_mem)
qed simp

lemma tiles_distinct: "tiles lo hi bs \<Longrightarrow> distinct bs"
  by (induction lo hi bs rule: tiles.induct) (auto dest: tiles_mem)

definition tagged :: "(int \<Rightarrow> int) \<Rightarrow> (int \<times> int) list \<Rightarrow> bool" where
  "tagged f bs \<longleftrightarrow> list_all (\<lambda>(p, b). f p = b \<and> f (p + \<bar>b\<bar> - 1) = b) bs"

lemma tagged_simps [simp]:
  "tagged f []"
  "tagged f ((p, b) # bs) \<longleftrightarrow> f p = b \<and> f (p + \<bar>b\<bar> - 1) = b \<and> tagged f bs"
  "tagged f (xs @ ys) \<longleftrightarrow> tagged f xs \<and> tagged f ys"
  by (simp_all add: tagged_def)

lemma tagged_iff:
  "tagged f bs \<longleftrightarrow> (\<forall>p b. (p, b) \<in> set bs \<longrightarrow> f p = b \<and> f (p + \<bar>b\<bar> - 1) = b)"
  by (induction bs) auto

lemma tagged_update_outside:
  assumes "tiles lo hi bs" "c < lo \<or> hi \<le> c"
  shows "tagged (f(c := v)) bs = tagged f bs"
  using assms by (fastforce simp: tagged_iff dest: tiles_mem)

lemma tagged_update_inside:
  assumes t: "tiles lo hi bs" and m: "(p, b) \<in> set bs" and c: "p < c" "c < p + \<bar>b\<bar> - 1"
  shows "tagged (f(c := v)) bs = tagged f bs"
proof -
  have "q \<noteq> c \<and> q + \<bar>a\<bar> - 1 \<noteq> c" if "(q, a) \<in> set bs" for q a
    using tiles_disjoint [OF t m that] tiles_mem [OF t that] c by auto
  then show ?thesis by (fastforce simp: tagged_iff)
qed

section \<open>The free list\<close>

fun dseg :: "(int \<Rightarrow> int) \<Rightarrow> int \<Rightarrow> int \<Rightarrow> int list \<Rightarrow> int \<Rightarrow> bool" where
  "dseg f pr p [] q \<longleftrightarrow> p = q"
| "dseg f pr p (x # xs) q \<longleftrightarrow> p = x \<and> f (x + 2) = pr \<and> dseg f x (f (x + 1)) xs q"

lemma dseg_append:
  "dseg f pr p (xs @ ys) q \<longleftrightarrow> (\<exists>m. dseg f pr p xs m \<and> dseg f (last (pr # xs)) m ys q)"
  by (induction xs arbitrary: pr p) auto

lemma dseg_cong:
  "(\<And>x. x \<in> set xs \<Longrightarrow> g (x + 1) = f (x + 1) \<and> g (x + 2) = f (x + 2)) \<Longrightarrow>
   dseg g pr p xs q = dseg f pr p xs q"
  by (induction xs arbitrary: pr p) auto

lemma dseg_update_other [simp]:
  "\<forall>x\<in>set xs. c \<noteq> x + 1 \<and> c \<noteq> x + 2 \<Longrightarrow> dseg (f(c := v)) pr p xs q = dseg f pr p xs q"
  by (rule dseg_cong) auto

definition spaced :: "int list \<Rightarrow> bool" where
  "spaced xs \<longleftrightarrow> distinct xs \<and> (\<forall>x\<in>set xs. \<forall>y\<in>set xs. x \<noteq> y \<longrightarrow> x + 4 \<le> y \<or> y + 4 \<le> x)"

definition unlinked :: "(int \<Rightarrow> int) \<Rightarrow> int \<Rightarrow> int \<Rightarrow> (int \<Rightarrow> int) \<times> int" where
  "unlinked f av i =
     (let pr = f (i + 2); nx = f (i + 1);
          f1 = (if pr = 0 then f else f(pr + 1 := nx));
          f2 = (if nx = 0 then f1 else f1(nx + 2 := pr))
      in (f2, if pr = 0 then nx else av))"

lemma dseg_links:
  assumes "dseg f 0 p (xs @ i # ys) 0"
  shows "f (i + 2) = last (0 # xs)" "f (i + 1) = (if ys = [] then 0 else hd ys)"
proof -
  from assms show "f (i + 2) = last (0 # xs)" by (auto simp: dseg_append)
  from assms show "f (i + 1) = (if ys = [] then 0 else hd ys)"
    by (cases ys) (auto simp: dseg_append)
qed

lemma spacedD:
  "spaced xs \<Longrightarrow> x \<in> set xs \<Longrightarrow> y \<in> set xs \<Longrightarrow> x \<noteq> y \<Longrightarrow> x + 4 \<le> y \<or> y + 4 \<le> x"
  unfolding spaced_def by blast

lemma dseg_unlinked:
  assumes d: "dseg f 0 av (xs @ i # ys) 0" and s: "spaced (xs @ i # ys)" and z: "0 \<notin> set (xs @ i # ys)"
    and u: "unlinked f av i = (f', av')"
  shows "dseg f' 0 av' (xs @ ys) 0"
proof -
  note links = dseg_links [OF d]
  have dist: "distinct (xs @ i # ys)" using s by (simp add: spaced_def)
  note sp = spacedD [OF s]
  have keep: "\<forall>x\<in>set zs. c \<noteq> x + 1 \<and> c \<noteq> x + 2"
    if "set zs \<subseteq> set (xs @ i # ys)" "w \<in> set (xs @ i # ys) - set zs" "c = w + 1 \<or> c = w + 2" for zs w c
  proof
    fix x assume "x \<in> set zs"
    with that have "x \<in> set (xs @ i # ys)" "w \<in> set (xs @ i # ys)" "x \<noteq> w" by auto
    then have "x + 4 \<le> w \<or> w + 4 \<le> x" by (rule sp)
    with that(3) show "c \<noteq> x + 1 \<and> c \<noteq> x + 2" by auto
  qed
  show ?thesis
  proof (cases xs rule: rev_cases)
    case Nil
    show ?thesis
    proof (cases ys)
      case Nil
      with \<open>xs = []\<close> d u links show ?thesis by (auto simp: unlinked_def)
    next
      case (Cons y ys')
      have "\<forall>x\<in>set ys'. y + 2 \<noteq> x + 1 \<and> y + 2 \<noteq> x + 2"
        using keep [of ys' y "y + 2"] dist Cons by auto
      with \<open>xs = []\<close> Cons d u links z show ?thesis
        by (auto simp: unlinked_def Let_def)
    qed
  next
    case (snoc xs' w)
    have w: "\<forall>x\<in>set xs'. w + 1 \<noteq> x + 1 \<and> w + 1 \<noteq> x + 2"
      using keep [of xs' w "w + 1"] dist snoc by auto
    show ?thesis
    proof (cases ys)
      case Nil
      with w snoc d u links z show ?thesis
        by (auto simp: unlinked_def Let_def dseg_append)
    next
      case (Cons y ys')
      define g where "g = f(w + 1 := y, y + 2 := w)"
      have fu: "f' = g" "av' = av" using u links snoc Cons z by (auto simp: unlinked_def Let_def g_def)
      have wy: "w + 4 \<le> y \<or> y + 4 \<le> w" using sp [of w y] snoc Cons dist by auto
      have "\<forall>x\<in>set ys'. w + 1 \<noteq> x + 1 \<and> w + 1 \<noteq> x + 2"
        "\<forall>x\<in>set xs'. y + 2 \<noteq> x + 1 \<and> y + 2 \<noteq> x + 2" "\<forall>x\<in>set ys'. y + 2 \<noteq> x + 1 \<and> y + 2 \<noteq> x + 2"
        using keep [of ys' w "w + 1"] keep [of xs' y "y + 2"] keep [of ys' y "y + 2"] dist snoc Cons by auto
      with w have same: "dseg g pr p xs' q = dseg f pr p xs' q" "dseg g pr p ys' q = dseg f pr p ys' q" for pr p q
        by (simp_all add: g_def)
      have "g (w + 1) = y" "g (w + 2) = f (w + 2)" "g (y + 1) = f (y + 1)" "g (y + 2) = w"
        using wy by (auto simp: g_def)
      with same fu snoc Cons d links show ?thesis by (auto simp: dseg_append)
    qed
  qed
qed

definition pushed :: "(int \<Rightarrow> int) \<Rightarrow> int \<Rightarrow> int \<Rightarrow> int \<Rightarrow> int" where
  "pushed f av i =
     (let f1 = f(i + 1 := av, i + 2 := 0) in if av = 0 then f1 else f1(av + 2 := i))"

lemma dseg_pushed:
  assumes d: "dseg f 0 av xs 0" and s: "spaced (i # xs)" and z: "0 \<notin> set xs"
  shows "dseg (pushed f av i) 0 i (i # xs) 0"
proof (cases xs)
  case Nil
  with d show ?thesis by (auto simp: pushed_def)
next
  case (Cons y ys)
  define g where "g = f(i + 1 := y, i + 2 := 0, y + 2 := i)"
  have dist: "distinct (i # xs)" using s by (simp add: spaced_def)
  have "g (x + 1) = f (x + 1) \<and> g (x + 2) = f (x + 2)" if "x \<in> set ys" for x
    using spacedD [OF s, of x i] spacedD [OF s, of x y] that Cons dist by (auto simp: g_def)
  then have "dseg g pr p ys q = dseg f pr p ys q" for pr p q
    by (rule dseg_cong)
  moreover have "i + 4 \<le> y \<or> y + 4 \<le> i"
    using spacedD [OF s, of i y] Cons dist by auto
  then have "g (i + 1) = y" "g (i + 2) = 0" "g (y + 1) = f (y + 1)" "g (y + 2) = i"
    by (auto simp: g_def)
  moreover have "pushed f av i = g" using d Cons z by (auto simp: pushed_def g_def)
  ultimately show ?thesis using d Cons by auto
qed

section \<open>The operations as updates of the array\<close>

lemma rd_in [array_simps]: "0 \<le> i \<Longrightarrow> i < len h \<Longrightarrow> rd h i = Inr (array h i)"
  by (simp add: rd_def)

lemma wr_in [array_simps]:
  "0 \<le> i \<Longrightarrow> i < len h \<Longrightarrow> wr h i v = Inr (h\<lparr>array := (array h)(i := v)\<rparr>)"
  by (simp add: wr_def)

lemma iabs_eq [simp]: "iabs x = \<bar>x\<bar>"
  by (simp add: iabs_def)

lemma sanity_eq [simp]: "sanity h i = Inr i"
  by (simp add: sanity_def safe_def)

lemma size_of_in [array_simps]: "0 \<le> i \<Longrightarrow> i < len h \<Longrightarrow> size_of h i = Inr \<bar>array h i\<bar>"
  by (simp add: size_of_def array_simps)

lemma makeTaken_eq:
  assumes "2 \<le> n" "0 \<le> i" "i + n \<le> len h"
  shows "makeTaken h i n = Inr (h\<lparr>array := (array h)(i := - n, i + n - 1 := - n)\<rparr>)"
  using assms by (simp add: makeTaken_def footerFromHeader_def array_simps)

lemma remove_eq:
  assumes u: "unlinked (array h) (avail h) i = (f', av')"
    and r: "0 \<le> i" "i + 2 < len h"
    and p: "0 \<le> array h (i + 2)" "array h (i + 2) + 2 < len h"
    and n: "0 \<le> array h (i + 1)" "array h (i + 1) + 2 < len h"
  shows "remove h i = Inr (h\<lparr>array := f', avail := av'\<rparr>)"
proof -
  have "prev_of h i = Inr (array h (i + 2))" "next_of h i = Inr (array h (i + 1))"
    using r by (simp_all add: prev_of_def next_of_def array_simps)
  with u p n show ?thesis
    by (auto simp: remove_def unlinked_def Let_def setNext_def setPrev_def array_simps
        split: if_splits)
qed

lemma makeAvail_eq:
  assumes "4 \<le> n" "0 \<le> i" "i + n \<le> len h" "0 \<le> avail h" "avail h + 2 < len h"
  shows "makeAvail h i n =
    Inr (h\<lparr>array := pushed ((array h)(i := n, i + n - 1 := n)) (avail h) i, avail := i\<rparr>)"
  using assms
  by (simp add: makeAvail_def footerFromHeader_def setNext_def setPrev_def pushed_def array_simps)

section \<open>The heap invariant\<close>

definition core :: "int \<Rightarrow> (int \<Rightarrow> int) \<Rightarrow> int \<Rightarrow> (int \<times> int) list \<Rightarrow> int list \<Rightarrow> bool" where
  "core L f av bs fl \<longleftrightarrow>
     tiles 0 L bs \<and> tagged f bs \<and> dseg f 0 av fl 0 \<and> distinct fl \<and>
     (0, - 2) \<in> set bs \<and> (\<forall>p\<in>set fl. \<exists>b. (p, b) \<in> set bs \<and> 4 \<le> b)"

lemma tiles_unique:
  "tiles lo hi bs \<Longrightarrow> (p, a) \<in> set bs \<Longrightarrow> (p, b) \<in> set bs \<Longrightarrow> a = b"
  using tiles_disjoint [of lo hi bs p a p b] tiles_mem [of lo hi bs p] by fastforce

lemma core_freeD:
  assumes "core L f av bs fl" "p \<in> set fl"
  shows "\<exists>b. (p, b) \<in> set bs \<and> 4 \<le> b \<and> 2 \<le> p \<and> p + b \<le> L"
proof -
  from assms obtain b where b: "(p, b) \<in> set bs" "4 \<le> b" and t: "tiles 0 L bs" "(0, -2) \<in> set bs"
    unfolding core_def by blast
  from tiles_disjoint [OF t(1) t(2) b(1)] tiles_mem [OF t(1) b(1)] b show ?thesis by auto
qed

lemma core_spaced:
  assumes "core L f av bs fl" shows "spaced fl"
proof -
  from assms have t: "tiles 0 L bs" and d: "distinct fl" by (auto simp: core_def)
  have "x + 4 \<le> y \<or> y + 4 \<le> x" if xy: "x \<in> set fl" "y \<in> set fl" "x \<noteq> y" for x y
  proof -
    from core_freeD [OF assms xy(1)] obtain a where a: "(x, a) \<in> set bs" "4 \<le> a" by blast
    from core_freeD [OF assms xy(2)] obtain b where b: "(y, b) \<in> set bs" "4 \<le> b" by blast
    from tiles_disjoint [OF t a(1) b(1)] xy(3) a(2) b(2) show ?thesis by auto
  qed
  with d show ?thesis by (simp add: spaced_def)
qed

lemma core_spaced_Cons:
  assumes c: "core L f av bs fl" and i: "(i, n) \<in> set bs" "4 \<le> n" "i \<notin> set fl"
  shows "spaced (i # fl)"
proof -
  from c have t: "tiles 0 L bs" by (simp add: core_def)
  have "i + 4 \<le> y \<or> y + 4 \<le> i" if y: "y \<in> set fl" for y
  proof -
    from core_freeD [OF c y] obtain b where b: "(y, b) \<in> set bs" "4 \<le> b" by blast
    from tiles_disjoint [OF t i(1) b(1)] i y b(2) show ?thesis by auto
  qed
  with core_spaced [OF c] i(3) show ?thesis unfolding spaced_def by auto
qed

lemma core_no_null: "core L f av bs fl \<Longrightarrow> 0 \<notin> set fl"
  using core_freeD by fastforce

lemma core_avail: "core L f av bs fl \<Longrightarrow> av = (if fl = [] then 0 else hd fl)"
  by (cases fl) (auto simp: core_def)

lemma core_avail_range:
  assumes "core L f av bs fl" shows "0 \<le> av \<and> av + 2 \<le> L \<and> (fl \<noteq> [] \<longrightarrow> av + 4 \<le> L)"
proof (cases fl)
  case Nil
  from assms have "tiles 0 L bs" "(0, -2) \<in> set bs" by (auto simp: core_def)
  from tiles_mem [OF this] have "2 \<le> L" by simp
  with Nil core_avail [OF assms] show ?thesis by simp
next
  case (Cons x xs)
  with core_freeD [OF assms, of x] core_avail [OF assms] show ?thesis by auto
qed

text \<open>Writing the link cells of a free block keeps every tag.\<close>

lemma tagged_next_update:
  assumes "core L f av bs fl" "x \<in> set fl"
  shows "tagged (g(x + 1 := v)) bs = tagged g bs"
proof -
  from core_freeD [OF assms] obtain b where b: "(x, b) \<in> set bs" "4 \<le> b" by blast
  from assms(1) have "tiles 0 L bs" by (simp add: core_def)
  from tagged_update_inside [OF this b(1), of "x + 1"] b(2) show ?thesis by simp
qed

lemma tagged_prev_update:
  assumes "core L f av bs fl" "x \<in> set fl"
  shows "tagged (g(x + 2 := v)) bs = tagged g bs"
proof -
  from core_freeD [OF assms] obtain b where b: "(x, b) \<in> set bs" "4 \<le> b" by blast
  from assms(1) have "tiles 0 L bs" by (simp add: core_def)
  from tagged_update_inside [OF this b(1), of "x + 2"] b(2) show ?thesis by simp
qed

lemma core_links:
  assumes c: "core L f av bs (xs @ i # ys)"
  shows "f (i + 2) = last (0 # xs)" "f (i + 1) = (if ys = [] then 0 else hd ys)"
proof -
  from c have "dseg f 0 av (xs @ i # ys) 0" by (simp add: core_def)
  from dseg_links [OF this]
  show "f (i + 2) = last (0 # xs)" "f (i + 1) = (if ys = [] then 0 else hd ys)" by blast+
qed

lemma core_link_cases:
  assumes c: "core L f av bs (xs @ i # ys)"
  shows "f (i + 2) = 0 \<or> f (i + 2) \<in> set (xs @ ys)" "f (i + 1) = 0 \<or> f (i + 1) \<in> set (xs @ ys)"
  using core_links [OF c] by (auto split: if_splits)

lemma core_unlinked:
  assumes c: "core L f av bs (xs @ i # ys)" and u: "unlinked f av i = (f', av')"
  shows "core L f' av' bs (xs @ ys)"
proof -
  have d: "dseg f 0 av (xs @ i # ys) 0" and t: "tagged f bs" using c by (simp_all add: core_def)
  have "dseg f' 0 av' (xs @ ys) 0"
    using dseg_unlinked [OF d core_spaced [OF c] core_no_null [OF c] u] .
  moreover have "tagged f' bs"
    using core_link_cases [OF c] t u
    by (auto simp: unlinked_def Let_def tagged_next_update [OF c] tagged_prev_update [OF c] split: if_splits)
  ultimately show ?thesis using c by (auto simp: core_def)
qed

lemma core_pushed:
  assumes c: "core L f av bs fl" and i: "(i, n) \<in> set bs" "4 \<le> n" "i \<notin> set fl"
  shows "core L (pushed f av i) i bs (i # fl)"
proof -
  from c have t: "tiles 0 L bs" and tg: "tagged f bs" and d: "dseg f 0 av fl 0" by (simp_all add: core_def)
  have "tagged (pushed f av i) bs"
  proof -
    have 1: "tagged (g(i + 1 := v)) bs = tagged g bs" "tagged (g(i + 2 := v)) bs = tagged g bs" for g v
      using tagged_update_inside [OF t i(1), of "i + 1" g v] tagged_update_inside [OF t i(1), of "i + 2" g v] i(2)
      by simp_all
    have "av = 0 \<or> av \<in> set fl" using core_avail [OF c] by (cases fl) auto
    then show ?thesis using tg by (auto simp: pushed_def Let_def 1 tagged_prev_update [OF c])
  qed
  moreover have "dseg (pushed f av i) 0 i (i # fl) 0"
    by (rule dseg_pushed [OF d core_spaced_Cons [OF c i] core_no_null [OF c]])
  ultimately show ?thesis using c i by (auto simp: core_def)
qed

text \<open>
  Cutting a stretch of blocks differently: the new blocks cover the same cells, carry
  their own tags, and no cell outside the stretch has changed.
\<close>

lemma tagged_outside:
  "tiles lo hi bs \<Longrightarrow> (\<And>k. lo \<le> k \<Longrightarrow> k < hi \<Longrightarrow> f' k = f k) \<Longrightarrow> tagged f' bs = tagged f bs"
proof -
  assume t: "tiles lo hi bs" and same: "\<And>k. lo \<le> k \<Longrightarrow> k < hi \<Longrightarrow> f' k = f k"
  have "f' p = f p \<and> f' (p + \<bar>b\<bar> - 1) = f (p + \<bar>b\<bar> - 1)" if "(p, b) \<in> set bs" for p b
    using tiles_mem [OF t that] by (intro conjI same) auto
  then show ?thesis by (auto simp: tagged_iff)
qed

lemma core_replace:
  assumes c: "core L f av (l @ mid @ r) fl"
    and t: "tiles 0 lo l" "tiles lo hi mid" "tiles hi L r" and m': "tiles lo hi mid'" and tg: "tagged f' mid'"
    and same: "\<And>k. k < lo \<or> hi \<le> k \<Longrightarrow> f' k = f k"
    and nofree: "\<And>p b. (p, b) \<in> set mid \<Longrightarrow> p \<notin> set fl"
    and z: "(0, -2) \<in> set (l @ r)"
  shows "core L f' av (l @ mid' @ r) fl"
proof -
  from c have tag: "tagged f (l @ mid @ r)" and d: "dseg f 0 av fl 0" and di: "distinct fl"
    and free: "\<forall>p\<in>set fl. \<exists>b. (p, b) \<in> set (l @ mid @ r) \<and> 4 \<le> b"
    by (simp_all add: core_def)
  have "tiles 0 L (l @ mid' @ r)" using t m' by (auto simp: tiles_append)
  moreover have "tagged f' (l @ mid' @ r)"
    using tag tg tagged_outside [OF t(1), of f' f] tagged_outside [OF t(3), of f' f] same by simp
  moreover have free': "\<exists>b. (p, b) \<in> set (l @ r) \<and> 4 \<le> b" if "p \<in> set fl" for p
    using free nofree that by fastforce
  moreover have "dseg f' 0 av fl 0"
  proof -
    have "f' (x + 1) = f (x + 1) \<and> f' (x + 2) = f (x + 2)" if x: "x \<in> set fl" for x
    proof -
      from free' [OF x] obtain b where b: "(x, b) \<in> set l \<or> (x, b) \<in> set r" "4 \<le> b" by auto
      then have "x + b \<le> lo \<or> hi \<le> x"
        using tiles_mem [OF t(1), of x b] tiles_mem [OF t(3), of x b] by auto
      with b(2) same show ?thesis by auto
    qed
    from dseg_cong [of fl f' f, OF this] d show ?thesis by simp
  qed
  ultimately show ?thesis using z di by (auto simp: core_def)
qed

section \<open>The invariant of a whole heap\<close>

definition avail_of :: "(int \<times> int) list \<Rightarrow> int set" where
  "avail_of bs = {p. \<exists>b. (p, b) \<in> set bs \<and> 0 < b}"

definition separated :: "(int \<times> int) list \<Rightarrow> bool" where
  "separated bs \<longleftrightarrow> successively (\<lambda>x y. \<not> (0 < snd x \<and> 0 < snd y)) bs"

definition sizes_ok :: "int \<Rightarrow> (int \<times> int) list \<Rightarrow> bool" where
  "sizes_ok L bs \<longleftrightarrow> (0, -2) \<in> set bs \<and> (L - 2, -2) \<in> set bs \<and>
     list_all (\<lambda>(p, b). p = 0 \<or> p = L - 2 \<or> 4 \<le> \<bar>b\<bar>) bs"

definition heap_inv :: "heap \<Rightarrow> (int \<times> int) list \<Rightarrow> int list \<Rightarrow> bool" where
  "heap_inv h bs fl \<longleftrightarrow>
     core (len h) (array h) (avail h) bs fl \<and> set fl = avail_of bs \<and>
     sizes_ok (len h) bs \<and> separated bs \<and> len h \<le> 2 ^ 29"

fun alloc_at :: "int \<Rightarrow> int \<Rightarrow> (int \<times> int) list \<Rightarrow> (int \<times> int) list" where
  "alloc_at it n [] = []"
| "alloc_at it n ((p, b) # bs) =
     (if p = it then
        (if b - n \<ge> 4 then (p, - n) # (p + n, b - n) # bs else (p, - b) # bs)
      else (p, b) # alloc_at it n bs)"

fun release :: "int \<Rightarrow> (int \<times> int) list \<Rightarrow> (int \<times> int) list" where
  "release i [] = []"
| "release i ((p, b) # bs) = (if p = i then (p, - b) # bs else (p, b) # release i bs)"

fun coalesce :: "(int \<times> int) list \<Rightarrow> (int \<times> int) list" where
  "coalesce [] = []"
| "coalesce [x] = [x]"
| "coalesce ((p, a) # (q, b) # bs) =
     (if 0 < a \<and> 0 < b then coalesce ((p, a + b) # bs) else (p, a) # coalesce ((q, b) # bs))"

section \<open>Block lists: facts about the view\<close>

lemma avail_of_simps [simp]:
  "avail_of [] = {}"
  "avail_of ((p, b) # bs) = (if 0 < b then insert p (avail_of bs) else avail_of bs)"
  "avail_of (xs @ ys) = avail_of xs \<union> avail_of ys"
  by (auto simp: avail_of_def)

lemma avail_of_outside:
  "tiles lo hi bs \<Longrightarrow> k < lo \<or> hi \<le> k \<Longrightarrow> k \<notin> avail_of bs"
  by (auto simp: avail_of_def dest: tiles_mem)

lemma alloc_at_split:
  "tiles lo it l \<Longrightarrow> alloc_at it n (l @ (it, b) # r) =
     l @ (if b - n \<ge> 4 then [(it, - n), (it + n, b - n)] else [(it, - b)]) @ r"
  by (induction lo it l rule: tiles.induct) (auto dest: tiles_le)

lemma release_split:
  "tiles lo i l \<Longrightarrow> release i (l @ (i, b) # r) = l @ (i, - b) # r"
  by (induction lo i l rule: tiles.induct) (auto dest: tiles_le)

lemma heap_invD:
  assumes "heap_inv h bs fl"
  shows "core (len h) (array h) (avail h) bs fl" "set fl = avail_of bs"
    "sizes_ok (len h) bs" "separated bs" "len h \<le> 2 ^ 29" "tiles 0 (len h) bs" "tagged (array h) bs"
  using assms by (auto simp: heap_inv_def core_def)

text \<open>A block of the view splits the block list, with the cells on each side tiled.\<close>

lemma tiles_split_mem:
  assumes "tiles lo hi bs" "(p, b) \<in> set bs"
  obtains l r where "bs = l @ (p, b) # r" "tiles lo p l" "tiles (p + \<bar>b\<bar>) hi r"
proof -
  from assms(2) obtain l r where bs: "bs = l @ (p, b) # r" by (auto dest: split_list)
  with assms(1) have "tiles lo p l" "tiles (p + \<bar>b\<bar>) hi r" by (auto simp: tiles_append)
  with bs that show ?thesis by blast
qed

definition outside_free :: "(int \<times> int) list \<Rightarrow> int \<Rightarrow> bool" where
  "outside_free bs k \<longleftrightarrow> list_all (\<lambda>(p, b). 0 < b \<longrightarrow> k < p \<or> p + b \<le> k) bs"

lemma outside_freeD: "outside_free bs k \<Longrightarrow> (p, b) \<in> set bs \<Longrightarrow> 0 < b \<Longrightarrow> k < p \<or> p + b \<le> k"
  by (auto simp: outside_free_def list_all_iff)

lemma outside_free_links:
  assumes "core L f av bs fl" "outside_free bs k" "x \<in> set fl"
  shows "k \<noteq> x + 1 \<and> k \<noteq> x + 2"
proof -
  from core_freeD [OF assms(1,3)] obtain b where "(x, b) \<in> set bs" "4 \<le> b" by blast
  with outside_freeD [OF assms(2)] show ?thesis by force
qed

lemma unlinked_frame:
  assumes c: "core L f av bs (xs @ i # ys)" and u: "unlinked f av i = (f', av')" and k: "outside_free bs k"
  shows "f' k = f k"
proof -
  have "k \<noteq> f (i + 2) + 1" if "f (i + 2) \<noteq> 0"
    using core_link_cases(1) [OF c] outside_free_links [OF c k, of "f (i + 2)"] that by auto
  moreover have "k \<noteq> f (i + 1) + 2" if "f (i + 1) \<noteq> 0"
    using core_link_cases(2) [OF c] outside_free_links [OF c k, of "f (i + 1)"] that by auto
  ultimately show ?thesis using u by (auto simp: unlinked_def Let_def split: if_splits)
qed

lemma pushed_frame:
  assumes c: "core L f av bs fl" and k: "outside_free bs k" and i: "(i, n) \<in> set bs" "4 \<le> n"
  shows "pushed f av i k = f k"
proof -
  have "k \<noteq> i + 1 \<and> k \<noteq> i + 2" using outside_freeD [OF k i(1)] i(2) by auto
  moreover have "av \<noteq> 0 \<Longrightarrow> k \<noteq> av + 2"
    using core_avail [OF c] outside_free_links [OF c k, of av] by (cases fl) auto
  ultimately show ?thesis by (auto simp: pushed_def Let_def)
qed

section \<open>Removing a block from the free list\<close>

lemma remove_core:
  assumes c: "core (len h) (array h) (avail h) bs fl" and i: "i \<in> set fl"
  obtains h1 where "remove h i = Inr h1"
    "core (len h) (array h1) (avail h1) bs (remove1 i fl)" "h1 = h\<lparr>array := array h1, avail := avail h1\<rparr>"
    "\<And>k. outside_free bs k \<Longrightarrow> array h1 k = array h k"
proof -
  from i obtain xs ys where fl: "fl = xs @ i # ys" and nx: "i \<notin> set xs" by (auto dest: split_list_first)
  have c': "core (len h) (array h) (avail h) bs (xs @ i # ys)" using c fl by simp
  obtain f' av' where u: "unlinked (array h) (avail h) i = (f', av')" by fastforce
  from core_freeD [OF c i] have ri: "0 \<le> i" "i + 2 < len h" by auto
  have link: "0 \<le> x \<and> x + 2 < len h" if "x = 0 \<or> x \<in> set (xs @ ys)" for x
    using that core_freeD [OF c', of x] ri by auto
  have "remove h i = Inr (h\<lparr>array := f', avail := av'\<rparr>)"
    using remove_eq [OF u ri] link core_link_cases [OF c'] by blast
  moreover have "core (len h) f' av' bs (remove1 i fl)"
    using core_unlinked [OF c' u] fl nx by (simp add: remove1_append)
  moreover have "\<And>k. outside_free bs k \<Longrightarrow> f' k = array h k"
    by (rule unlinked_frame [OF c' u])
  ultimately show ?thesis using that [of "h\<lparr>array := f', avail := av'\<rparr>"] by simp
qed

lemma core_avail_next:
  assumes "core L f av bs fl" "4 \<le> L" shows "0 \<le> av" "av + 2 < L"
  using core_avail_range [OF assms(1)] core_avail [OF assms(1)] assms(2) by (cases fl; auto)+

section \<open>The search loop\<close>

definition candidates :: "(int \<Rightarrow> int) \<Rightarrow> int \<Rightarrow> int list \<Rightarrow> int list" where
  "candidates f n fl = take 20 (filter (\<lambda>p. n \<le> f p) fl)"

definition better :: "(int \<Rightarrow> int) \<Rightarrow> int \<times> int \<Rightarrow> int \<Rightarrow> int \<times> int" where
  "better f = (\<lambda>(mx, it) p. if f p < mx then (f p, p) else (mx, it))"

lemma search_eq:
  assumes "dseg (array h) pr p ys 0" "length ys < fuel" "0 < cd"
    "\<forall>y\<in>set ys. 0 < y \<and> y + 1 < len h \<and> 0 < array h y"
  shows "search fuel h n p cd mx it =
    Inr (foldl (better (array h)) (mx, it) (take (nat cd) (filter (\<lambda>p. n \<le> array h p) ys)))"
  using assms
proof (induction ys arbitrary: fuel pr p cd mx it)
  case Nil
  then show ?case by (cases fuel) auto
next
  case (Cons y ys)
  from Cons.prems obtain fuel' where fuel: "fuel = Suc fuel'" by (cases fuel) auto
  let ?f = "array h"
  from Cons.prems have y: "p = y" "0 < y" "y + 1 < len h" "0 < ?f y"
    and d: "dseg ?f y (?f (y + 1)) ys 0" and l: "length ys < fuel'"
    and r: "\<forall>y\<in>set ys. 0 < y \<and> y + 1 < len h \<and> 0 < ?f y" using fuel by auto
  have step: "isAvail h y = Inr True" "size_of h y = Inr (?f y)" "next_of h y = Inr (?f (y + 1))"
    using y by (simp_all add: isAvail_def next_of_def array_simps)
  note IH = Cons.IH [OF d l _ r]
  show ?case
  proof (cases "n \<le> ?f y")
    case False
    then show ?thesis using fuel y step IH Cons.prems(3) by simp
  next
    case True
    obtain k where k: "nat cd = Suc k" using Cons.prems(3) by (cases "nat cd") auto
    show ?thesis
    proof (cases "cd = 1")
      case True
      with \<open>n \<le> ?f y\<close> fuel y step k show ?thesis by (auto simp: better_def)
    next
      case False
      then have "0 < cd - 1" "nat (cd - 1) = k" using Cons.prems(3) k by auto
      with \<open>n \<le> ?f y\<close> fuel y step k False IH [of "cd - 1"] show ?thesis
        by (simp add: better_def Let_def)
    qed
  qed
qed

lemma better_fold:
  assumes "foldl (better f) (mx, it) cs = (mx', it')"
  shows "(mx', it') = (mx, it) \<and> (\<forall>c\<in>set cs. mx \<le> f c) \<or>
    it' \<in> set cs \<and> mx' = f it' \<and> mx' < mx \<and> (\<forall>c\<in>set cs. mx' \<le> f c)"
  using assms
proof (induction cs arbitrary: mx it)
  case (Cons c cs)
  show ?case
  proof (cases "f c < mx")
    case True
    with Cons.prems have "foldl (better f) (f c, c) cs = (mx', it')" by (simp add: better_def)
    from Cons.IH [OF this] True show ?thesis by auto
  next
    case False
    with Cons.prems have "foldl (better f) (mx, it) cs = (mx', it')" by (simp add: better_def)
    from Cons.IH [OF this] False show ?thesis by auto
  qed
qed simp

section \<open>malloc\<close>

declare search.simps(2) [simp del]

lemma separated_append:
  "separated (xs @ ys) \<longleftrightarrow> separated xs \<and> separated ys \<and>
     (xs = [] \<or> ys = [] \<or> \<not> (0 < snd (last xs) \<and> 0 < snd (hd ys)))"
  by (auto simp: separated_def successively_append_iff)

lemma separated_Cons [simp]:
  "separated []" "separated [x]"
  "separated (x # y # zs) \<longleftrightarrow> \<not> (0 < snd x \<and> 0 < snd y) \<and> separated (y # zs)"
  by (auto simp: separated_def)

lemma separated_alloc:
  assumes "separated (l @ (it, b) # r)" "0 < b" "4 \<le> n" "n \<le> b"
  shows "separated (l @ (if b - n \<ge> 4 then [(it, - n), (it + n, b - n)] else [(it, - b)]) @ r)"
  using assms by (cases r) (auto simp: separated_append)

lemma heap_inv_free:
  assumes "heap_inv h bs fl" "p \<in> set fl"
  shows "(p, array h p) \<in> set bs \<and> 4 \<le> array h p \<and> 2 \<le> p \<and> p + array h p \<le> len h"
proof -
  note I = heap_invD [OF assms(1)]
  from core_freeD [OF I(1) assms(2)] obtain b where b: "(p, b) \<in> set bs" "4 \<le> b" "2 \<le> p" "p + b \<le> len h"
    by blast
  moreover from I(7) b(1) have "array h p = b" by (auto simp: tagged_iff)
  ultimately show ?thesis by blast
qed

definition take_block :: "heap \<Rightarrow> int \<Rightarrow> int \<Rightarrow> int \<Rightarrow> heap result" where
  "take_block h it ints mx =
     bindR (remove h it) (\<lambda>h1.
       if mx - ints \<ge> 4 then bindR (makeTaken h1 it ints) (\<lambda>h2. makeAvail h2 (it + ints) (mx - ints))
       else makeTaken h1 it mx)"

definition same_place :: "heap \<Rightarrow> heap \<Rightarrow> bool" where
  "same_place h h' \<longleftrightarrow> base h' = base h \<and> len h' = len h \<and> theLock h' = theLock h"

lemma take_block_cells:
  assumes I: "heap_inv h bs fl" and it: "it \<in> set fl" "(it, b) \<in> set bs" and n: "4 \<le> n" "n \<le> b"
  obtains h' where "take_block h it n b = Inr h'" "same_place h h'"
    "core (len h) (array h') (avail h') (alloc_at it n bs)
       ((if b - n \<ge> 4 then [it + n] else []) @ remove1 it fl)"
    "\<And>k. outside_free bs k \<Longrightarrow> array h' k = array h k"
proof -
  note c = heap_invD [OF I]
  from remove_core [OF c(1) it(1)] obtain h1 where h1: "remove h it = Inr h1"
    "core (len h) (array h1) (avail h1) bs (remove1 it fl)" "h1 = h\<lparr>array := array h1, avail := avail h1\<rparr>"
    "\<And>k. outside_free bs k \<Longrightarrow> array h1 k = array h k" by blast
  have len1: "len h1 = len h" "base h1 = base h" "theLock h1 = theLock h"
    using h1(3) by (metis heap.select_convs heap.surjective heap.update_convs(2,4))+
  from tiles_split_mem [OF c(6) it(2)] obtain l r where bs: "bs = l @ (it, b) # r"
    and t: "tiles 0 it l" "tiles (it + b) (len h) r" using n by auto
  have rng: "2 \<le> it" "it + b \<le> len h" using core_freeD [OF c(1) it(1)] tiles_mem [OF c(6) it(2)] n by auto
  have z: "(0, -2) \<in> set (l @ r)" using c(1) bs rng n by (auto simp: core_def)
  have cb: "core (len h) (array h1) (avail h1) (l @ [(it, b)] @ r) (remove1 it fl)" using h1(2) bs by simp
  have fl1: "p \<noteq> it" if "p \<in> set (remove1 it fl)" for p using that c(1) by (auto simp: core_def)
  have out: "k < it \<or> it + b \<le> k" if "outside_free bs k" for k
    using outside_freeD [OF that it(2)] n by auto
  show ?thesis
  proof (cases "b - n \<ge> 4")
    case False
    define f' where "f' = (array h1)(it := - b, it + b - 1 := - b)"
    have "take_block h it n b = Inr (h1\<lparr>array := f'\<rparr>)"
      using False n rng h1(1) len1 by (simp add: take_block_def makeTaken_eq f'_def)
    moreover have "core (len h) f' (avail h1) (l @ [(it, - b)] @ r) (remove1 it fl)"
      by (rule core_replace [OF cb t(1) _ t(2)]) (use n z fl1 in \<open>auto simp: f'_def\<close>)
    moreover have "alloc_at it n bs = l @ [(it, - b)] @ r" using alloc_at_split [OF t(1)] bs False by auto
    moreover have "f' k = array h k" if "outside_free bs k" for k
      using out [OF that] h1(4) [OF that] n by (auto simp: f'_def)
    ultimately show ?thesis using that [of "h1\<lparr>array := f'\<rparr>"] False len1 by (simp add: same_place_def)
  next
    case True
    define e where "e = b - n"
    define f2 where "f2 = (array h1)(it := - n, it + n - 1 := - n)"
    define f3 where "f3 = f2(it + n := e, it + n + e - 1 := e)"
    define f' where "f' = pushed f3 (avail h1) (it + n)"
    let ?bs = "l @ [(it, - n), (it + n, e)] @ r"
    have e: "4 \<le> e" "n + e = b" using True by (auto simp: e_def)
    have av: "0 \<le> avail h1" "avail h1 + 2 < len h"
      using core_avail_next [OF h1(2)] rng n by auto
    have "take_block h it n b = Inr (h1\<lparr>array := f', avail := it + n\<rparr>)"
      using e n rng h1(1) len1 av
      by (simp add: take_block_def makeTaken_eq makeAvail_eq f2_def f3_def f'_def flip: e_def)
    moreover have c3: "core (len h) f3 (avail h1) ?bs (remove1 it fl)"
      by (rule core_replace [OF cb t(1) _ t(2)]) (use n z fl1 e in \<open>auto simp: f2_def f3_def\<close>)
    have new: "it + n \<notin> set (remove1 it fl)"
    proof
      assume "it + n \<in> set (remove1 it fl)"
      from core_freeD [OF h1(2) this] obtain a where "(it + n, a) \<in> set bs" by blast
      from tiles_disjoint [OF c(6) it(2) this] n e show False
        using tiles_mem [OF c(6) \<open>(it + n, a) \<in> set bs\<close>] by auto
    qed
    have c': "core (len h) f' (it + n) ?bs ((it + n) # remove1 it fl)"
      unfolding f'_def by (rule core_pushed [OF c3 _ e(1) new]) simp
    moreover have "alloc_at it n bs = ?bs" using alloc_at_split [OF t(1)] bs True by (auto simp: e_def)
    moreover have "f' k = array h k" if k: "outside_free bs k" for k
    proof -
      have "outside_free ?bs k" using k out [OF k] bs n e by (auto simp: outside_free_def)
      from pushed_frame [OF c3 this, of "it + n" e] e have "f' k = f3 k" by (simp add: f'_def)
      with out [OF k] h1(4) [OF k] n e show ?thesis by (auto simp: f3_def f2_def)
    qed
    ultimately show ?thesis using that [of "h1\<lparr>array := f', avail := it + n\<rparr>"] True len1
      by (simp add: same_place_def)
  qed
qed

lemma take_block_inv:
  assumes I: "heap_inv h bs fl" and it: "it \<in> set fl" "(it, b) \<in> set bs" and n: "4 \<le> n" "n \<le> b"
  obtains h' fl' where "take_block h it n b = Inr h'" "same_place h h'" "heap_inv h' (alloc_at it n bs) fl'"
    "\<And>k. outside_free bs k \<Longrightarrow> array h' k = array h k"
proof -
  note c = heap_invD [OF I]
  let ?fl = "(if b - n \<ge> 4 then [it + n] else []) @ remove1 it fl"
  from take_block_cells [OF assms] obtain h' where h': "take_block h it n b = Inr h'" "same_place h h'"
    "core (len h) (array h') (avail h') (alloc_at it n bs) ?fl"
    "\<And>k. outside_free bs k \<Longrightarrow> array h' k = array h k" by blast
  from tiles_split_mem [OF c(6) it(2)] obtain l r where bs: "bs = l @ (it, b) # r"
    and t: "tiles 0 it l" "tiles (it + b) (len h) r" using n by auto
  note al = alloc_at_split [OF t(1), of n b r, folded bs]
  have "it \<notin> avail_of l" "it \<notin> avail_of r" using avail_of_outside [OF t(1)] avail_of_outside [OF t(2)] n by auto
  moreover have "distinct fl" using c(1) by (simp add: core_def)
  ultimately have "set ?fl = avail_of (alloc_at it n bs)"
    using c(2) [unfolded bs] n unfolding al by auto
  moreover have "sizes_ok (len h) (alloc_at it n bs)"
    using c(3) [unfolded bs] n unfolding al by (auto simp: sizes_ok_def)
  moreover have "separated (alloc_at it n bs)"
    unfolding al using separated_alloc [OF c(4) [unfolded bs] _ n] n by simp
  ultimately have "heap_inv h' (alloc_at it n bs) ?fl"
    using h'(2,3) c(5) by (simp add: heap_inv_def same_place_def)
  with h' show ?thesis using that by blast
qed

lemma candidates_mem: "p \<in> set (candidates f n fl) \<Longrightarrow> p \<in> set fl \<and> n \<le> f p"
  unfolding candidates_def by (auto dest: in_set_takeD)

lemma candidates_empty: "candidates f n fl = [] \<longleftrightarrow> (\<forall>p\<in>set fl. f p < n)"
  unfolding candidates_def by (auto simp: filter_empty_conv not_le)

lemma heap_inv_search:
  assumes I: "heap_inv h bs fl"
  shows "search (Suc (nat (len h))) h n (avail h) 20 0x7FFFFFFF 0 =
    Inr (foldl (better (array h)) (0x7FFFFFFF, 0) (candidates (array h) n fl))"
proof -
  note c = heap_invD [OF I]
  have d: "dseg (array h) 0 (avail h) fl 0" using c(1) by (simp add: core_def)
  have "set fl \<subseteq> {0..<len h}"
  proof
    fix p assume "p \<in> set fl"
    from heap_inv_free [OF I this] show "p \<in> {0..<len h}" by auto
  qed
  then have "card (set fl) \<le> nat (len h)" using card_mono [of "{0..<len h}"] by fastforce
  then have "length fl \<le> nat (len h)" using c(1) by (simp add: core_def distinct_card)
  moreover have "\<forall>y\<in>set fl. 0 < y \<and> y + 1 < len h \<and> 0 < array h y"
  proof
    fix y assume "y \<in> set fl"
    from heap_inv_free [OF I this] show "0 < y \<and> y + 1 < len h \<and> 0 < array h y" by auto
  qed
  ultimately show ?thesis using search_eq [OF d, where fuel = "Suc (nat (len h))" and cd = 20] by (simp add: candidates_def)
qed

lemma ints_of_ge: "4 \<le> ints_of bytes"
  by (simp add: ints_of_def Let_def)

definition ptr_of :: "heap \<Rightarrow> int \<Rightarrow> u32" where
  "ptr_of h i = base h + 4 * of_int (i + 1)"

lemma malloc_cases:
  assumes I: "heap_inv h bs fl" and b: "bytes \<noteq> 0"
  obtains (full) "malloc h bytes = Inr (0, h)" "\<forall>p\<in>set fl. array h p < ints_of bytes"
  | (fits) it h' fl' where "it \<in> set fl" "(it, array h it) \<in> set bs" "ints_of bytes \<le> array h it"
      "\<forall>p\<in>set (candidates (array h) (ints_of bytes) fl). array h it \<le> array h p"
      "malloc h bytes = Inr (ptr_of h it, h')" "same_place h h'"
      "heap_inv h' (alloc_at it (ints_of bytes) bs) fl'"
      "\<And>k. outside_free bs k \<Longrightarrow> array h' k = array h k"
proof -
  let ?n = "ints_of bytes" and ?cs = "candidates (array h) (ints_of bytes) fl"
  obtain mx it where fold: "foldl (better (array h)) (0x7FFFFFFF, 0) ?cs = (mx, it)" by fastforce
  have eq: "malloc h bytes = (if it \<noteq> 0 then
      bindR (take_block h it ?n mx) (\<lambda>h3. Inr (ptr_of h it, h3)) else Inr (0, h))"
    using b by (simp add: malloc_def Let_def heap_inv_search [OF I] fold take_block_def bindR_assoc ptr_of_def)
  have small: "array h p < 0x7FFFFFFF" if "p \<in> set fl" for p
    using heap_inv_free [OF I that] heap_invD(5) [OF I] by auto
  from better_fold [OF fold] show ?thesis
  proof (elim disjE conjE)
    assume "(mx, it) = (0x7FFFFFFF, 0)" and all: "\<forall>c\<in>set ?cs. 0x7FFFFFFF \<le> array h c"
    have "?cs = []"
    proof (rule ccontr)
      assume "?cs \<noteq> []"
      then obtain c where "c \<in> set ?cs" by (cases ?cs) auto
      with all small candidates_mem show False by fastforce
    qed
    with full eq \<open>(mx, it) = (0x7FFFFFFF, 0)\<close> show ?thesis by (simp add: candidates_empty)
  next
    assume m: "it \<in> set ?cs" "mx = array h it" "\<forall>c\<in>set ?cs. mx \<le> array h c"
    from candidates_mem [OF m(1)] have it: "it \<in> set fl" "?n \<le> array h it" by auto
    from heap_inv_free [OF I it(1)] have bs: "(it, array h it) \<in> set bs" "it \<noteq> 0" by auto
    from take_block_inv [OF I it(1) bs(1) ints_of_ge it(2)] obtain h' fl' where
      "take_block h it ?n (array h it) = Inr h'" "same_place h h'" "heap_inv h' (alloc_at it ?n bs) fl'"
      "\<And>k. outside_free bs k \<Longrightarrow> array h' k = array h k" by blast
    with fits [OF it(1) bs(1) it(2)] m eq bs(2) show ?thesis by simp
  qed
qed

section \<open>free\<close>

lemma coalesce_id: "separated bs \<Longrightarrow> coalesce bs = bs"
  by (induction bs rule: coalesce.induct) auto

lemma coalesce_append:
  "separated l \<Longrightarrow> l = [] \<or> \<not> 0 < snd (last l) \<Longrightarrow> coalesce (l @ r) = l @ coalesce r"
proof (induction l rule: induct_list012)
  case (2 x)
  then show ?case by (cases x; cases r rule: coalesce.cases) auto
next
  case (3 x y zs)
  then show ?case by (cases x; cases y) auto
qed simp

text \<open>
  Merging at one free block: between taken blocks, a free block at most on each side
  of it is absorbed, and nothing else changes.
\<close>

lemma coalesce_right:
  assumes r: "separated r0" "r0 = [] \<or> \<not> 0 < snd (hd r0)" and m: "mr = [] \<or> mr = [(j, d)] \<and> 0 < d" and z: "0 < z"
  shows "coalesce ((k, z) # mr @ r0) = (k, z + sum_list (map snd mr)) # r0"
proof -
  have "coalesce ((k, y) # r0) = (k, y) # r0" for y
    using r by (cases r0) (auto simp: coalesce_id)
  with m z show ?thesis by auto
qed

lemma coalesce_merge:
  assumes l: "separated l0" "l0 = [] \<or> \<not> 0 < snd (last l0)" and ml: "ml = [] \<or> ml = [(q, c)] \<and> 0 < c"
    and r: "separated r0" "r0 = [] \<or> \<not> 0 < snd (hd r0)" and mr: "mr = [] \<or> mr = [(j, d)] \<and> 0 < d"
    and s: "0 < s"
  shows "coalesce (l0 @ ml @ (i, s) # mr @ r0) =
    l0 @ (if ml = [] then i else q, s + sum_list (map snd ml) + sum_list (map snd mr)) # r0"
  using ml
proof
  assume "ml = []"
  with coalesce_append [OF l] coalesce_right [OF r mr s] show ?thesis by simp
next
  assume m: "ml = [(q, c)] \<and> 0 < c"
  with s have "0 < c + s" by simp
  from coalesce_append [OF l] coalesce_right [OF r mr this, of q] m s show ?thesis
    by (simp add: add.commute)
qed

lemma core_tag:
  assumes "core (len h) (array h) (avail h) bs fl" "(q, c) \<in> set bs"
  shows "isAvail h q = Inr (0 < c)" "isTaken h q = Inr (c < 0)" "size_of h q = Inr \<bar>c\<bar>"
    "size_of h (q + \<bar>c\<bar> - 1) = Inr \<bar>c\<bar>"
proof -
  have "tiles 0 (len h) bs" "tagged (array h) bs" using assms(1) by (simp_all add: core_def)
  from tiles_mem [OF this(1) assms(2)] this(2) assms(2)
  have "0 \<le> q" "q + \<bar>c\<bar> - 1 < len h" "q < len h" "2 \<le> \<bar>c\<bar>" "array h q = c" "array h (q + \<bar>c\<bar> - 1) = c"
    by (auto simp: tagged_iff)
  then show "isAvail h q = Inr (0 < c)" "isTaken h q = Inr (c < 0)" "size_of h q = Inr \<bar>c\<bar>"
    "size_of h (q + \<bar>c\<bar> - 1) = Inr \<bar>c\<bar>"
    by (simp_all add: isAvail_def isTaken_def array_simps)
qed

text \<open>
  One merge step of \<^verbatim>\<open>free\<close>: if the neighbour \<open>(q, c)\<close> is free it leaves the free list
  and keeps its tags.
\<close>

lemma merge_step:
  assumes c: "core (len h) (array h) (avail h) bs fl" and q: "(q, c) \<in> set bs" and f: "0 < c \<longleftrightarrow> q \<in> set fl"
  obtains h1 where
    "isAvail h q = Inr (0 < c)" "0 < c \<longrightarrow> remove h q = Inr h1 \<and> size_of h1 q = Inr c"
    "core (len h1) (array h1) (avail h1) bs (remove1 q fl)" "same_place h h1"
    "\<not> 0 < c \<longrightarrow> h1 = h" "\<forall>k. outside_free bs k \<longrightarrow> array h1 k = array h k"
proof (cases "0 < c")
  case False
  with f have "remove1 q fl = fl" by (simp add: remove1_idem)
  with that [of h] c core_tag [OF c q] False show ?thesis by (simp add: same_place_def)
next
  case True
  with f have "q \<in> set fl" by simp
  from remove_core [OF c this] obtain h1 where h1: "remove h q = Inr h1"
    "core (len h) (array h1) (avail h1) bs (remove1 q fl)" "h1 = h\<lparr>array := array h1, avail := avail h1\<rparr>"
    "\<And>k. outside_free bs k \<Longrightarrow> array h1 k = array h k" by blast
  have same: "len h1 = len h" "base h1 = base h" "theLock h1 = theLock h"
    using h1(3) by (metis heap.select_convs heap.surjective heap.update_convs(2,4))+
  then have c1: "core (len h1) (array h1) (avail h1) bs (remove1 q fl)" using h1(2) by simp
  with that [of h1] h1 True same core_tag [OF c q] core_tag [OF c1 q] show ?thesis
    by (simp add: same_place_def)
qed

lemma makeAvail_core:
  assumes c: "core (len h) (array h) (avail h) (l @ mid @ r) fl"
    and t: "tiles 0 lo l" "tiles lo (lo + n) mid" "tiles (lo + n) (len h) r"
    and n: "4 \<le> n" and nofree: "fst ` set mid \<inter> set fl = {}"
    and z: "(0, -2) \<in> set (l @ r)" and lo: "lo \<notin> set fl"
  obtains h' where "makeAvail h lo n = Inr h'" "same_place h h'"
    "core (len h) (array h') (avail h') (l @ (lo, n) # r) (lo # fl)"
    "\<And>k. outside_free (l @ (lo, n) # r) k \<Longrightarrow> array h' k = array h k"
proof -
  define g where "g = (array h)(lo := n, lo + n - 1 := n)"
  define f' where "f' = pushed g (avail h) lo"
  have rng: "0 \<le> lo" "lo + n \<le> len h" using tiles_le [OF t(1)] tiles_le [OF t(3)] by auto
  have av: "0 \<le> avail h" "avail h + 2 < len h" using core_avail_next [OF c] rng n by auto
  have "makeAvail h lo n = Inr (h\<lparr>array := f', avail := lo\<rparr>)"
    using makeAvail_eq [OF n rng av] by (simp add: f'_def g_def)
  moreover have "core (len h) g (avail h) (l @ [(lo, n)] @ r) fl"
    by (rule core_replace [OF c t]) (use n z nofree in \<open>force simp: g_def\<close>)+
  then have cg: "core (len h) g (avail h) (l @ (lo, n) # r) fl" by simp
  have c': "core (len h) f' lo (l @ (lo, n) # r) (lo # fl)"
    unfolding f'_def by (rule core_pushed [OF cg _ n lo]) simp
  moreover have "f' k = array h k" if k: "outside_free (l @ (lo, n) # r) k" for k
  proof -
    have "f' k = g k" unfolding f'_def by (rule pushed_frame [OF cg k _ n]) simp
    moreover have "k < lo \<or> lo + n \<le> k" using k n by (auto simp: outside_free_def)
    ultimately show ?thesis using n by (auto simp: g_def)
  qed
  ultimately show ?thesis using that [of "h\<lparr>array := f', avail := lo\<rparr>"] by (simp add: same_place_def)
qed

lemma outside_free_release:
  assumes t: "tiles 0 i l" "tiles (i + s) L r" and s: "0 < s"
    and k: "outside_free (release i (l @ (i, - s) # r)) k"
  shows "outside_free (l @ (i, - s) # r) k" "k < i \<or> i + s \<le> k"
proof -
  have "release i (l @ (i, - s) # r) = l @ (i, s) # r" using release_split [OF t(1), of "- s" r] by simp
  with k s show "outside_free (l @ (i, - s) # r) k" "k < i \<or> i + s \<le> k" by (auto simp: outside_free_def)
qed

lemma free_neighbours:
  assumes I: "heap_inv h bs fl" and i: "(i, - s) \<in> set bs" "0 < s" "i \<noteq> 0" "i \<noteq> len h - 2"
  obtains l1 q c d r1 where "bs = l1 @ (q, c) # (i, - s) # (i + s, d) # r1" "q + \<bar>c\<bar> = i"
    "tiles 0 q l1" "tiles (i + s + \<bar>d\<bar>) (len h) r1" "4 \<le> s"
    "left h i = Inr q" "right h i = Inr (i + s)" "isTaken h i = Inr True" "size_of h i = Inr s"
proof -
  note c = heap_invD [OF I]
  from c(3) i(1) i(2-4) have s4: "4 \<le> s" by (auto simp: sizes_ok_def list_all_iff)
  from tiles_split_mem [OF c(6) i(1)] i(2) obtain l r where bs: "bs = l @ (i, - s) # r"
    and t: "tiles 0 i l" "tiles (i + s) (len h) r" by auto
  have "l \<noteq> []" using t(1) i(3) by auto
  then obtain l1 q cc where l: "l = l1 @ [(q, cc)]" by (cases l rule: rev_cases) auto
  have "r \<noteq> []"
  proof
    assume "r = []"
    with t(2) have "i + s = len h" by simp
    moreover have "(len h - 2, -2) \<in> set bs" using c(3) by (simp add: sizes_ok_def)
    ultimately show False using tiles_disjoint [OF c(6) i(1), of "len h - 2" "-2"] s4 i(4) by auto
  qed
  with t(2) obtain d r1 where r: "r = (i + s, d) # r1" by (cases r) auto
  have q: "tiles 0 q l1" "q + \<bar>cc\<bar> = i" using t(1) l by (auto simp: tiles_append)
  have mem: "(q, cc) \<in> set bs" using bs l by simp
  note tags = core_tag [OF c(1) i(1)] core_tag [OF c(1) mem]
  have "left h i = Inr q" "right h i = Inr (i + s)"
    using tags q i(2) by (simp_all add: left_def right_def headerFromFooter_def algebra_simps)
  with that bs l r q t(2) s4 tags i(2) show ?thesis by auto
qed

lemma free_unfold:
  assumes "p \<noteq> 0" "p \<noteq> base h" "idx_of h p = i" "isTaken h i = Inr True" "size_of h i = Inr s"
    "left h i = Inr q" "right h i = Inr j"
  shows "free h p =
    bindR (bindR (isAvail h q) (\<lambda>a. if a then bindR (remove h q) (\<lambda>h1. bindR (size_of h1 q)
       (\<lambda>t. Inr (h1, q, s + t))) else Inr (h, i, s))) (\<lambda>(h1, i1, s1).
    bindR (bindR (isAvail h1 j) (\<lambda>a. if a then bindR (remove h1 j) (\<lambda>h2. bindR (size_of h2 j)
       (\<lambda>t. Inr (h2, s1 + t))) else Inr (h1, s1))) (\<lambda>(h2, s2). makeAvail h2 i1 s2))"
  using assms by (simp add: free_def)

lemma free_inv:
  assumes I: "heap_inv h bs fl" and i: "(i, - s) \<in> set bs" "0 < s" "i \<noteq> 0" "i \<noteq> len h - 2"
    and p: "p \<noteq> 0" "p \<noteq> base h" "idx_of h p = i"
  obtains h' fl' where "free h p = Inr h'" "same_place h h'" "heap_inv h' (coalesce (release i bs)) fl'"
    "\<And>k. outside_free (release i bs) k \<Longrightarrow> array h' k = array h k"
proof -
  note c = heap_invD [OF I]
  from free_neighbours [OF I i] obtain l1 q cc d r1 where
    bs: "bs = l1 @ (q, cc) # (i, - s) # (i + s, d) # r1" and q: "q + \<bar>cc\<bar> = i"
    and t: "tiles 0 q l1" "tiles (i + s + \<bar>d\<bar>) (len h) r1" and s4: "4 \<le> s"
    and code: "left h i = Inr q" "right h i = Inr (i + s)" "isTaken h i = Inr True" "size_of h i = Inr s" .
  define ml where "ml = (if 0 < cc then [(q, cc)] else [])"
  define l0 where "l0 = (if 0 < cc then l1 else l1 @ [(q, cc)])"
  define mr where "mr = (if 0 < d then [(i + s, d)] else [])"
  define r0 where "r0 = (if 0 < d then r1 else (i + s, d) # r1)"
  define lo where "lo = (if 0 < cc then q else i)"
  define n where "n = s + (if 0 < cc then cc else 0) + (if 0 < d then d else 0)"
  have bs': "bs = l0 @ (ml @ (i, - s) # mr) @ r0" by (simp add: bs ml_def l0_def mr_def r0_def)
  have mem: "(q, cc) \<in> set bs" "(i + s, d) \<in> set bs" using bs by auto
  have two: "2 \<le> \<bar>cc\<bar>" "2 \<le> \<bar>d\<bar>" using tiles_mem [OF c(6)] mem by blast+
  have fl: "set fl = avail_of bs" "distinct fl" using c(1,2) by (simp_all add: core_def)
  have free_iff: "0 < b \<longleftrightarrow> x \<in> set fl" if "(x, b) \<in> set bs" for x b
  proof
    assume "0 < b" with that show "x \<in> set fl" by (auto simp: fl(1) avail_of_def)
  next
    assume "x \<in> set fl"
    then obtain a where "(x, a) \<in> set bs" "0 < a" by (auto simp: fl(1) avail_of_def)
    with tiles_unique [OF c(6) that] show "0 < b" by auto
  qed
  have f1: "0 < cc \<longleftrightarrow> q \<in> set fl"
    by (rule free_iff [OF mem(1)])
  obtain h1 where
    e1: "isAvail h q = Inr (0 < cc)" "0 < cc \<longrightarrow> remove h q = Inr h1 \<and> size_of h1 q = Inr cc"
    and c1: "core (len h1) (array h1) (avail h1) bs (remove1 q fl)" and s1: "same_place h h1"
    and n1: "\<not> 0 < cc \<longrightarrow> h1 = h" and k1: "\<forall>k. outside_free bs k \<longrightarrow> array h1 k = array h k"
    by (rule merge_step [OF c(1) mem(1) f1])
  have f2: "0 < d \<longleftrightarrow> i + s \<in> set (remove1 q fl)"
  proof -
    have "0 < d \<longleftrightarrow> i + s \<in> set fl"
      by (rule free_iff [OF mem(2)])
    moreover have "i + s \<noteq> q" using q s4 by auto
    ultimately show ?thesis by (simp add: in_set_remove1)
  qed
  obtain h2 where
    e2: "isAvail h1 (i + s) = Inr (0 < d)" "0 < d \<longrightarrow> remove h1 (i + s) = Inr h2 \<and> size_of h2 (i + s) = Inr d"
    and c2: "core (len h2) (array h2) (avail h2) bs (remove1 (i + s) (remove1 q fl))" and s2: "same_place h1 h2"
    and n2: "\<not> 0 < d \<longrightarrow> h2 = h1" and k2: "\<forall>k. outside_free bs k \<longrightarrow> array h2 k = array h1 k"
    by (rule merge_step [OF c1 mem(2) f2])
  let ?fl = "remove1 (i + s) (remove1 q fl)"
  have eq: "free h p = makeAvail h2 lo n"
    unfolding free_unfold [OF p code(3,4,1,2)] using e1 e2 n1 n2
    by (cases "0 < cc"; cases "0 < d") (simp_all add: lo_def n_def)
  have lens: "len h2 = len h" using s1 s2 by (simp add: same_place_def)
  have T: "tiles 0 lo l0" "tiles lo (lo + n) (ml @ (i, - s) # mr)" "tiles (lo + n) (len h2) r0"
    using t q s4 two
    by (auto simp: lens lo_def n_def l0_def ml_def mr_def r0_def tiles_append algebra_simps)
  have set2: "set ?fl = set fl - {q, i + s}" using fl(2) by auto
  have ifl: "i \<notin> set fl"
    using free_iff [OF i(1)] i(2) by simp
  have nofree: "fst ` set (ml @ (i, - s) # mr) \<inter> set ?fl = {}"
    unfolding set2 using ifl by (auto simp: ml_def mr_def)
  have z: "(0, -2) \<in> set (l0 @ r0)"
    using c(3) i(3) s4 two q unfolding sizes_ok_def bs' by (auto simp: ml_def mr_def split: if_splits)
  have lo: "lo \<notin> set ?fl" unfolding set2 using ifl by (simp add: lo_def)
  have n4: "4 \<le> n" using s4 by (simp add: n_def)
  from makeAvail_core [OF c2 [unfolded bs'] T n4 nofree z lo] obtain h' where
    h': "makeAvail h2 lo n = Inr h'" "same_place h2 h'"
    "core (len h2) (array h') (avail h') (l0 @ (lo, n) # r0) (lo # ?fl)"
    "\<And>k. outside_free (l0 @ (lo, n) # r0) k \<Longrightarrow> array h' k = array h2 k" by blast
  have sep: "separated bs" by (rule c(4))
  have L: "separated l0" "l0 = [] \<or> \<not> 0 < snd (last l0)" and R: "separated r0" "r0 = [] \<or> \<not> 0 < snd (hd r0)"
    using sep unfolding bs
    by (auto simp: l0_def r0_def separated_append) (cases r1; auto)+
  have co: "coalesce (release i bs) = l0 @ (lo, n) # r0"
  proof -
    have "tiles 0 i (l1 @ [(q, cc)])" using t(1) q two by (auto simp: tiles_append)
    from release_split [OF this, of "- s" "(i + s, d) # r1"]
    have "release i bs = l0 @ ml @ (i, s) # mr @ r0"
      by (simp add: bs l0_def ml_def mr_def r0_def)
    with coalesce_merge [OF L _ R, of ml q cc mr "i + s" d s i] i(2) show ?thesis
      by (auto simp: ml_def mr_def lo_def n_def)
  qed
  have "insert lo (set fl - {q, i + s}) = avail_of (l0 @ (lo, n) # r0)"
  proof -
    have "set fl = avail_of l0 \<union> avail_of ml \<union> avail_of mr \<union> avail_of r0"
      unfolding fl(1) bs' using i(2) by auto
    moreover have "q \<notin> avail_of l0" "i + s \<notin> avail_of l0" "q \<notin> avail_of r0" "i + s \<notin> avail_of r0"
      using avail_of_outside [OF T(1)] avail_of_outside [OF T(3)] q s4 two
        avail_of_outside [OF t(1)] avail_of_outside [OF t(2)]
      by (auto simp: l0_def r0_def split: if_splits)
    ultimately show ?thesis using n4 by (auto simp: ml_def mr_def)
  qed
  then have "set (lo # ?fl) = avail_of (l0 @ (lo, n) # r0)" by (simp add: set2)
  moreover have "sizes_ok (len h) (l0 @ (lo, n) # r0)"
    using c(3) z n4 T(3) i(4) unfolding sizes_ok_def bs' lens
    by (auto simp: ml_def mr_def)
  moreover have "separated (l0 @ (lo, n) # r0)"
    using L R by (cases r0) (auto simp: separated_append)
  ultimately have "heap_inv h' (coalesce (release i bs)) (lo # ?fl)"
    using h'(2,3) c(5) lens unfolding co by (simp add: heap_inv_def same_place_def)
  moreover have "array h' k = array h k" if k: "outside_free (release i bs) k" for k
  proof -
    have ti: "tiles 0 i (l1 @ [(q, cc)])" "tiles (i + s) (len h) ((i + s, d) # r1)"
      using t q two by (auto simp: tiles_append)
    have k': "outside_free bs k" "k < i \<or> i + s \<le> k"
      using outside_free_release [OF ti i(2)] k by (simp_all add: bs)
    then have "outside_free (l0 @ (lo, n) # r0) k"
      unfolding bs' using q s4 by (auto simp: outside_free_def ml_def mr_def lo_def n_def split: if_splits)
    with h'(4) k1 k2 k'(1) show ?thesis by simp
  qed
  moreover have "same_place h h'" using s1 s2 h'(2) by (simp add: same_place_def)
  ultimately show ?thesis using that h'(1) eq by simp
qed

section \<open>Pointers\<close>

text \<open>
  A heap placed in the 32-bit address space: its cells do not wrap around and its first
  cell is not at the null address. Then distinct indices have distinct non-null addresses
  and \<^verbatim>\<open>free\<close> recovers the index from the pointer that \<^verbatim>\<open>malloc\<close> made of it.
\<close>

definition placed :: "heap \<Rightarrow> bool" where
  "placed h \<longleftrightarrow> 0 < base h \<and> uint (base h) + 4 * len h \<le> 2 ^ 32"

lemma uint_small_of_int: "0 \<le> k \<Longrightarrow> k < 2 ^ 32 \<Longrightarrow> uint (of_int k :: u32) = k"
  by (simp add: uint_word_of_int_eq take_bit_int_eq_self)

lemma sint_small_of_int: "0 \<le> k \<Longrightarrow> k < 2 ^ 31 \<Longrightarrow> sint (of_int k :: u32) = k"
  by (simp add: sint_sbintrunc' signed_take_bit_int_eq_self)

lemma idx_of_ptr_of:
  assumes "0 \<le> i" "i < 2 ^ 29"
  shows "idx_of h (ptr_of h i) = i"
proof -
  have "ptr_of h i - base h = of_int (4 * (i + 1))" by (simp add: ptr_of_def)
  moreover have "(of_int (4 * (i + 1)) :: u32) div 4 = of_int (i + 1)"
  proof (rule word_uint_eqI)
    show "uint ((of_int (4 * (i + 1)) :: u32) div 4) = uint (of_int (i + 1) :: u32)"
      using assms by (simp only: uint_div) (simp add: uint_small_of_int del: of_int_mult of_int_add)
  qed
  ultimately show ?thesis using assms sint_small_of_int [of i] by (simp add: idx_of_def)
qed

lemma ptr_of_ne:
  assumes "placed h" "0 \<le> i" "i + 1 < len h" "len h \<le> 2 ^ 29"
  shows "ptr_of h i \<noteq> 0" "ptr_of h i \<noteq> base h" "uint (ptr_of h i) = uint (base h) + 4 * (i + 1)"
proof -
  have k: "uint (of_int (4 * (i + 1)) :: u32) = 4 * (i + 1)"
    using assms by (intro uint_small_of_int) auto
  show u: "uint (ptr_of h i) = uint (base h) + 4 * (i + 1)"
  proof -
    have "ptr_of h i = base h + of_int (4 * (i + 1))" by (simp add: ptr_of_def)
    moreover have "uint (base h) + 4 * (i + 1) < 2 ^ 32" using assms by (simp add: placed_def)
    ultimately show ?thesis using k uint_add_lem [of "base h" "of_int (4 * (i + 1))"] by simp
  qed
  have "0 < uint (base h) + 4 * (i + 1)"
    by (rule add_nonneg_pos) (use assms(2) in simp_all)
  moreover have "uint (base h) < uint (base h) + 4 * (i + 1)" using assms(2) by simp
  ultimately show "ptr_of h i \<noteq> 0" "ptr_of h i \<noteq> base h" using u by auto
qed

text \<open>The cell count of a request, when the request leaves room for rounding up.\<close>

lemma ints_of_eq:
  assumes "uint bytes + 3 < 2 ^ 32"
  shows "ints_of bytes = max 4 ((uint bytes + 3) div 4 + 2)"
proof -
  let ?k = "(uint bytes + 3) div 4 + 2"
  have 1: "uint (bytes + 3) = uint bytes + 3" using assms uint_add_lem [of bytes 3] by simp
  have "(bytes + 3) div 4 + 2 = of_int ?k"
  proof -
    have "0 \<le> (uint bytes + 3) div 4" "(uint bytes + 3) div 4 < 2 ^ 32"
      using assms uint_ge_0 [of bytes] by linarith+
    then have "(bytes + 3) div 4 = of_int ((uint bytes + 3) div 4)"
      by (intro word_uint_eqI) (simp add: uint_div uint_small_of_int 1)
    then show ?thesis by simp
  qed
  moreover have "sint (of_int ?k :: u32) = ?k"
  proof (rule sint_small_of_int)
    have "uint bytes + 3 < 4294967296" using assms by simp
    then show "?k < 2 ^ 31" by simp
    show "0 \<le> ?k" using uint_ge_0 [of bytes] by linarith
  qed
  ultimately show ?thesis by (simp add: ints_of_def Let_def)
qed

section \<open>Block-level round trip\<close>

lemma coalesce_release_alloc:
  assumes t: "tiles 0 L bs" and s: "separated bs" and m: "(it, b) \<in> set bs" and n: "4 \<le> n" "n \<le> b"
  shows "coalesce (release it (alloc_at it n bs)) = bs"
proof -
  from tiles_split_mem [OF t m] n obtain l r where bs: "bs = l @ (it, b) # r"
    and tl: "tiles 0 it l" "tiles (it + b) L r" by auto
  have sep: "separated l" "l = [] \<or> \<not> 0 < snd (last l)" "separated r" "r = [] \<or> \<not> 0 < snd (hd r)"
    using s n unfolding bs by (auto simp: separated_append) (cases r; auto)+
  show ?thesis
  proof (cases "b - n \<ge> 4")
    case True
    have "release it (alloc_at it n bs) = l @ [] @ (it, n) # [(it + n, b - n)] @ r"
      using release_split [OF tl(1), of "- n" "(it + n, b - n) # r"] True
      by (simp add: alloc_at_split [OF tl(1)] bs)
    with coalesce_merge [OF sep(1,2) _ sep(3,4), of "[]" 0 0 "[(it + n, b - n)]" "it + n" "b - n" n it] True n
    show ?thesis by (simp add: bs)
  next
    case False
    have "release it (alloc_at it n bs) = l @ [] @ (it, b) # [] @ r"
      using release_split [OF tl(1), of "- b" r] False by (simp add: alloc_at_split [OF tl(1)] bs)
    with coalesce_merge [OF sep(1,2) _ sep(3,4), of "[]" 0 0 "[]" 0 0 b it] n
    show ?thesis by (simp add: bs)
  qed
qed

section \<open>heapInit\<close>

lemma heapInit_blocks_inv:
  assumes n: "n = uint (bytes div 4)" "8 \<le> n" "n \<le> 2 ^ 29"
  obtains h where "heapInit_blocks m b bytes = Inr h" "base h = b" "len h = n"
    "heap_inv h [(0, -2), (2, n - 4), (n - 2, -2)] [2]"
proof -
  let ?h0 = "\<lparr>base = b, array = m, len = n, avail = 0, theLock = None\<rparr>"
  let ?m1 = "m(0 := -2, 1 := -2)"
  let ?m2 = "pushed (?m1(2 := n - 4, n - 3 := n - 4)) 0 2"
  let ?m3 = "?m2(n - 2 := -2, n - 1 := -2)"
  let ?h = "\<lparr>base = b, array = ?m3, len = n, avail = 2, theLock = None\<rparr>"
  have "heapInit_blocks m b bytes = Inr ?h"
    unfolding heapInit_blocks_def Let_def n(1) [symmetric]
    using n(2,3) by (simp add: makeTaken_eq makeAvail_eq)
  moreover have "core n ?m3 2 [(0, -2), (2, n - 4), (n - 2, -2)] [2]"
    using n by (auto simp: core_def pushed_def)
  then have "heap_inv ?h [(0, -2), (2, n - 4), (n - 2, -2)] [2]"
    using n by (auto simp: heap_inv_def sizes_ok_def avail_of_def)
  ultimately show ?thesis using that [of ?h] by simp
qed

end
