(* ===== verification/Heap_Correct.thy ===== *)
theory Heap_Correct
  imports Heap_Blocks
begin

text \<open>
  What the kernel heap promises its callers: the properties of \<^verbatim>\<open>malloc\<close>, \<^verbatim>\<open>free\<close> and
  \<^verbatim>\<open>heapInit\<close> over the block-level view, and the allocator interface, stated as a locale
  and interpreted on the code's model.
\<close>

section \<open>The view of a heap\<close>

definition heap_view :: "heap \<Rightarrow> (int \<times> int) list \<Rightarrow> bool" where
  "heap_view h bs \<longleftrightarrow> placed h \<and> (\<exists>fl. heap_inv h bs fl)"

lemma heap_viewD:
  assumes "heap_view h bs"
  shows "tiles 0 (len h) bs" "tagged (array h) bs" "separated bs" "sizes_ok (len h) bs"
    "len h \<le> 2 ^ 29" "placed h"
proof -
  from assms obtain fl where "placed h" "heap_inv h bs fl" unfolding heap_view_def by blast
  with heap_invD [OF this(2)] show "tiles 0 (len h) bs" "tagged (array h) bs" "separated bs"
    "sizes_ok (len h) bs" "len h \<le> 2 ^ 29" "placed h" by simp_all
qed

lemma heap_view_place: "same_place h h' \<Longrightarrow> placed h' = placed h"
  by (simp add: same_place_def placed_def)

text \<open>A taken block of a view is not a sentinel when it lies strictly between them.\<close>

definition live :: "heap \<Rightarrow> (int \<times> int) list \<Rightarrow> int \<Rightarrow> int \<Rightarrow> bool" where
  "live h bs i s \<longleftrightarrow> (i, - s) \<in> set bs \<and> 0 < s \<and> i \<noteq> 0 \<and> i \<noteq> len h - 2"

lemma full_view:
  assumes I: "heap_inv h bs fl" and small: "\<forall>p\<in>set fl. array h p < n" and n: "4 \<le> n"
  shows "\<forall>(i, b)\<in>set bs. b < n"
proof clarify
  note c = heap_invD [OF I]
  fix i b assume i: "(i, b) \<in> set bs"
  show "b < n"
  proof (cases "0 < b")
    case True
    with i c(2) have "i \<in> set fl" by (auto simp: avail_of_def)
    moreover from i c(7) have "array h i = b" by (auto simp: tagged_iff)
    ultimately show ?thesis using small by auto
  qed (use n in simp)
qed

lemma fits_view:
  assumes I: "heap_inv h bs fl" and p: "placed h" and it: "it \<in> set fl" "(it, array h it) \<in> set bs"
    and new: "same_place h h'" "heap_inv h' (alloc_at it n bs) fl'"
  shows "ptr_of h it \<noteq> 0" "ptr_of h it \<noteq> base h" "idx_of h (ptr_of h it) = it" "0 < it"
    "it + array h it \<le> len h - 2" "heap_view h' (alloc_at it n bs)"
proof -
  note c = heap_invD [OF I]
  from heap_inv_free [OF I it(1)] have r: "4 \<le> array h it" "2 \<le> it" "it + array h it \<le> len h" by auto
  have "(len h - 2, -2) \<in> set bs" using c(3) by (simp add: sizes_ok_def)
  from tiles_disjoint [OF c(6) it(2) this] r show r2: "it + array h it \<le> len h - 2" by auto
  show "ptr_of h it \<noteq> 0" "ptr_of h it \<noteq> base h" using ptr_of_ne [OF p] r r2 c(5) by auto
  show "idx_of h (ptr_of h it) = it" using idx_of_ptr_of [of it h] r r2 c(5) by simp
  show "0 < it" using r by simp
  show "heap_view h' (alloc_at it n bs)"
    using new heap_view_place [OF new(1)] p by (auto simp: heap_view_def)
qed

lemma malloc_view:
  assumes v: "heap_view h bs" and b: "bytes \<noteq> 0"
  obtains (full) "malloc h bytes = Inr (0, h)" "\<forall>(i, b)\<in>set bs. b < ints_of bytes"
  | (fits) it b h' where "(it, b) \<in> set bs" "ints_of bytes \<le> b" "malloc h bytes = Inr (ptr_of h it, h')"
      "ptr_of h it \<noteq> 0" "ptr_of h it \<noteq> base h" "idx_of h (ptr_of h it) = it" "0 < it" "it + b \<le> len h - 2"
      "same_place h h'" "heap_view h' (alloc_at it (ints_of bytes) bs)"
      "\<And>k. outside_free bs k \<Longrightarrow> array h' k = array h k"
proof -
  from v obtain fl where I: "heap_inv h bs fl" and p: "placed h" by (auto simp: heap_view_def)
  show ?thesis
  proof (cases rule: malloc_cases [OF I b])
    case 1
    with full_view [OF I 1(2) ints_of_ge] that(1) show ?thesis by blast
  next
    case (2 it h' fl')
    note f = fits_view [OF I p 2(1,2,6,7)]
    show ?thesis by (rule that(2) [OF 2(2,3,5) f(1-5) 2(6) f(6) 2(8)])
  qed
qed

lemma free_view:
  assumes v: "heap_view h bs" and l: "live h bs i s"
  obtains h' where "free h (ptr_of h i) = Inr h'" "same_place h h'" "heap_view h' (coalesce (release i bs))"
    "\<And>k. outside_free (release i bs) k \<Longrightarrow> array h' k = array h k"
proof -
  from v obtain fl where I: "heap_inv h bs fl" and p: "placed h" by (auto simp: heap_view_def)
  note c = heap_invD [OF I]
  from l have i: "(i, - s) \<in> set bs" "0 < s" "i \<noteq> 0" "i \<noteq> len h - 2" by (auto simp: live_def)
  from tiles_mem [OF c(6) i(1)] i(2) have r: "0 \<le> i" "i + 1 < len h" by auto
  have "idx_of h (ptr_of h i) = i" using idx_of_ptr_of [of i h] r c(5) by simp
  from free_inv [OF I i ptr_of_ne(1,2) [OF p r c(5)] this] obtain h' fl' where
    h': "free h (ptr_of h i) = Inr h'" "same_place h h'" "heap_inv h' (coalesce (release i bs)) fl'"
    "\<And>k. outside_free (release i bs) k \<Longrightarrow> array h' k = array h k" by blast
  moreover have "heap_view h' (coalesce (release i bs))"
    using h'(3) heap_view_place [OF h'(2)] p by (auto simp: heap_view_def)
  ultimately show ?thesis using that by blast
qed

lemma alloc_at_live:
  assumes v: "heap_view h bs" and m: "(it, b) \<in> set bs" "4 \<le> n" "n \<le> b" "0 < it" "it + b \<le> len h - 2"
    and p: "same_place h h'"
  shows "\<exists>s. live h' (alloc_at it n bs) it s \<and> n \<le> s"
proof -
  from tiles_split_mem [OF heap_viewD(1) [OF v] m(1)] obtain l r where
    bs: "bs = l @ (it, b) # r" and t: "tiles 0 it l" by blast
  show ?thesis
    using m p unfolding bs live_def alloc_at_split [OF t] same_place_def
    by (intro exI [of _ "if b - n \<ge> 4 then n else b"]) auto
qed

lemma give_back:
  assumes v: "heap_view h bs" and it: "(it, c) \<in> set bs" "4 \<le> n" "n \<le> c" "0 < it" "it + c \<le> len h - 2"
    and h2: "base h2 = base h" "len h2 = len h" "heap_view h2 (alloc_at it n bs)"
  shows "\<exists>h3. free h2 (ptr_of h it) = Inr h3 \<and> same_place h2 h3 \<and> heap_view h3 bs"
proof -
  have same: "same_place h (h2\<lparr>theLock := theLock h\<rparr>)" using h2 by (simp add: same_place_def)
  from alloc_at_live [OF v it same] obtain s where "live h2 (alloc_at it n bs) it s" by (auto simp: live_def)
  from free_view [OF h2(3) this] obtain h3 where h3: "free h2 (ptr_of h2 it) = Inr h3"
    "same_place h2 h3" "heap_view h3 (coalesce (release it (alloc_at it n bs)))" by blast
  have "coalesce (release it (alloc_at it n bs)) = bs"
    by (rule coalesce_release_alloc [OF heap_viewD(1) [OF v] heap_viewD(3) [OF v] it(1-3)])
  moreover have "ptr_of h2 it = ptr_of h it" using h2 by (simp add: ptr_of_def)
  ultimately show ?thesis using h3 by auto
qed

section \<open>The allocator interface\<close>

text \<open>
  A client of an allocator relies on this: an allocation returns, a refused one changes
  nothing, and after a granted one the allocator is in a state from which giving the
  block back leads to the view it started from, whatever other balanced use of the
  allocator came in between.
\<close>

locale allocator =
  fixes alloc :: "'h \<Rightarrow> 'n \<Rightarrow> ('p \<times> 'h) result"
    and dealloc :: "'h \<Rightarrow> 'p \<Rightarrow> 'h result"
    and view :: "'h \<Rightarrow> 'v \<Rightarrow> bool"
    and null :: 'p
  assumes alloc_returns: "view h v \<Longrightarrow> \<exists>p h'. alloc h n = Inr (p, h')"
    and alloc_null: "view h v \<Longrightarrow> alloc h n = Inr (null, h') \<Longrightarrow> h' = h"
    and alloc_dealloc: "view h v \<Longrightarrow> alloc h n = Inr (p, h') \<Longrightarrow> p \<noteq> null \<Longrightarrow>
      \<exists>v'. view h' v' \<and> (\<forall>h2. view h2 v' \<longrightarrow> (\<exists>h3. dealloc h2 p = Inr h3 \<and> view h3 v))"

fun alloc_seq :: "('h \<Rightarrow> 'n \<Rightarrow> ('p \<times> 'h) result) \<Rightarrow> 'h \<Rightarrow> 'n list \<Rightarrow> ('p list \<times> 'h) result" where
  "alloc_seq al h [] = Inr ([], h)"
| "alloc_seq al h (n # ns) =
     bindR (al h n) (\<lambda>(p, h1). bindR (alloc_seq al h1 ns) (\<lambda>(ps, h2). Inr (p # ps, h2)))"

fun dealloc_seq :: "('h \<Rightarrow> 'p \<Rightarrow> 'h result) \<Rightarrow> 'h \<Rightarrow> 'p list \<Rightarrow> 'h result" where
  "dealloc_seq de h [] = Inr h"
| "dealloc_seq de h (p # ps) = bindR (de h p) (\<lambda>h1. dealloc_seq de h1 ps)"

lemma dealloc_seq_append:
  "dealloc_seq de h (ps @ qs) = bindR (dealloc_seq de h ps) (\<lambda>h1. dealloc_seq de h1 qs)"
  by (induction ps arbitrary: h) (simp_all add: bindR_assoc)

context allocator
begin

lemma alloc_keeps_view:
  assumes "view h v" "alloc h n = Inr (p, h')"
  shows "\<exists>v'. view h' v'"
  using assms alloc_null alloc_dealloc by (cases "p = null") blast+

lemma nested_use:
  assumes "view h v" "alloc_seq alloc h ns = Inr (ps, h')" "null \<notin> set ps"
  shows "\<exists>h2. dealloc_seq dealloc h' (rev ps) = Inr h2 \<and> view h2 v"
  using assms
proof (induction ns arbitrary: h v ps)
  case Nil
  then show ?case by auto
next
  case (Cons n ns)
  from Cons.prems(2) obtain p h1 qs where p: "alloc h n = Inr (p, h1)"
    and qs: "alloc_seq alloc h1 ns = Inr (qs, h')" "ps = p # qs" by (auto simp: bindR_eq_Inr)
  from alloc_dealloc [OF Cons.prems(1) p] Cons.prems(3) qs obtain v' where
    v': "view h1 v'" "\<forall>h2. view h2 v' \<longrightarrow> (\<exists>h3. dealloc h2 p = Inr h3 \<and> view h3 v)" by auto
  from Cons.IH [OF v'(1) qs(1)] Cons.prems(3) qs(2) obtain h2 where
    "dealloc_seq dealloc h' (rev qs) = Inr h2" "view h2 v'" by auto
  with v'(2) qs(2) show ?case by (fastforce simp: dealloc_seq_append)
qed

end

text \<open>The kernel heap provides the interface; its view carries the placement of the array.\<close>

definition heap_at :: "heap \<Rightarrow> u32 \<times> int \<times> (int \<times> int) list \<Rightarrow> bool" where
  "heap_at h v \<longleftrightarrow> base h = fst v \<and> len h = fst (snd v) \<and> heap_view h (snd (snd v))"

lemma malloc_zero: "malloc h 0 = Inr (base h, h)"
  by (simp add: malloc_def)

lemma free_base: "free h (base h) = Inr h"
  by (simp add: free_def)

lemma malloc_then_free:
  assumes v: "heap_at h v" and m: "malloc h n = Inr (p, h')" and p: "p \<noteq> 0"
  shows "\<exists>v'. heap_at h' v' \<and> (\<forall>h2. heap_at h2 v' \<longrightarrow> (\<exists>h3. free h2 p = Inr h3 \<and> heap_at h3 v))"
proof (cases "n = 0")
  case True
  with m have "p = base h" "h' = h" by (auto simp: malloc_zero)
  with v show ?thesis by (auto simp: heap_at_def free_base intro!: exI [of _ v]) (metis free_base)
next
  case False
  obtain b L bs where vv: "v = (b, L, bs)" by (cases v) auto
  with v have h: "base h = b" "len h = L" "heap_view h bs" by (auto simp: heap_at_def)
  show ?thesis
  proof (cases rule: malloc_view [OF h(3) False])
    case 1
    note full = this
    with m p show ?thesis by simp
  next
    case (2 it c h1)
    note fits = this
    let ?n = "ints_of n" and ?v = "(b, L, alloc_at it (ints_of n) bs)"
    from fits(3) m have eq: "p = ptr_of h it" "h' = h1" by auto
    have "heap_at h' ?v" using fits(9,10) eq h by (simp add: heap_at_def same_place_def)
    moreover have "\<exists>h3. free h2 p = Inr h3 \<and> heap_at h3 v" if "heap_at h2 ?v" for h2
      using give_back [OF h(3) fits(1) ints_of_ge fits(2,7,8), of h2] that h eq
      by (auto simp: heap_at_def vv same_place_def)
    ultimately show ?thesis by blast
  qed
qed

interpretation kernel_heap: allocator malloc free heap_at 0
proof unfold_locales
  fix h v n
  assume "heap_at h v"
  then have v: "heap_view h (snd (snd v))" by (simp add: heap_at_def)
  show "\<exists>p h'. malloc h n = Inr (p, h')"
  proof (cases "n = 0")
    case False
    show ?thesis by (cases rule: malloc_view [OF v False]) auto
  qed (simp add: malloc_zero)
next
  fix h v n h'
  assume "heap_at h v" and m: "malloc h n = Inr (0, h')"
  then have v: "heap_view h (snd (snd v))" by (simp add: heap_at_def)
  show "h' = h"
  proof (cases "n = 0")
    case True
    with m show ?thesis by (simp add: malloc_zero)
  next
    case False
    show ?thesis by (cases rule: malloc_view [OF v False]) (use m in auto)
  qed
next
  fix h v n p h'
  assume "heap_at h v" "malloc h n = Inr (p, h')" "p \<noteq> 0"
  then show "\<exists>v'. heap_at h' v' \<and> (\<forall>h2. heap_at h2 v' \<longrightarrow> (\<exists>h3. free h2 p = Inr h3 \<and> heap_at h3 v))"
    by (rule malloc_then_free)
qed

section \<open>Properties\<close>

lemma heap_init_view:
  assumes n: "n = uint (bytes div 4)" "8 \<le> n" "n \<le> 2 ^ 29" and b: "0 < b" "uint b + 4 * n \<le> 2 ^ 32"
  shows "\<exists>h. heapInit_blocks m b bytes = Inr h \<and> heap_view h [(0, -2), (2, n - 4), (n - 2, -2)]"
proof -
  from heapInit_blocks_inv [OF n] obtain h where "heapInit_blocks m b bytes = Inr h" "base h = b" "len h = n"
    "heap_inv h [(0, -2), (2, n - 4), (n - 2, -2)] [2]" by blast
  with b show ?thesis by (auto simp: heap_view_def placed_def)
qed

text \<open>The heap the kernel starts with: 5 MB at address 1 MB, as \<^verbatim>\<open>kernelInit\<close> asks for.\<close>

lemma kernel_heap_view:
  "\<exists>h. heapInit_blocks (\<lambda>_. 0) 0x100000 0x500000 = Inr h \<and>
       heap_view h [(0, -2), (2, 1310716), (1310718, -2)]"
proof -
  have "uint ((0x500000 :: u32) div 4) = 1310720" by simp
  from heap_init_view [OF this [symmetric], of "0x100000" "\<lambda>_. 0"] show ?thesis by simp
qed



text \<open>
  C2. \<^verbatim>\<open>free\<close> of a taken block, given the pointer \<^verbatim>\<open>malloc\<close> returned for it, never faults.
  The boundary-tag merge with the two neighbours has the effect of releasing the block and
  then joining all adjacent free blocks of the whole heap; the result is consistent again,
  so no two free blocks are ever adjacent, and no cell of another taken block has changed.
\<close>

theorem free_correct:
  assumes "heap_view h bs" and "live h bs i s"
  shows "\<exists>h'. free h (ptr_of h i) = Inr h' \<and> heap_view h' (coalesce (release i bs)) \<and>
    (\<forall>k. outside_free (release i bs) k \<longrightarrow> array h' k = array h k)"
proof -
  from free_view [OF assms] obtain h' where "free h (ptr_of h i) = Inr h'" "heap_view h' (coalesce (release i bs))"
    "\<And>k. outside_free (release i bs) k \<Longrightarrow> array h' k = array h k" by blast
  then show ?thesis by blast
qed

theorem free_correct_witness:
  "\<exists>h bs i s. heap_view h bs \<and> live h bs i s \<and>
     (\<exists>h'. free h (ptr_of h i) = Inr h' \<and> heap_view h' (coalesce (release i bs)) \<and>
       (\<forall>k. outside_free (release i bs) k \<longrightarrow> array h' k = array h k))"
proof -
  let ?bs = "[(0, -2), (2, 1310716), (1310718, -2)] :: (int \<times> int) list"
  have n: "ints_of 10 = 5" using ints_of_eq [of 10] by simp
  from kernel_heap_view obtain h where h: "heap_view h ?bs" by blast
  show ?thesis
  proof (cases rule: malloc_view [OF h, of 10])
    case (3 it b h')
    then have it: "it = 2" "b = 1310716" by (auto simp: n)
    with 3 have h': "heap_view h' (alloc_at 2 5 ?bs)" "len h' = len h"
      by (auto simp: n same_place_def)
    have "len h = 1310720" using heap_viewD(1) [OF h] by simp
    then have l: "live h' (alloc_at 2 5 ?bs) 2 5" using h'(2) by (simp add: live_def)
    from free_correct [OF h'(1) l] h'(1) l show ?thesis by blast
  qed (auto simp: n)
qed

text \<open>
  C3. Nested use of the heap leaves no trace in its block structure: after any sequence of
  successful allocations, freeing the blocks in reverse order restores exactly the block
  list the sequence started from.
\<close>

theorem nested_allocations_restore:
  assumes "heap_at h v" and "alloc_seq malloc h ns = Inr (ps, h')" and "0 \<notin> set ps"
  shows "\<exists>h2. dealloc_seq free h' (rev ps) = Inr h2 \<and> heap_at h2 v"
  using assms by (rule kernel_heap.nested_use)

theorem nested_allocations_restore_witness:
  "\<exists>h v p h'. heap_at h v \<and> alloc_seq malloc h [10] = Inr ([p], h') \<and> 0 \<notin> set [p] \<and>
     (\<exists>h2. dealloc_seq free h' (rev [p]) = Inr h2 \<and> heap_at h2 v)"
proof -
  let ?bs = "[(0, -2), (2, 1310716), (1310718, -2)] :: (int \<times> int) list"
  have n: "ints_of 10 = 5" using ints_of_eq [of 10] by simp
  from kernel_heap_view obtain h where h: "heap_view h ?bs" by blast
  then have v: "heap_at h (base h, len h, ?bs)" by (simp add: heap_at_def)
  show ?thesis
  proof (cases rule: malloc_view [OF h, of 10])
    case (3 it b h')
    then have a: "alloc_seq malloc h [10] = Inr ([ptr_of h it], h')" "0 \<notin> set [ptr_of h it]" by simp_all
    from nested_allocations_restore [OF v a] v a show ?thesis by blast
  qed (auto simp: n)
qed

text \<open>
  The search takes a smallest block among the candidates it looks at, which are the
  first twenty free blocks of sufficient size in free-list order; with at most twenty of
  them the choice is a best fit over the whole heap.
\<close>

theorem malloc_best_fit:
  assumes "heap_inv h bs fl" and "bytes \<noteq> 0" and "length (filter (\<lambda>p. ints_of bytes \<le> array h p) fl) \<le> 20"
    and "malloc h bytes = Inr (p, h')" and "h' \<noteq> h"
  shows "\<exists>i b. p = ptr_of h i \<and> (i, b) \<in> set bs \<and> ints_of bytes \<le> b \<and>
    (\<forall>(j, c)\<in>set bs. ints_of bytes \<le> c \<longrightarrow> b \<le> c)"
proof (cases rule: malloc_cases [OF assms(1,2)])
  case 1
  with assms(4,5) show ?thesis by simp
next
  case (2 it h1 fl')
  have cand: "candidates (array h) (ints_of bytes) fl = filter (\<lambda>p. ints_of bytes \<le> array h p) fl"
    using assms(3) by (simp add: candidates_def)
  have "array h it \<le> c" if "(j, c) \<in> set bs" "ints_of bytes \<le> c" for j c
  proof -
    have "0 < c" using that(2) ints_of_ge [of bytes] by simp
    then have "j \<in> set fl" using that(1) heap_invD(2) [OF assms(1)] by (auto simp: avail_of_def)
    moreover have "array h j = c" using that(1) heap_invD(7) [OF assms(1)] by (auto simp: tagged_iff)
    ultimately show ?thesis using 2(4) that(2) cand by auto
  qed
  then show ?thesis using 2(2,3,5) assms(4) by auto
qed

theorem malloc_best_fit_witness:
  "\<exists>h bs fl p h'. heap_inv h bs fl \<and> malloc h 10 = Inr (p, h') \<and> h' \<noteq> h \<and>
     (\<exists>i b. p = ptr_of h i \<and> (i, b) \<in> set bs \<and> ints_of 10 \<le> b \<and>
       (\<forall>(j, c)\<in>set bs. ints_of 10 \<le> c \<longrightarrow> b \<le> c))"
proof -
  have n: "ints_of 10 = 5" using ints_of_eq [of 10] by simp
  have "1310720 = uint ((0x500000 :: u32) div 4)" by simp
  from heapInit_blocks_inv [OF this, of "\<lambda>_. 0" "0x100000"] obtain h where
    h: "heap_inv h [(0, -2), (2, 1310716), (1310718, -2)] [2]" "base h = 0x100000" "len h = 1310720" by auto
  show ?thesis
  proof (cases rule: malloc_cases [OF h(1), of 10])
    case (3 it h' fl')
    have "h' \<noteq> h"
    proof
      assume "h' = h"
      from heap_invD(7) [OF 3(7)] heap_invD(7) [OF h(1)] 3(1) this n show False by simp
    qed
    moreover have "length (filter (\<lambda>p. ints_of 10 \<le> array h p) [2]) \<le> 20" by simp
    moreover have "(10 :: u32) \<noteq> 0" by simp
    ultimately show ?thesis using malloc_best_fit [OF h(1) _ _ 3(5)] h(1) 3(5) by blast
  qed (use heap_inv_free [OF h(1), of 2] heap_invD(7) [OF h(1)] n in auto)
qed

text \<open>
  The size computation of \<^verbatim>\<open>malloc\<close>: a request that leaves room for rounding up gets a
  block whose payload holds it; the last three sizes below \<open>2\<^sup>3\<^sup>2\<close> wrap around and are
  treated as the smallest request, so \<^verbatim>\<open>malloc(0xFFFFFFFF)\<close> can succeed with two cells.
\<close>

theorem malloc_request_size:
  "if uint bytes + 3 < 2 ^ 32 then uint bytes \<le> 4 * (ints_of bytes - 2) else ints_of bytes = 4"
proof (cases "uint bytes + 3 < 2 ^ 32")
  case True
  then show ?thesis unfolding ints_of_eq [OF True] by (simp add: max_def) presburger
next
  case False
  have "uint bytes < 2 ^ 32" using uint_lt2p [of bytes] by simp
  with False have "uint bytes = 2 ^ 32 - 3 \<or> uint bytes = 2 ^ 32 - 2 \<or> uint bytes = 2 ^ 32 - 1" by auto
  then have "bytes = 4294967293 \<or> bytes = 4294967294 \<or> bytes = 4294967295" by (simp add: word_uint_eq_iff)
  then show ?thesis using False by (auto simp: ints_of_def)
qed

text \<open>
  \<^verbatim>\<open>heapInit\<close>, on any memory contents, sets up a consistent heap of two taken sentinels
  around one free block and allocates the heap lock from its start.
\<close>

theorem heapInit_correct:
  assumes "n = uint (bytes div 4)" "8 \<le> n" "n \<le> 2 ^ 29" "0 < b" "uint b + 4 * n \<le> 2 ^ 32"
    and "lockBytes \<noteq> 0" "ints_of lockBytes \<le> n - 4"
  shows "\<exists>h. heapInit lockBytes m b bytes = Inr h \<and> theLock h = Some (b + 12) \<and>
    heap_view h (alloc_at 2 (ints_of lockBytes) [(0, -2), (2, n - 4), (n - 2, -2)])"
proof -
  from heapInit_blocks_inv [OF assms(1-3)] obtain h where h: "heapInit_blocks m b bytes = Inr h" "base h = b"
    "len h = n" "heap_inv h [(0, -2), (2, n - 4), (n - 2, -2)] [2]" by blast
  with assms(4,5) have v: "heap_view h [(0, -2), (2, n - 4), (n - 2, -2)]"
    by (auto simp: heap_view_def placed_def)
  show ?thesis
  proof (cases rule: malloc_view [OF v assms(6)])
    case (2 it c h')
    then have it: "it = 2" using ints_of_ge [of lockBytes] by auto
    have "ptr_of h 2 = b + 12" using h(2) by (simp add: ptr_of_def)
    moreover have "heap_view (h'\<lparr>theLock := Some (b + 12)\<rparr>)
        (alloc_at 2 (ints_of lockBytes) [(0, -2), (2, n - 4), (n - 2, -2)])"
      using 2(10) it by (simp add: heap_view_def heap_inv_def placed_def)
    ultimately show ?thesis using h(1) 2(3,4) it by (auto simp: heapInit_def operator_new_def)
  qed (use assms(7) in auto)
qed

theorem heapInit_correct_witness:
  "\<exists>h. heapInit 32 (\<lambda>_. 0) 0x100000 0x500000 = Inr h \<and> theLock h = Some (0x100000 + 12) \<and>
     heap_view h (alloc_at 2 (ints_of 32) [(0, -2), (2, 1310720 - 4), (1310720 - 2, -2)])"
  using ints_of_eq [of 32] by (intro heapInit_correct) simp_all

lemma payload_write:
  assumes "heap_view h bs" and "(i, - s) \<in> set bs" and "i < k" "k < i + s - 1"
  shows "heap_view (h\<lparr>array := (array h)(k := v)\<rparr>) bs"
proof -
  from assms(1) obtain fl where I: "heap_inv h bs fl" and p: "placed h" by (auto simp: heap_view_def)
  note c = heap_invD [OF I]
  have s: "0 < s" using assms(3,4) by simp
  have "k \<noteq> x + 1 \<and> k \<noteq> x + 2" if x: "x \<in> set fl" for x
  proof -
    from heap_inv_free [OF I x] have f: "(x, array h x) \<in> set bs" "4 \<le> array h x" by auto
    from tiles_disjoint [OF c(6) assms(2) f(1)] f(2) s assms(3,4) show ?thesis by auto
  qed
  then have "dseg ((array h)(k := v)) 0 (avail h) fl 0" using c(1) by (simp add: core_def)
  moreover have "tagged ((array h)(k := v)) bs"
    using tagged_update_inside [OF c(6) assms(2,3)] assms(4) s c(7) by simp
  ultimately have "heap_inv (h\<lparr>array := (array h)(k := v)\<rparr>) bs fl" using I by (simp add: heap_inv_def core_def)
  with p show ?thesis by (auto simp: heap_view_def placed_def)
qed

text \<open>
  A client that writes inside the payload of a taken block, between its two tags, keeps
  the heap consistent for the same view.
\<close>

theorem payload_write_keeps_heap:
  assumes "heap_view h bs" and "(i, - s) \<in> set bs" and "i < k" "k < i + s - 1"
  shows "heap_view (h\<lparr>array := (array h)(k := v)\<rparr>) bs"
  using assms by (rule payload_write)

theorem payload_write_keeps_heap_witness:
  "\<exists>h. heap_view h (alloc_at 2 (ints_of 32) [(0, -2), (2, 1310716), (1310718, -2)]) \<and>
     heap_view (h\<lparr>array := (array h)(3 := 7)\<rparr>) (alloc_at 2 (ints_of 32) [(0, -2), (2, 1310716), (1310718, -2)])"
proof -
  let ?bs = "[(0, -2), (2, 1310716), (1310718, -2)] :: (int \<times> int) list"
  have n: "ints_of 32 = 10" using ints_of_eq [of 32] by simp
  from kernel_heap_view obtain h where h: "heap_view h ?bs" by blast
  show ?thesis
  proof (cases rule: malloc_view [OF h, of 32])
    case (3 it b h')
    then have h': "heap_view h' (alloc_at 2 (ints_of 32) ?bs)" by (auto simp: n)
    from payload_write_keeps_heap [OF h', of 2 10 3 7] h' show ?thesis by (auto simp: n)
  qed (auto simp: n)
qed

end
