(* ===== verification/User_Heap.thy ===== *)
theory User_Heap
  imports Heap_Correct
begin

text \<open>
  The heap of user programs, \<^verbatim>\<open>src/t0.dir/sbin/heap.c\<close>: the block structure of the kernel heap
  in a static array of \<open>0x100000\<close> cells, with a first-fit \<^verbatim>\<open>malloc\<close>, checks that never stop the
  program, and \<^verbatim>\<open>realloc\<close>. The state is the record of the kernel heap; there is no lock.
\<close>

section \<open>Blocks\<close>

definition INTS :: int where
  "INTS = 0x100000"

definition u_safe :: int where
  "u_safe = 1"

definition u_abs :: "int \<Rightarrow> int" where
  "u_abs x = (if x < 0 then - x else x)"

definition u_size :: "heap \<Rightarrow> int \<Rightarrow> int result" where
  "u_size h i = bindR (rd h i) (\<lambda>v. Inr (u_abs v))"

definition u_headerFromFooter :: "heap \<Rightarrow> int \<Rightarrow> int result" where
  "u_headerFromFooter h i = bindR (u_size h i) (\<lambda>s. Inr (i - s + 1))"

definition u_footerFromHeader :: "heap \<Rightarrow> int \<Rightarrow> int result" where
  "u_footerFromHeader h i = bindR (u_size h i) (\<lambda>s. Inr (i + s - 1))"

definition u_sanity :: "heap \<Rightarrow> int \<Rightarrow> int result" where
  "u_sanity h i =
     (if u_safe \<noteq> 0 then
        if i = 0 then Inr 0
        else if i < 0 \<or> i \<ge> len h then Inr i
        else bindR (u_footerFromHeader h i) (\<lambda>footer.
          if footer < 0 \<or> footer \<ge> len h then Inr i
          else bindR (rd h i) (\<lambda>hv. bindR (rd h footer) (\<lambda>fv.
            if hv \<noteq> fv then Inr i else Inr i)))
      else Inr i)"

definition u_left :: "heap \<Rightarrow> int \<Rightarrow> int result" where
  "u_left h i = bindR (u_headerFromFooter h (i - 1)) (u_sanity h)"

definition u_right :: "heap \<Rightarrow> int \<Rightarrow> int result" where
  "u_right h i = bindR (u_size h i) (\<lambda>s. u_sanity h (i + s))"

definition next1 :: "heap \<Rightarrow> int \<Rightarrow> int result" where
  "next1 h i = bindR (rd h (i + 1)) (u_sanity h)"

definition prev1 :: "heap \<Rightarrow> int \<Rightarrow> int result" where
  "prev1 h i = bindR (rd h (i + 2)) (u_sanity h)"

definition u_next :: "heap \<Rightarrow> int \<Rightarrow> int \<Rightarrow> heap result" where
  "u_next h i x = wr h (i + 1) x"

definition u_prev :: "heap \<Rightarrow> int \<Rightarrow> int \<Rightarrow> heap result" where
  "u_prev h i x = wr h (i + 2) x"

definition u_remove :: "heap \<Rightarrow> int \<Rightarrow> heap result" where
  "u_remove h i =
     bindR (prev1 h i) (\<lambda>prevIndex.
     bindR (next1 h i) (\<lambda>nextIndex.
     bindR (if prevIndex = 0 then Inr (h\<lparr>avail := nextIndex\<rparr>)
            else u_next h prevIndex nextIndex) (\<lambda>h1.
     if nextIndex \<noteq> 0 then u_prev h1 nextIndex prevIndex else Inr h1)))"

definition u_makeAvail :: "heap \<Rightarrow> int \<Rightarrow> int \<Rightarrow> heap result" where
  "u_makeAvail h i ints =
     bindR (wr h i ints) (\<lambda>h1.
     bindR (u_footerFromHeader h1 i) (\<lambda>f.
     bindR (wr h1 f ints) (\<lambda>h2.
     bindR (u_next h2 i (avail h2)) (\<lambda>h3.
     bindR (u_prev h3 i 0) (\<lambda>h4.
     bindR (if avail h4 \<noteq> 0 then u_prev h4 (avail h4) i else Inr h4) (\<lambda>h5.
     Inr (h5\<lparr>avail := i\<rparr>)))))))"

definition u_makeTaken :: "heap \<Rightarrow> int \<Rightarrow> int \<Rightarrow> heap result" where
  "u_makeTaken h i ints =
     bindR (wr h i (- ints)) (\<lambda>h1.
     bindR (u_footerFromHeader h1 i) (\<lambda>f.
     wr h1 f (- ints)))"

definition u_isAvail :: "heap \<Rightarrow> int \<Rightarrow> bool result" where
  "u_isAvail h i = bindR (rd h i) (\<lambda>v. Inr (v > 0))"

definition u_isTaken :: "heap \<Rightarrow> int \<Rightarrow> bool result" where
  "u_isTaken h i = bindR (rd h i) (\<lambda>v. Inr (v < 0))"

section \<open>The operations\<close>

text \<open>The static array starts out as zeros; the program calls \<^verbatim>\<open>heap_init\<close> first.\<close>

definition heap_init :: "u32 \<Rightarrow> heap result" where
  "heap_init b =
     (let h = \<lparr>base = b, array = (\<lambda>_. 0), len = INTS, avail = 0, theLock = None\<rparr> in
      bindR (u_makeTaken h 0 2) (\<lambda>h1.
      bindR (u_makeAvail h1 2 (len h1 - 4)) (\<lambda>h2.
      u_makeTaken h2 (len h2 - 2) 2)))"

definition u_ints_of :: "u32 \<Rightarrow> int" where
  "u_ints_of bytes = (let ints = sint ((bytes + 3) div 4 + 2) in if ints < 4 then 4 else ints)"

text \<open>
  The loop of \<^verbatim>\<open>malloc\<close>, which takes the first block of the free list that is large enough;
  the fuel bounds the number of blocks visited.
\<close>

fun first_fit :: "nat \<Rightarrow> heap \<Rightarrow> int \<Rightarrow> int \<Rightarrow> (u32 \<times> heap) result" where
  "first_fit 0 h ints p = Inl Diverges"
| "first_fit (Suc fuel) h ints p =
     (if p = 0 then Inr (0, h)
      else bindR (u_isAvail h p) (\<lambda>_.
        bindR (u_size h p) (\<lambda>sz.
        if sz \<ge> ints then
          bindR (u_remove h p) (\<lambda>h1.
          let extra = sz - ints in
          bindR (if extra \<ge> 4 then
                   bindR (u_makeTaken h1 p ints) (\<lambda>h2. u_makeAvail h2 (p + ints) extra)
                 else u_makeTaken h1 p sz) (\<lambda>h3.
          Inr (base h3 + 4 * of_int (p + 1), h3)))
        else bindR (next1 h p) (first_fit fuel h ints))))"

definition u_malloc :: "heap \<Rightarrow> u32 \<Rightarrow> (u32 \<times> heap) result" where
  "u_malloc h bytes =
     (if bytes = 0 then Inr (base h, h)
      else
        let ints = u_ints_of bytes in
        bindR (u_sanity h (avail h)) (\<lambda>_.
        first_fit (Suc (nat (len h))) h ints (avail h)))"

text \<open>\<^verbatim>\<open>((long) p - (long) array) / 4 - 1\<close>, a signed division.\<close>

definition u_idx_of :: "heap \<Rightarrow> u32 \<Rightarrow> int" where
  "u_idx_of h p = (let d = sint (p - base h) in (if d < 0 then - (- d div 4) else d div 4) - 1)"

definition u_free :: "heap \<Rightarrow> u32 \<Rightarrow> heap result" where
  "u_free h p =
     (if p = 0 then Inr h
      else if p = base h then Inr h
      else
        let idx = u_idx_of h p in
        bindR (u_sanity h idx) (\<lambda>_.
        bindR (u_isTaken h idx) (\<lambda>t.
        if \<not> t then Inr h
        else
          bindR (u_size h idx) (\<lambda>sz.
          bindR (u_left h idx) (\<lambda>leftIndex.
          bindR (u_right h idx) (\<lambda>rightIndex.
          bindR (bindR (u_isAvail h leftIndex) (\<lambda>a.
                   if a then
                     bindR (u_remove h leftIndex) (\<lambda>h1.
                     bindR (u_size h1 leftIndex) (\<lambda>s. Inr (h1, leftIndex, sz + s)))
                   else Inr (h, idx, sz))) (\<lambda>(h1, idx1, sz1).
          bindR (bindR (u_isAvail h1 rightIndex) (\<lambda>a.
                   if a then
                     bindR (u_remove h1 rightIndex) (\<lambda>h2.
                     bindR (u_size h2 rightIndex) (\<lambda>s. Inr (h2, sz1 + s)))
                   else Inr (h1, sz1))) (\<lambda>(h2, sz2).
          u_makeAvail h2 idx1 sz2))))))))"

text \<open>
  The bytes of the array, little endian, and \<^verbatim>\<open>memcpy\<close> of \<^verbatim>\<open>machine.S\<close>, which copies byte by
  byte from the lowest address on.
\<close>

definition get_byte :: "heap \<Rightarrow> int \<Rightarrow> int result" where
  "get_byte h a = bindR (rd h (a div 4)) (\<lambda>v. Inr (v div 2 ^ nat (8 * (a mod 4)) mod 256))"

definition set_byte :: "heap \<Rightarrow> int \<Rightarrow> int \<Rightarrow> heap result" where
  "set_byte h a b =
     bindR (rd h (a div 4)) (\<lambda>v.
     let k = 2 ^ nat (8 * (a mod 4)) in
     wr h (a div 4) (i32 (v - (v div k mod 256) * k + b * k)))"

fun copy_bytes :: "nat \<Rightarrow> int \<Rightarrow> int \<Rightarrow> heap \<Rightarrow> heap result" where
  "copy_bytes 0 dest src h = Inr h"
| "copy_bytes (Suc n) dest src h =
     bindR (get_byte h src) (\<lambda>b. bindR (set_byte h dest b) (copy_bytes n (dest + 1) (src + 1)))"

definition u_realloc :: "heap \<Rightarrow> u32 \<Rightarrow> u32 \<Rightarrow> (u32 \<times> heap) result" where
  "u_realloc h p newSize =
     (if p = 0 then u_malloc h newSize
      else if newSize = 0 then bindR (u_free h p) (\<lambda>h1. Inr (0, h1))
      else
        let idx = u_idx_of h p in
        bindR (u_sanity h idx) (\<lambda>_.
        bindR (u_isTaken h idx) (\<lambda>t.
        if \<not> t then Inr (0, h)
        else
          bindR (u_size h idx) (\<lambda>s.
          let sz = i32 (s * 4) in
          bindR (u_malloc h newSize) (\<lambda>(newPtr, h1).
          bindR (if newPtr \<noteq> 0 then
                   (let m = (if newSize > word_of_int sz then sz else sint newSize)
                    in copy_bytes (nat m) (uint (newPtr - base h)) (uint (p - base h)) h1)
                 else Inr h1) (\<lambda>h2.
          bindR (u_free h2 p) (\<lambda>h3. Inr (newPtr, h3))))))))"

section \<open>The block operations are those of the kernel heap\<close>

lemma u_sanity_eq [simp]: "u_sanity h i = Inr i"
  by (simp add: u_sanity_def u_footerFromHeader_def u_size_def rd_def)

lemma u_sanity_fun [simp]: "u_sanity = sanity"
  by (simp add: fun_eq_iff)

lemma u_size_eq: "u_size = size_of"
proof -
  have "u_abs = iabs" by (simp add: fun_eq_iff u_abs_def)
  then show ?thesis by (simp add: fun_eq_iff u_size_def size_of_def)
qed

lemma u_next_eq [simp]: "u_next = setNext" "u_prev = setPrev"
  by (simp_all add: fun_eq_iff u_next_def u_prev_def setNext_def setPrev_def)

lemmas u_unfold = u_headerFromFooter_def u_footerFromHeader_def u_left_def u_right_def next1_def prev1_def
  u_remove_def u_makeAvail_def u_makeTaken_def u_isAvail_def u_isTaken_def
lemmas k_unfold = headerFromFooter_def footerFromHeader_def left_def right_def next_of_def prev_of_def
  remove_def makeAvail_def makeTaken_def isAvail_def isTaken_def

lemma u_blocks:
  "u_headerFromFooter = headerFromFooter" "u_footerFromHeader = footerFromHeader" "u_left = left"
  "u_right = right" "next1 = next_of" "prev1 = prev_of" "u_remove = remove" "u_makeAvail = makeAvail"
  "u_makeTaken = makeTaken" "u_isAvail = isAvail" "u_isTaken = isTaken"
  by (simp_all add: fun_eq_iff u_unfold k_unfold u_size_eq cong: if_cong)

lemma u_ints_of_eq: "u_ints_of = ints_of"
  by (simp add: fun_eq_iff u_ints_of_def ints_of_def)

section \<open>malloc\<close>

declare first_fit.simps(2) [simp del]

lemma first_fit_eq:
  assumes "dseg (array h) pr p ys 0" "length ys < fuel"
    "\<forall>y\<in>set ys. 0 < y \<and> y + 1 < len h \<and> 0 < array h y"
  shows "first_fit fuel h n p =
    (case find (\<lambda>p. n \<le> array h p) ys of None \<Rightarrow> Inr (0, h)
     | Some it \<Rightarrow> bindR (take_block h it n (array h it)) (\<lambda>h3. Inr (base h3 + 4 * of_int (it + 1), h3)))"
  using assms
proof (induction ys arbitrary: fuel pr p)
  case Nil
  then show ?case by (cases fuel) (auto simp: first_fit.simps)
next
  case (Cons y ys)
  from Cons.prems obtain fuel' where fuel: "fuel = Suc fuel'" by (cases fuel) auto
  let ?f = "array h"
  from Cons.prems have y: "p = y" "0 < y" "y + 1 < len h" "0 < ?f y"
    and d: "dseg ?f y (?f (y + 1)) ys 0" and l: "length ys < fuel'"
    and r: "\<forall>y\<in>set ys. 0 < y \<and> y + 1 < len h \<and> 0 < ?f y" using fuel by auto
  have step: "isAvail h y = Inr True" "size_of h y = Inr (?f y)" "next_of h y = Inr (?f (y + 1))"
    using y by (simp_all add: isAvail_def next_of_def array_simps)
  show ?case
    using Cons.IH [OF d l r] y step unfolding fuel
    by (simp add: first_fit.simps u_blocks u_size_eq take_block_def bindR_assoc Let_def cong: if_cong)
qed

lemma u_malloc_cases:
  assumes I: "heap_inv h bs fl" and b: "bytes \<noteq> 0"
  obtains (full) "u_malloc h bytes = Inr (0, h)" "\<forall>p\<in>set fl. array h p < ints_of bytes"
  | (fits) it h' fl' where "find (\<lambda>p. ints_of bytes \<le> array h p) fl = Some it"
      "it \<in> set fl" "(it, array h it) \<in> set bs" "ints_of bytes \<le> array h it"
      "u_malloc h bytes = Inr (ptr_of h it, h')" "same_place h h'"
      "heap_inv h' (alloc_at it (ints_of bytes) bs) fl'"
      "\<And>k. outside_free bs k \<Longrightarrow> array h' k = array h k"
proof -
  let ?n = "ints_of bytes"
  note c = heap_invD [OF I]
  have d: "dseg (array h) 0 (avail h) fl 0" using c(1) by (simp add: core_def)
  have rng: "\<forall>y\<in>set fl. 0 < y \<and> y + 1 < len h \<and> 0 < array h y"
    using heap_inv_free [OF I] by force
  then have "set fl \<subseteq> {0..<len h}" by auto
  then have "card (set fl) \<le> nat (len h)" using card_mono [of "{0..<len h}"] by fastforce
  then have "length fl < Suc (nat (len h))" using c(1) by (simp add: core_def distinct_card)
  note ff = first_fit_eq [OF d this rng, of ?n]
  have eq: "u_malloc h bytes = (case find (\<lambda>p. ?n \<le> array h p) fl of None \<Rightarrow> Inr (0, h)
     | Some it \<Rightarrow> bindR (take_block h it ?n (array h it)) (\<lambda>h3. Inr (base h3 + 4 * of_int (it + 1), h3)))"
    using b ff by (simp add: u_malloc_def Let_def u_ints_of_eq)
  show ?thesis
  proof (cases "find (\<lambda>p. ?n \<le> array h p) fl")
    case None
    show ?thesis by (rule full) (use eq None in \<open>auto simp: find_None_iff not_le\<close>)
  next
    case (Some it)
    then have it: "it \<in> set fl" "?n \<le> array h it" by (auto simp: find_Some_iff)
    from heap_inv_free [OF I it(1)] have bs: "(it, array h it) \<in> set bs" by simp
    from take_block_inv [OF I it(1) bs ints_of_ge it(2)] obtain h' fl' where
      t: "take_block h it ?n (array h it) = Inr h'" "same_place h h'" "heap_inv h' (alloc_at it ?n bs) fl'"
      "\<And>k. outside_free bs k \<Longrightarrow> array h' k = array h k" by blast
    have "u_malloc h bytes = Inr (ptr_of h it, h')"
      using eq Some t(1,2) by (simp add: ptr_of_def same_place_def)
    then show ?thesis using fits [OF Some it(1) bs it(2) _ t(2,3)] t(4) by blast
  qed
qed

lemma u_malloc_view:
  assumes v: "heap_view h bs" and b: "bytes \<noteq> 0"
  obtains (full) "u_malloc h bytes = Inr (0, h)" "\<forall>(i, b)\<in>set bs. b < ints_of bytes"
  | (fits) it b h' where "(it, b) \<in> set bs" "ints_of bytes \<le> b" "u_malloc h bytes = Inr (ptr_of h it, h')"
      "ptr_of h it \<noteq> 0" "ptr_of h it \<noteq> base h" "idx_of h (ptr_of h it) = it" "0 < it" "it + b \<le> len h - 2"
      "same_place h h'" "heap_view h' (alloc_at it (ints_of bytes) bs)"
      "\<And>k. outside_free bs k \<Longrightarrow> array h' k = array h k"
proof -
  from v obtain fl where I: "heap_inv h bs fl" and p: "placed h" by (auto simp: heap_view_def)
  show ?thesis
  proof (cases rule: u_malloc_cases [OF I b])
    case 1
    with full_view [OF I 1(2) ints_of_ge] that(1) show ?thesis by blast
  next
    case (2 it h' fl')
    note f = fits_view [OF I p 2(2,3,6,7)]
    show ?thesis by (rule that(2) [OF 2(3,4,5) f(1-5) 2(6) f(6) 2(8)])
  qed
qed

section \<open>free\<close>

text \<open>
  Where the kernel's \<^verbatim>\<open>free\<close> returns, the user's does the same; where that panics because the
  block is free, the user's ignores the call.
\<close>

lemma u_free_eq:
  assumes "u_idx_of h p = idx_of h p"
  shows "u_free h p = (if p \<noteq> 0 \<and> p \<noteq> base h \<and> isTaken h (idx_of h p) = Inr False then Inr h else free h p)"
proof (cases "p = 0 \<or> p = base h")
  case True
  then show ?thesis by (auto simp: u_free_def free_def)
next
  case False
  then show ?thesis
    unfolding u_free_def free_def assms Let_def u_blocks u_size_eq u_sanity_fun
    by (cases "isTaken h (idx_of h p)") auto
qed

lemma u_idx_of_ptr_of:
  assumes "0 \<le> i" "i + 1 < 2 ^ 29"
  shows "u_idx_of h (ptr_of h i) = i"
proof -
  have "sint (of_int (4 * (i + 1)) :: u32) = 4 * (i + 1)" using assms by (intro sint_small_of_int) simp_all
  then have "sint (ptr_of h i - base h) = 4 * (i + 1)" by (simp add: ptr_of_def)
  then show ?thesis using assms(1) by (simp add: u_idx_of_def Let_def)
qed

lemma u_free_ptr:
  assumes "heap_view h bs" "(i, b) \<in> set bs" "0 \<le> i" "i + 1 < len h" "free h (ptr_of h i) = Inr h'"
  shows "u_free h (ptr_of h i) = Inr h'"
proof -
  have l: "len h \<le> 2 ^ 29" by (rule heap_viewD(5) [OF assms(1)])
  have eq: "u_idx_of h (ptr_of h i) = idx_of h (ptr_of h i)"
    using u_idx_of_ptr_of [of i h] idx_of_ptr_of [of i h] assms(3,4) l by simp
  show ?thesis
  proof (cases "ptr_of h i = 0 \<or> ptr_of h i = base h")
    case True
    have "ptr_of h i = base h \<Longrightarrow> free h (ptr_of h i) = Inr h" "ptr_of h i = 0 \<Longrightarrow> free h (ptr_of h i) = Inr h"
      by (simp_all only: free_base) (simp add: free_def)
    with True assms(5) have "h' = h" by auto
    with True show ?thesis by (auto simp: u_free_def)
  next
    case False
    then have "isTaken h (idx_of h (ptr_of h i)) \<noteq> Inr False"
      using assms(5) by (auto simp: free_def Let_def bindR_eq_Inr split: if_splits)
    then show ?thesis unfolding u_free_eq [OF eq] using assms(5) by simp
  qed
qed

section \<open>The allocator interface\<close>

lemma u_malloc_then_free:
  assumes v: "heap_at h v" and m: "u_malloc h n = Inr (p, h')" and p: "p \<noteq> 0"
  shows "\<exists>v'. heap_at h' v' \<and> (\<forall>h2. heap_at h2 v' \<longrightarrow> (\<exists>h3. u_free h2 p = Inr h3 \<and> heap_at h3 v))"
proof (cases "n = 0")
  case True
  with m have "p = base h" "h' = h" by (auto simp: u_malloc_def)
  with v have "heap_at h' v" "\<And>h2. heap_at h2 v \<Longrightarrow> u_free h2 p = Inr h2"
    by (auto simp: heap_at_def u_free_def)
  then show ?thesis by blast
next
  case False
  obtain b L bs where vv: "v = (b, L, bs)" by (cases v) auto
  with v have h: "base h = b" "len h = L" "heap_view h bs" by (auto simp: heap_at_def)
  show ?thesis
  proof (cases rule: u_malloc_view [OF h(3) False])
    case 1
    with m p show ?thesis by simp
  next
    case (2 it c h1)
    note fits = this
    let ?v = "(b, L, alloc_at it (ints_of n) bs)"
    from fits(3) m have eq: "p = ptr_of h it" "h' = h1" by auto
    have "heap_at h' ?v" using fits(9,10) eq h by (simp add: heap_at_def same_place_def)
    moreover have "\<exists>h3. u_free h2 p = Inr h3 \<and> heap_at h3 v" if h2: "heap_at h2 ?v" for h2
    proof -
      have e: "base h2 = base h" "len h2 = len h" "heap_view h2 (alloc_at it (ints_of n) bs)" "ptr_of h2 it = p"
        using h2 h eq by (auto simp: heap_at_def ptr_of_def)
      obtain h3 where h3: "free h2 p = Inr h3" "same_place h2 h3" "heap_view h3 bs"
        using give_back [OF h(3) fits(1) ints_of_ge fits(2,7,8) e(1-3)] eq by auto
      have "same_place h (h2\<lparr>theLock := theLock h\<rparr>)" using e by (simp add: same_place_def)
      from alloc_at_live [OF h(3) fits(1) ints_of_ge fits(2,7,8) this] obtain s where
        "(it, - s) \<in> set (alloc_at it (ints_of n) bs)" by (auto simp: live_def)
      then have "u_free h2 p = Inr h3"
        using u_free_ptr [OF e(3), of it "- s" h3] fits(7,8) ints_of_ge [of n] fits(2) h3(1) e by simp
      then show ?thesis using h3(2,3) e h by (auto simp: heap_at_def vv same_place_def)
    qed
    ultimately show ?thesis by blast
  qed
qed

interpretation user_heap: allocator u_malloc u_free heap_at 0
proof unfold_locales
  fix h v n
  assume "heap_at h v"
  then have v: "heap_view h (snd (snd v))" by (simp add: heap_at_def)
  show "\<exists>p h'. u_malloc h n = Inr (p, h')"
  proof (cases "n = 0")
    case False
    show ?thesis by (cases rule: u_malloc_view [OF v False]) auto
  qed (simp add: u_malloc_def)
next
  fix h v n h'
  assume "heap_at h v" and m: "u_malloc h n = Inr (0, h')"
  then have v: "heap_view h (snd (snd v))" by (simp add: heap_at_def)
  show "h' = h"
  proof (cases "n = 0")
    case True
    with m show ?thesis by (simp add: u_malloc_def)
  next
    case False
    show ?thesis by (cases rule: u_malloc_view [OF v False]) (use m in auto)
  qed
next
  fix h v n p h'
  assume "heap_at h v" "u_malloc h n = Inr (p, h')" "p \<noteq> 0"
  then show "\<exists>v'. heap_at h' v' \<and> (\<forall>h2. heap_at h2 v' \<longrightarrow> (\<exists>h3. u_free h2 p = Inr h3 \<and> heap_at h3 v))"
    by (rule u_malloc_then_free)
qed

section \<open>Properties\<close>

text \<open>
  C20. A user program's \<^verbatim>\<open>malloc\<close> takes the first block of the free list that is large enough: it
  returns null only when there is none, and otherwise the heap is consistent for the view in
  which that block is taken and no cell outside the old free blocks has changed.
\<close>
theorem user_malloc_first_fit:
  assumes "heap_inv h bs fl" "placed h" "bytes \<noteq> 0"
  shows "case find (\<lambda>p. ints_of bytes \<le> array h p) fl of
      None \<Rightarrow> u_malloc h bytes = Inr (0, h)
    | Some it \<Rightarrow> \<exists>h'. u_malloc h bytes = Inr (ptr_of h it, h') \<and> ptr_of h it \<noteq> 0 \<and>
        heap_view h' (alloc_at it (ints_of bytes) bs) \<and>
        (\<forall>k. outside_free bs k \<longrightarrow> array h' k = array h k)"
proof (cases rule: u_malloc_cases [OF assms(1,3)])
  case 1
  then have "find (\<lambda>p. ints_of bytes \<le> array h p) fl = None" by (auto simp: find_None_iff)
  with 1 show ?thesis by simp
next
  case (2 it h' fl')
  with fits_view [OF assms(1,2) 2(2,3,6,7)] show ?thesis by simp
qed

text \<open>
  C21. On a consistent heap a user program's \<^verbatim>\<open>free\<close> of a block in use does what the kernel's does,
  and where the kernel's panics because the block is free, it leaves the heap alone.
\<close>
theorem user_free_equals_kernel_free:
  assumes "heap_view h bs" "(i, b) \<in> set bs" "i \<noteq> 0" "i \<noteq> len h - 2"
  shows "(b < 0 \<longrightarrow> (\<exists>h'. u_free h (ptr_of h i) = Inr h' \<and> free h (ptr_of h i) = Inr h' \<and>
        heap_view h' (coalesce (release i bs)))) \<and>
    (0 < b \<longrightarrow> u_free h (ptr_of h i) = Inr h \<and> free h (ptr_of h i) = Inl (Panic ''freeing free block''))"
proof (intro conjI impI)
  note V = heap_viewD [OF assms(1)]
  have t: "0 \<le> i" "2 \<le> \<bar>b\<bar>" "i + \<bar>b\<bar> \<le> len h" using tiles_mem [OF V(1) assms(2)] by auto
  have ne: "ptr_of h i \<noteq> 0" "ptr_of h i \<noteq> base h" and idx: "idx_of h (ptr_of h i) = i"
    using ptr_of_ne [OF V(6), of i] idx_of_ptr_of [of i h] t V(5) by auto
  have u: "u_idx_of h (ptr_of h i) = idx_of h (ptr_of h i)"
    using u_idx_of_ptr_of [of i h] idx t V(5) by simp
  {
    assume "b < 0"
    then have "live h bs i (- b)" using assms by (simp add: live_def)
    from free_view [OF assms(1) this] obtain h' where
      "free h (ptr_of h i) = Inr h'" "heap_view h' (coalesce (release i bs))" by blast
    moreover from this have "u_free h (ptr_of h i) = Inr h'"
      using u_free_ptr [OF assms(1,2)] t by simp
    ultimately show "\<exists>h'. u_free h (ptr_of h i) = Inr h' \<and> free h (ptr_of h i) = Inr h' \<and>
        heap_view h' (coalesce (release i bs))" by blast
  next
    assume "0 < b"
    moreover have "array h i = b" using V(2) assms(2) by (auto simp: tagged_iff)
    ultimately have "isTaken h i = Inr False" using t by (simp add: isTaken_def array_simps)
    then show "u_free h (ptr_of h i) = Inr h" "free h (ptr_of h i) = Inl (Panic ''freeing free block'')"
      unfolding u_free_eq [OF u] using ne idx by (simp_all add: free_def)
  }
qed

lemma u_heap_init_view:
  assumes "0 < b" "uint b + 4 * INTS \<le> 2 ^ 32"
  shows "\<exists>h. heap_init b = Inr h \<and> heap_at h (b, INTS, [(0, -2), (2, INTS - 4), (INTS - 2, -2)]) \<and>
    heap_inv h [(0, -2), (2, INTS - 4), (INTS - 2, -2)] [2]"
proof -
  have n: "INTS = uint ((0x400000 :: u32) div 4)" by (simp add: INTS_def)
  from heapInit_blocks_inv [OF n, of "\<lambda>_. 0" b] obtain h where h: "heapInit_blocks (\<lambda>_. 0) b 0x400000 = Inr h"
    "base h = b" "len h = INTS" "heap_inv h [(0, -2), (2, INTS - 4), (INTS - 2, -2)] [2]"
    by (auto simp: INTS_def)
  moreover have "heap_init b = heapInit_blocks (\<lambda>_. 0) b 0x400000"
    unfolding heap_init_def heapInit_blocks_def u_blocks n by simp
  ultimately show ?thesis using assms by (auto simp: heap_at_def heap_view_def placed_def)
qed

text \<open>
  Whatever a program allocates after \<^verbatim>\<open>heap_init\<close> and frees in the opposite order, no call
  fails, and the blocks of its heap are in the end those \<^verbatim>\<open>heap_init\<close> made.
\<close>
theorem user_allocations_restore:
  assumes "0 < b" "uint b + 4 * INTS \<le> 2 ^ 32"
  shows "\<exists>h. heap_init b = Inr h \<and> (\<forall>ns ps h'. alloc_seq u_malloc h ns = Inr (ps, h') \<longrightarrow> 0 \<notin> set ps \<longrightarrow>
    (\<exists>h2. dealloc_seq u_free h' (rev ps) = Inr h2 \<and> heap_view h2 [(0, -2), (2, INTS - 4), (INTS - 2, -2)]))"
proof -
  from u_heap_init_view [OF assms] obtain h where h: "heap_init b = Inr h"
    "heap_at h (b, INTS, [(0, -2), (2, INTS - 4), (INTS - 2, -2)])" by blast
  show ?thesis
  proof (rule exI [of _ h], rule conjI [OF h(1)], intro allI impI)
    fix ns ps h' assume "alloc_seq u_malloc h ns = Inr (ps, h')" "0 \<notin> set ps"
    from user_heap.nested_use [OF h(2) this]
    show "\<exists>h2. dealloc_seq u_free h' (rev ps) = Inr h2 \<and> heap_view h2 [(0, -2), (2, INTS - 4), (INTS - 2, -2)]"
      by (auto simp: heap_at_def)
  qed
qed

theorem user_allocations_restore_witness:
  "\<exists>h. heap_init 0x80010000 = Inr h \<and> (\<forall>ps h'. alloc_seq u_malloc h [10, 20] = Inr (ps, h') \<longrightarrow> 0 \<notin> set ps \<longrightarrow>
    (\<exists>h2. dealloc_seq u_free h' (rev ps) = Inr h2 \<and> heap_view h2 [(0, -2), (2, INTS - 4), (INTS - 2, -2)]))"
  using user_allocations_restore [of "0x80010000"] by (simp add: INTS_def del: alloc_seq.simps dealloc_seq.simps) blast

theorem user_malloc_first_fit_witness:
  "\<exists>h h'. heap_init 0x80010000 = Inr h \<and> u_malloc h 10 = Inr (ptr_of h 2, h')"
proof -
  have n: "ints_of 10 = 5" using ints_of_eq [of 10] by simp
  have "uint (0x80010000 :: u32) + 4 * INTS \<le> 2 ^ 32" by (simp add: INTS_def)
  from u_heap_init_view [OF _ this] obtain h where
    h: "heap_init 0x80010000 = Inr h" "heap_at h (0x80010000, INTS, [(0, -2), (2, INTS - 4), (INTS - 2, -2)])"
      "heap_inv h [(0, -2), (2, INTS - 4), (INTS - 2, -2)] [2]" by auto
  have "array h 2 = INTS - 4" using heap_invD(7) [OF h(3)] by simp
  moreover have "placed h" using h(2) by (simp add: heap_at_def heap_view_def)
  ultimately show ?thesis using user_malloc_first_fit [OF h(3), of 10] h(1) n by (auto simp: INTS_def)
qed

theorem user_free_equals_kernel_free_witness:
  "\<exists>h. heap_init 0x80010000 = Inr h \<and> u_free h (ptr_of h 2) = Inr h \<and>
     free h (ptr_of h 2) = Inl (Panic ''freeing free block'')"
proof -
  have "uint (0x80010000 :: u32) + 4 * INTS \<le> 2 ^ 32" by (simp add: INTS_def)
  from u_heap_init_view [OF _ this] obtain h where
    h: "heap_init 0x80010000 = Inr h" "heap_at h (0x80010000, INTS, [(0, -2), (2, INTS - 4), (INTS - 2, -2)])" by auto
  then have "heap_view h [(0, -2), (2, INTS - 4), (INTS - 2, -2)]" "len h = INTS" by (auto simp: heap_at_def)
  from user_free_equals_kernel_free [OF this(1), of 2 "INTS - 4"] this(2) h(1)
  show ?thesis by (auto simp: INTS_def)
qed

text \<open>
  When no free block is large enough \<^verbatim>\<open>realloc\<close> returns null but has released the old block,
  whose contents the C standard keeps for the caller.
\<close>
theorem realloc_failure_frees:
  assumes "heap_view h bs" "live h bs i s" "newSize \<noteq> 0" "\<forall>(j, b)\<in>set bs. b < ints_of newSize"
  shows "\<exists>h'. u_realloc h (ptr_of h i) newSize = Inr (0, h') \<and> heap_view h' (coalesce (release i bs))"
proof -
  note V = heap_viewD [OF assms(1)]
  have i: "(i, - s) \<in> set bs" "0 < s" "i \<noteq> 0" "i \<noteq> len h - 2" using assms(2) by (auto simp: live_def)
  have t: "0 \<le> i" "2 \<le> s" "i + s \<le> len h" using tiles_mem [OF V(1) i(1)] i(2) by auto
  have ne: "ptr_of h i \<noteq> 0" "ptr_of h i \<noteq> base h" and idx: "u_idx_of h (ptr_of h i) = i"
    using ptr_of_ne [OF V(6), of i] u_idx_of_ptr_of [of i h] t V(5) by auto
  have a: "array h i = - s" using V(2) i(1) by (auto simp: tagged_iff)
  then have taken: "u_isTaken h i = Inr True" "u_size h i = Inr s"
    using t i(2) by (simp_all add: u_blocks u_size_eq isTaken_def array_simps)
  have m: "u_malloc h newSize = Inr (0, h)"
  proof (cases rule: u_malloc_view [OF assms(1,3)])
    case (2 it b h')
    with assms(4) show ?thesis by fastforce
  qed
  obtain h' where h': "free h (ptr_of h i) = Inr h'" "heap_view h' (coalesce (release i bs))"
    using free_view [OF assms(1,2)] by blast
  have "u_free h (ptr_of h i) = Inr h'" using u_free_ptr [OF assms(1) i(1)] t h'(1) by simp
  then show ?thesis using ne idx taken m h'(2) assms(3) by (simp add: u_realloc_def Let_def)
qed

theorem realloc_failure_frees_witness:
  "\<exists>h p h'. u_malloc h 10 = Inr (p, h') \<and> p \<noteq> 0 \<and> (\<exists>h2. u_realloc h' p 0x500000 = Inr (0, h2))"
proof -
  have n: "ints_of 10 = 5" "ints_of 0x500000 = 0x140002" using ints_of_eq [of 10] ints_of_eq [of "0x500000"] by simp_all
  have "uint (0x80010000 :: u32) + 4 * INTS \<le> 2 ^ 32" by (simp add: INTS_def)
  from u_heap_init_view [OF _ this] obtain h where
    h: "heap_init 0x80010000 = Inr h" "heap_at h (0x80010000, INTS, [(0, -2), (2, INTS - 4), (INTS - 2, -2)])" by auto
  let ?bs = "[(0, -2), (2, INTS - 4), (INTS - 2, -2)] :: (int \<times> int) list"
  have v: "heap_view h ?bs" "len h = INTS" using h(2) by (auto simp: heap_at_def)
  show ?thesis
  proof (cases rule: u_malloc_view [OF v(1), of 10])
    case (3 it b h1)
    have it: "it = 2" "b = INTS - 4" using 3(1,2) by (auto simp: n)
    have view: "heap_view h1 (alloc_at 2 5 ?bs)" using 3(10) it n by simp
    have "live h1 (alloc_at 2 5 ?bs) 2 5" using 3(9) v(2) by (simp add: live_def same_place_def INTS_def)
    from realloc_failure_frees [OF view this, of "0x500000"] obtain h2 where
      "u_realloc h1 (ptr_of h1 2) 0x500000 = Inr (0, h2)" by (auto simp: n INTS_def)
    moreover have "ptr_of h1 2 = ptr_of h it" using 3(9) it by (simp add: ptr_of_def same_place_def)
    ultimately show ?thesis using 3(3,4) by auto
  qed (auto simp: n INTS_def)
qed

end
