(* ===== verification/Locks.thy ===== *)
theory Locks
  imports Prelude
begin

unbundle bit_operations_syntax

text \<open>
  The locks of \<^verbatim>\<open>src/kernel/atomic.h\<close>: atomic variables, the interrupt flag, \<^verbatim>\<open>SpinLock\<close>,
  \<^verbatim>\<open>InterruptSafeLock\<close> and \<^verbatim>\<open>ISL\<close>, as machines in which any number of cores take one
  memory or flag access at a time. \<^verbatim>\<open>monitor\<close>, \<^verbatim>\<open>mwait\<close> and \<^verbatim>\<open>pause\<close> only wait.
\<close>

section \<open>Atomic variables\<close>

text \<open>The operations return the value the code gets and the new contents of the variable.\<close>

definition fetch_add :: "u32 \<Rightarrow> u32 \<Rightarrow> u32 \<times> u32" where
  "fetch_add inc val = (val, val + inc)"

definition add_fetch :: "u32 \<Rightarrow> u32 \<Rightarrow> u32 \<times> u32" where
  "add_fetch inc val = (val + inc, val + inc)"

definition exchange :: "'a \<Rightarrow> 'a \<Rightarrow> 'a \<times> 'a" where
  "exchange v val = (val, v)"

definition atomic_set :: "'a \<Rightarrow> 'a \<Rightarrow> 'a" where
  "atomic_set v val = v"

definition atomic_get :: "'a \<Rightarrow> 'a" where
  "atomic_get val = val"

text \<open>The same through a pointer to the variable.\<close>

definition ap_load :: "u32 \<Rightarrow> (u32 \<Rightarrow> u32) \<Rightarrow> u32" where
  "ap_load p m = atomic_get (m p)"

definition ap_store :: "u32 \<Rightarrow> u32 \<Rightarrow> (u32 \<Rightarrow> u32) \<Rightarrow> u32 \<Rightarrow> u32" where
  "ap_store p v m = m(p := atomic_set v (m p))"

definition ap_fetch_add :: "u32 \<Rightarrow> u32 \<Rightarrow> (u32 \<Rightarrow> u32) \<Rightarrow> u32 \<times> (u32 \<Rightarrow> u32)" where
  "ap_fetch_add p inc m = (let (r, v) = fetch_add inc (m p) in (r, m(p := v)))"

definition ap_add_fetch :: "u32 \<Rightarrow> u32 \<Rightarrow> (u32 \<Rightarrow> u32) \<Rightarrow> u32 \<times> (u32 \<Rightarrow> u32)" where
  "ap_add_fetch p inc m = (let (r, v) = add_fetch inc (m p) in (r, m(p := v)))"

definition ap_exchange :: "u32 \<Rightarrow> u32 \<Rightarrow> (u32 \<Rightarrow> u32) \<Rightarrow> u32 \<times> (u32 \<Rightarrow> u32)" where
  "ap_exchange p v m = (let (r, w) = exchange v (m p) in (r, m(p := w)))"

text \<open>A guard runs its block between \<^verbatim>\<open>lock\<close> and \<^verbatim>\<open>unlock\<close>; a guard of a null pointer only runs it.\<close>

definition with_guard :: "('s \<Rightarrow> 's) \<Rightarrow> ('s \<Rightarrow> 's) \<Rightarrow> ('s \<Rightarrow> 's) \<Rightarrow> 's \<Rightarrow> 's" where
  "with_guard lock unlock body s = unlock (body (lock s))"

definition with_guardP :: "(('s \<Rightarrow> 's) \<times> ('s \<Rightarrow> 's)) option \<Rightarrow> ('s \<Rightarrow> 's) \<Rightarrow> 's \<Rightarrow> 's" where
  "with_guardP it body s = (case it of None \<Rightarrow> body s | Some (lock, unlock) \<Rightarrow> with_guard lock unlock body s)"

section \<open>The interrupt flag\<close>

definition cli :: "u32 \<Rightarrow> u32" where
  "cli flags = flags AND NOT 0x200"

definition sti :: "u32 \<Rightarrow> u32" where
  "sti flags = flags OR 0x200"

definition isDisabled :: "u32 \<Rightarrow> bool" where
  "isDisabled flags \<longleftrightarrow> flags AND 0x200 = 0"

definition disable :: "u32 \<Rightarrow> bool \<times> u32" where
  "disable flags = (let wasDisabled = isDisabled flags in (wasDisabled, if \<not> wasDisabled then cli flags else flags))"

definition restore :: "bool \<Rightarrow> u32 \<Rightarrow> u32" where
  "restore wasDisabled flags = (if \<not> wasDisabled then sti flags else flags)"

definition protect :: "(u32 \<Rightarrow> u32) \<Rightarrow> u32 \<Rightarrow> u32" where
  "protect work flags = (let (was, f) = disable flags in restore was (work f))"

lemma bit_0x200 [simp]: "bit (0x200 :: u32) n \<longleftrightarrow> n = 9" "bit (0x200 :: int) n \<longleftrightarrow> n = 9" "bit (0x200 :: nat) n \<longleftrightarrow> n = 9"
proof -
  have e: "(0x200 :: u32) = push_bit 9 1" "(0x200 :: int) = push_bit 9 1" "(0x200 :: nat) = push_bit 9 1"
    by (simp_all add: push_bit_eq_mult)
  show "bit (0x200 :: u32) n \<longleftrightarrow> n = 9" "bit (0x200 :: int) n \<longleftrightarrow> n = 9" "bit (0x200 :: nat) n \<longleftrightarrow> n = 9"
    unfolding e bit_push_bit_iff bit_1_iff by auto
qed

lemma isDisabled_bit: "isDisabled flags \<longleftrightarrow> \<not> bit flags 9"
proof -
  have "flags AND 0x200 = 0 \<longleftrightarrow> (\<forall>n < 32. \<not> bit (flags AND 0x200) n)"
    by (auto simp: bit_eq_iff bit_imp_le_length)
  also have "\<dots> \<longleftrightarrow> \<not> bit flags 9" by (auto simp: bit_and_iff dest: spec [of _ 9])
  finally show ?thesis by (simp add: isDisabled_def)
qed

lemma disabled_cli [simp]: "isDisabled (cli flags)"
  by (simp add: isDisabled_bit cli_def bit_simps)

lemma cli_disabled: "isDisabled flags \<Longrightarrow> cli flags = flags"
  by (rule bit_word_eqI) (auto simp: isDisabled_bit cli_def bit_simps)

lemma sti_cli: "\<not> isDisabled flags \<Longrightarrow> sti (cli flags) = flags"
  by (rule bit_word_eqI) (auto simp: isDisabled_bit cli_def sti_def bit_simps)

lemma disable_eq [simp]: "disable flags = (isDisabled flags, cli flags)"
  by (simp add: disable_def Let_def cli_disabled)

lemma restore_cli [simp]: "restore (isDisabled flags) (cli flags) = flags"
  by (simp add: restore_def cli_disabled sti_cli)

section \<open>Mutual exclusion\<close>

text \<open>
  What a lock promises and why: a core starts to hold the lock only in a step that finds it free
  and leaves it taken, and only the holder frees it.
\<close>

locale lock_protocol =
  fixes init :: "'s \<Rightarrow> bool" and steps :: "'s \<Rightarrow> 's \<Rightarrow> bool" and is_taken :: "'s \<Rightarrow> bool" and holds :: "'s \<Rightarrow> 'c \<Rightarrow> bool"
  assumes init: "init s \<Longrightarrow> \<not> holds s c"
    and steps: "steps s s' \<Longrightarrow>
      (holds s' = holds s \<and> (is_taken s \<longrightarrow> is_taken s')) \<or>
      (\<exists>c. \<not> is_taken s \<and> is_taken s' \<and> holds s' = (holds s)(c := True)) \<or>
      (\<exists>c. holds s c \<and> holds s' = (holds s)(c := False))"
begin

definition excluded :: "'s \<Rightarrow> bool" where
  "excluded s \<longleftrightarrow> (\<forall>c. holds s c \<longrightarrow> is_taken s \<and> (\<forall>d. holds s d \<longrightarrow> d = c))"

lemma excluded_init: "init s \<Longrightarrow> excluded s"
  using init by (simp add: excluded_def)

lemma excluded_step:
  assumes e: "excluded s" and st: "steps s s'"
  shows "excluded s'"
  using steps [OF st]
proof (elim disjE exE conjE)
  fix c assume c: "\<not> is_taken s" "is_taken s'" "holds s' = (holds s)(c := True)"
  then have "\<not> holds s d" for d using e by (auto simp: excluded_def)
  then have "holds s' d \<longleftrightarrow> d = c" for d using c(3) by simp
  then show ?thesis using c(2) by (simp add: excluded_def)
next
  fix c assume c: "holds s c" "holds s' = (holds s)(c := False)"
  then have "\<not> holds s' d" for d using e by (auto simp: excluded_def)
  then show ?thesis by (simp add: excluded_def)
qed (use e in \<open>auto simp: excluded_def\<close>)

lemma excluded_run: "steps\<^sup>*\<^sup>* s s' \<Longrightarrow> init s \<Longrightarrow> excluded s'"
  by (induction rule: rtranclp_induct) (auto intro: excluded_init excluded_step)

lemma mutual_exclusion: "steps\<^sup>*\<^sup>* s s' \<Longrightarrow> init s \<Longrightarrow> holds s' c \<Longrightarrow> holds s' d \<Longrightarrow> c = d"
  using excluded_run [of s s'] unfolding excluded_def by blast

end

section \<open>The spin lock\<close>

type_synonym core = nat

datatype spin_pc = SpinOutside | SpinInside

record spin =
  spin_taken :: bool
  spin_pc :: "core \<Rightarrow> spin_pc"

text \<open>The next access of core \<open>c\<close>: the exchange of \<^verbatim>\<open>lock\<close>, or the store of \<^verbatim>\<open>unlock\<close>.\<close>

definition spin_step :: "core \<Rightarrow> spin \<Rightarrow> spin" where
  "spin_step c s =
     (case spin_pc s c of
        SpinOutside \<Rightarrow>
          (let (old, new) = exchange True (spin_taken s)
           in s\<lparr>spin_taken := new, spin_pc := (spin_pc s)(c := if old then SpinOutside else SpinInside)\<rparr>)
      | SpinInside \<Rightarrow> s\<lparr>spin_taken := False, spin_pc := (spin_pc s)(c := SpinOutside)\<rparr>)"

definition spin_init :: spin where
  "spin_init = \<lparr>spin_taken = False, spin_pc = (\<lambda>_. SpinOutside)\<rparr>"

section \<open>The interrupt-safe lock\<close>

text \<open>
  \<^verbatim>\<open>InterruptSafeLock\<close>. Where a core is: outside; in \<^verbatim>\<open>lock\<close> with interrupts disabled; with the
  exchange failed; with the exchange done but \<^verbatim>\<open>was\<close> not yet written; inside; in \<^verbatim>\<open>unlock\<close> with
  \<^verbatim>\<open>was\<close> read; with the lock freed. The argument is the local variable \<^verbatim>\<open>wasDisabled\<close>.
\<close>

datatype isl_pc = Outside | Disabled bool | Failed bool | Acquired bool | Inside | Leaving bool | Released bool

record isl =
  taken :: bool
  was :: bool
  pc :: "core \<Rightarrow> isl_pc"
  eflags :: "core \<Rightarrow> u32"

definition isl_step :: "core \<Rightarrow> isl \<Rightarrow> isl" where
  "isl_step c s =
     (let go = (\<lambda>p. (pc s)(c := p)); setf = (\<lambda>f. (eflags s)(c := f))
      in case pc s c of
        Outside \<Rightarrow> (let (wasDisabled, f) = disable (eflags s c) in s\<lparr>eflags := setf f, pc := go (Disabled wasDisabled)\<rparr>)
      | Disabled wasDisabled \<Rightarrow>
          (let (old, new) = exchange True (taken s)
           in s\<lparr>taken := new, pc := go (if \<not> old then Acquired wasDisabled else Failed wasDisabled)\<rparr>)
      | Failed wasDisabled \<Rightarrow> s\<lparr>eflags := setf (restore wasDisabled (eflags s c)), pc := go Outside\<rparr>
      | Acquired wasDisabled \<Rightarrow> s\<lparr>was := wasDisabled, pc := go Inside\<rparr>
      | Inside \<Rightarrow> s\<lparr>pc := go (Leaving (was s))\<rparr>
      | Leaving wasDisabled \<Rightarrow> s\<lparr>taken := False, pc := go (Released wasDisabled)\<rparr>
      | Released wasDisabled \<Rightarrow> s\<lparr>eflags := setf (restore wasDisabled (eflags s c)), pc := go Outside\<rparr>)"

definition isl_init :: "isl \<Rightarrow> bool" where
  "isl_init s \<longleftrightarrow> \<not> taken s \<and> (\<forall>c. pc s c = Outside)"

text \<open>
  A run in which the cores step in any order. With each state goes the flags each core had when
  it last was outside.
\<close>

inductive isl_run :: "isl \<Rightarrow> (core \<Rightarrow> u32) \<Rightarrow> bool" where
  start: "isl_init s \<Longrightarrow> isl_run s (eflags s)"
| step: "isl_run s entry \<Longrightarrow> isl_run (isl_step c s) entry"
| flags: "isl_run s entry \<Longrightarrow> pc s c = Outside \<Longrightarrow> isl_run (s\<lparr>eflags := (eflags s)(c := f)\<rparr>) (entry(c := f))"

definition isl_holds :: "isl \<Rightarrow> core \<Rightarrow> bool" where
  "isl_holds s c \<longleftrightarrow> (case pc s c of Acquired _ \<Rightarrow> True | Inside \<Rightarrow> True | Leaving _ \<Rightarrow> True | _ \<Rightarrow> False)"

section \<open>The flexible interrupt-safe lock\<close>

text \<open>
  \<^verbatim>\<open>ISL\<close>: \<^verbatim>\<open>lock\<close> gives the caller what \<^verbatim>\<open>was\<close> was, and \<^verbatim>\<open>unlock\<close> sets the interrupt flag
  to what its argument \<open>d\<close> says.
\<close>

datatype fl_pc = FlOutside | FlDisabled bool | FlFailed bool | FlInside bool | FlReleased bool

record fl =
  fl_taken :: bool
  fl_pc :: "core \<Rightarrow> fl_pc"
  fl_flags :: "core \<Rightarrow> u32"

definition fl_step :: "core \<Rightarrow> bool \<Rightarrow> fl \<Rightarrow> fl" where
  "fl_step c d s =
     (let go = (\<lambda>p. (fl_pc s)(c := p)); setf = (\<lambda>f. (fl_flags s)(c := f))
      in case fl_pc s c of
        FlOutside \<Rightarrow> (let (wasDisabled, f) = disable (fl_flags s c) in s\<lparr>fl_flags := setf f, fl_pc := go (FlDisabled wasDisabled)\<rparr>)
      | FlDisabled wasDisabled \<Rightarrow>
          (let (old, new) = exchange True (fl_taken s)
           in s\<lparr>fl_taken := new, fl_pc := go (if \<not> old then FlInside wasDisabled else FlFailed wasDisabled)\<rparr>)
      | FlFailed wasDisabled \<Rightarrow> s\<lparr>fl_flags := setf (restore wasDisabled (fl_flags s c)), fl_pc := go FlOutside\<rparr>
      | FlInside wasDisabled \<Rightarrow> s\<lparr>fl_taken := False, fl_pc := go (FlReleased d)\<rparr>
      | FlReleased d \<Rightarrow> s\<lparr>fl_flags := setf (if d then cli (fl_flags s c) else sti (fl_flags s c)), fl_pc := go FlOutside\<rparr>)"

definition fl_init :: "fl \<Rightarrow> bool" where
  "fl_init s \<longleftrightarrow> \<not> fl_taken s \<and> (\<forall>c. fl_pc s c = FlOutside)"

definition fl_holds :: "fl \<Rightarrow> core \<Rightarrow> bool" where
  "fl_holds s c \<longleftrightarrow> (case fl_pc s c of FlInside _ \<Rightarrow> True | _ \<Rightarrow> False)"

section \<open>The locks keep the protocol\<close>

interpretation spin: lock_protocol "\<lambda>s. s = spin_init" "\<lambda>s s'. \<exists>c. s' = spin_step c s" spin_taken
  "\<lambda>s c. spin_pc s c = SpinInside"
proof
  fix s s' :: spin
  assume "\<exists>c. s' = spin_step c s"
  then obtain c where s': "s' = spin_step c s" by blast
  show "((\<lambda>c. spin_pc s' c = SpinInside) = (\<lambda>c. spin_pc s c = SpinInside) \<and> (spin_taken s \<longrightarrow> spin_taken s')) \<or>
    (\<exists>c. \<not> spin_taken s \<and> spin_taken s' \<and> (\<lambda>c. spin_pc s' c = SpinInside) = (\<lambda>c. spin_pc s c = SpinInside)(c := True)) \<or>
    (\<exists>c. spin_pc s c = SpinInside \<and> (\<lambda>c. spin_pc s' c = SpinInside) = (\<lambda>c. spin_pc s c = SpinInside)(c := False))"
  proof (cases "spin_pc s c")
    case SpinOutside
    then show ?thesis
      by (cases "spin_taken s") (auto simp: s' spin_step_def exchange_def fun_eq_iff)
  next
    case SpinInside
    then have "(\<lambda>c. spin_pc s' c = SpinInside) = (\<lambda>c. spin_pc s c = SpinInside)(c := False)"
      by (auto simp: s' spin_step_def)
    then show ?thesis using SpinInside by blast
  qed
qed (simp add: spin_init_def)

interpretation isl: lock_protocol isl_init
  "\<lambda>s s'. (\<exists>c. s' = isl_step c s) \<or> (\<exists>c f. pc s c = Outside \<and> s' = s\<lparr>eflags := (eflags s)(c := f)\<rparr>)" taken isl_holds
proof
  fix s s' :: isl
  assume s: "(\<exists>c. s' = isl_step c s) \<or> (\<exists>c f. pc s c = Outside \<and> s' = s\<lparr>eflags := (eflags s)(c := f)\<rparr>)"
  show "(isl_holds s' = isl_holds s \<and> (taken s \<longrightarrow> taken s')) \<or>
    (\<exists>c. \<not> taken s \<and> taken s' \<and> isl_holds s' = (isl_holds s)(c := True)) \<or>
    (\<exists>c. isl_holds s c \<and> isl_holds s' = (isl_holds s)(c := False))"
  proof (cases "\<exists>c. s' = isl_step c s")
    case True
    then obtain c where s': "s' = isl_step c s" by blast
    consider w where "pc s c = Disabled w" "\<not> taken s" | w where "pc s c = Leaving w"
      | "(\<forall>w. pc s c \<noteq> Disabled w) \<or> taken s" "\<forall>w. pc s c \<noteq> Leaving w" by blast
    then show ?thesis
    proof cases
      case 1
      then have "isl_holds s' = (isl_holds s)(c := True)" "taken s'"
        by (auto simp: s' isl_step_def Let_def exchange_def isl_holds_def fun_eq_iff)
      with 1 show ?thesis by blast
    next
      case 2
      then have "isl_holds s' = (isl_holds s)(c := False)" "isl_holds s c"
        by (auto simp: s' isl_step_def Let_def isl_holds_def fun_eq_iff)
      then show ?thesis by blast
    next
      case 3
      then have "isl_holds s' = isl_holds s" "taken s \<longrightarrow> taken s'"
        by (auto simp: s' isl_step_def Let_def isl_holds_def exchange_def fun_eq_iff split: isl_pc.splits)
      then show ?thesis by blast
    qed
  qed (use s in \<open>auto simp: isl_holds_def\<close>)
qed (simp add: isl_init_def isl_holds_def)

interpretation fl: lock_protocol fl_init "\<lambda>s s'. \<exists>c d. s' = fl_step c d s" fl_taken fl_holds
proof
  fix s s' :: fl
  assume "\<exists>c d. s' = fl_step c d s"
  then obtain c d where s': "s' = fl_step c d s" by blast
  consider w where "fl_pc s c = FlDisabled w" "\<not> fl_taken s" | w where "fl_pc s c = FlInside w"
    | "(\<forall>w. fl_pc s c \<noteq> FlDisabled w) \<or> fl_taken s" "\<forall>w. fl_pc s c \<noteq> FlInside w" by blast
  then show "(fl_holds s' = fl_holds s \<and> (fl_taken s \<longrightarrow> fl_taken s')) \<or>
    (\<exists>c. \<not> fl_taken s \<and> fl_taken s' \<and> fl_holds s' = (fl_holds s)(c := True)) \<or>
    (\<exists>c. fl_holds s c \<and> fl_holds s' = (fl_holds s)(c := False))"
  proof cases
    case 1
    then have "fl_holds s' = (fl_holds s)(c := True)" "fl_taken s'"
      by (auto simp: s' fl_step_def Let_def exchange_def fl_holds_def fun_eq_iff)
    with 1 show ?thesis by blast
  next
    case 2
    then have "fl_holds s' = (fl_holds s)(c := False)" "fl_holds s c"
      by (auto simp: s' fl_step_def Let_def fl_holds_def fun_eq_iff)
    then show ?thesis by blast
  next
    case 3
    then have "fl_holds s' = fl_holds s" "fl_taken s \<longrightarrow> fl_taken s'"
      by (auto simp: s' fl_step_def Let_def fl_holds_def exchange_def fun_eq_iff split: fl_pc.splits)
    then show ?thesis by blast
  qed
qed (simp add: fl_init_def fl_holds_def)

section \<open>Interrupts come back as they were\<close>

text \<open>
  In a run, a core that is not outside has interrupts disabled and carries, in its local
  variable or in \<^verbatim>\<open>was\<close>, what its flags were.
\<close>

definition isl_ok :: "isl \<Rightarrow> (core \<Rightarrow> u32) \<Rightarrow> bool" where
  "isl_ok s entry \<longleftrightarrow> isl.excluded s \<and>
     (\<forall>c. case pc s c of
            Outside \<Rightarrow> eflags s c = entry c
          | Inside \<Rightarrow> eflags s c = cli (entry c) \<and> was s = isDisabled (entry c)
          | Disabled w \<Rightarrow> eflags s c = cli (entry c) \<and> w = isDisabled (entry c)
          | Failed w \<Rightarrow> eflags s c = cli (entry c) \<and> w = isDisabled (entry c)
          | Acquired w \<Rightarrow> eflags s c = cli (entry c) \<and> w = isDisabled (entry c)
          | Leaving w \<Rightarrow> eflags s c = cli (entry c) \<and> w = isDisabled (entry c)
          | Released w \<Rightarrow> eflags s c = cli (entry c) \<and> w = isDisabled (entry c))"

lemma isl_ok_step:
  assumes "isl_ok s entry"
  shows "isl_ok (isl_step c s) entry"
proof -
  have e: "isl.excluded (isl_step c s)"
    by (rule isl.excluded_step [of s]) (use assms in \<open>auto simp: isl_ok_def\<close>)
  have other: "pc s d \<noteq> Inside" if "pc s c = Acquired w" "d \<noteq> c" for d w
    using assms that by (auto simp: isl_ok_def isl.excluded_def isl_holds_def split: isl_pc.splits)
  have a: "case pc s d of
            Outside \<Rightarrow> eflags s d = entry d
          | Inside \<Rightarrow> eflags s d = cli (entry d) \<and> was s = isDisabled (entry d)
          | Disabled w \<Rightarrow> eflags s d = cli (entry d) \<and> w = isDisabled (entry d)
          | Failed w \<Rightarrow> eflags s d = cli (entry d) \<and> w = isDisabled (entry d)
          | Acquired w \<Rightarrow> eflags s d = cli (entry d) \<and> w = isDisabled (entry d)
          | Leaving w \<Rightarrow> eflags s d = cli (entry d) \<and> w = isDisabled (entry d)
          | Released w \<Rightarrow> eflags s d = cli (entry d) \<and> w = isDisabled (entry d)" for d
    using assms by (simp add: isl_ok_def)
  show ?thesis unfolding isl_ok_def
  proof (intro conjI e allI, goal_cases)
    case (1 d)
    then show ?case using a [of c] a [of d] other [of _ d]
      by (cases "d = c") (auto simp: isl_step_def Let_def exchange_def split: isl_pc.splits)
  qed
qed

lemma isl_run_ok: "isl_run s entry \<Longrightarrow> isl_ok s entry"
proof (induction rule: isl_run.induct)
  case (start s)
  then show ?case using isl.excluded_init [of s] by (simp add: isl_ok_def isl_init_def)
next
  case (step s entry c)
  show ?case by (rule isl_ok_step [OF step.IH])
next
  case (flags s entry c f)
  have "isl.excluded (s\<lparr>eflags := (eflags s)(c := f)\<rparr>)"
    by (rule isl.excluded_step [of s]) (use flags in \<open>auto simp: isl_ok_def\<close>)
  then show ?case using flags by (auto simp: isl_ok_def split: isl_pc.splits)
qed

text \<open>
  C27. \<^verbatim>\<open>InterruptSafeLock\<close> is correct, which its comment asks: however the cores interleave, at
  most one holds it; the holder, and every core within \<^verbatim>\<open>lock\<close> or \<^verbatim>\<open>unlock\<close>, runs with
  interrupts disabled; and a core that has left the lock has the flags it entered with, although all
  the cores share the one variable \<^verbatim>\<open>was\<close>.
\<close>

theorem interrupt_safe_lock_correct:
  assumes "isl_run s entry"
  shows "(\<forall>c d. isl_holds s c \<and> isl_holds s d \<longrightarrow> c = d) \<and>
    (\<forall>c. if pc s c = Outside then eflags s c = entry c else isDisabled (eflags s c))"
proof -
  note ok = isl_run_ok [OF assms]
  have "if pc s c = Outside then eflags s c = entry c else isDisabled (eflags s c)" for c
    using ok by (cases "pc s c") (auto simp: isl_ok_def dest!: spec [of _ c])
  moreover have "isl_holds s c \<Longrightarrow> isl_holds s d \<Longrightarrow> c = d" for c d
    using ok by (auto simp: isl_ok_def isl.excluded_def)
  ultimately show ?thesis by blast
qed

definition isl_demo :: isl where
  "isl_demo = \<lparr>taken = False, was = False, pc = (\<lambda>_. Outside), eflags = (\<lambda>c. if c = 0 then 0x202 else 2)\<rparr>"

theorem interrupt_safe_lock_correct_witness:
  "let s = foldr isl_step [1, 1, 0, 0, 0, 0] isl_demo
   in isl_holds s 0 \<and> \<not> isl_holds s 1 \<and> isDisabled (eflags s 0) \<and> isDisabled (eflags s 1)"
proof -
  have i: "isl_run isl_demo (eflags isl_demo)" by (rule isl_run.start) (simp add: isl_init_def isl_demo_def)
  have "isl_run (foldr isl_step cs isl_demo) (eflags isl_demo)" for cs
    by (induction cs) (auto intro: i isl_run.step)
  note c = interrupt_safe_lock_correct [OF this [of "[1, 1, 0, 0, 0, 0]"]]
  have p: "pc (foldr isl_step [1, 1, 0, 0, 0, 0] isl_demo) 0 = Leaving False"
    "pc (foldr isl_step [1, 1, 0, 0, 0, 0] isl_demo) 1 = Failed True"
    by (simp_all add: isl_step_def isl_demo_def Let_def exchange_def isDisabled_def)
  have "isl_holds (foldr isl_step [1, 1, 0, 0, 0, 0] isl_demo) 0" "\<not> isl_holds (foldr isl_step [1, 1, 0, 0, 0, 0] isl_demo) 1"
    using p by (simp_all add: isl_holds_def)
  with c p show ?thesis unfolding Let_def by (metis isl_pc.distinct)
qed

text \<open>
  The plain spin lock and the flexible lock exclude too, whatever the cores do with the
  flags that \<^verbatim>\<open>ISL::lock\<close> hands them.
\<close>

theorem spin_and_flexible_lock_exclude:
  "((\<lambda>s s'. \<exists>c. s' = spin_step c s)\<^sup>*\<^sup>* spin_init s \<longrightarrow> spin_pc s c = SpinInside \<longrightarrow> spin_pc s d = SpinInside \<longrightarrow> c = d) \<and>
   (fl_init z \<longrightarrow> (\<lambda>s s'. \<exists>c d. s' = fl_step c d s)\<^sup>*\<^sup>* z t \<longrightarrow> fl_holds t c \<longrightarrow> fl_holds t d \<longrightarrow> c = d)"
  using spin.mutual_exclusion fl.mutual_exclusion by blast

theorem spin_and_flexible_lock_exclude_witness:
  "spin_pc (spin_step 1 (spin_step 0 spin_init)) 1 \<noteq> SpinInside"
proof -
  let ?s = "spin_step 1 (spin_step 0 spin_init)"
  have "(\<lambda>s s'. \<exists>c. s' = spin_step c s)\<^sup>*\<^sup>* spin_init (spin_step 0 spin_init)"
    by (rule r_into_rtranclp) blast
  then have "(\<lambda>s s'. \<exists>c. s' = spin_step c s)\<^sup>*\<^sup>* spin_init ?s"
    by (rule rtranclp.rtrancl_into_rtrancl) blast
  moreover have "spin_pc ?s 0 = SpinInside" by (simp add: spin_step_def spin_init_def exchange_def)
  ultimately show ?thesis using spin_and_flexible_lock_exclude [THEN conjunct1, of ?s 0 1] by auto
qed

end
