(* ===== verification/Shared.thy ===== *)
theory Shared
  imports Locks
begin

text \<open>
  Reference-counted handles: \<^verbatim>\<open>Shared<T>\<close> of \<^verbatim>\<open>src/kernel/shared.h\<close>. The state holds the live
  objects with their counts and the handle variables of the program; an object that is used
  after its deletion is the fault \<open>OutOfRange\<close>.
\<close>

type_synonym addr = u32

record 'v shared_state =
  ref_count :: "addr \<rightharpoonup> u32"
  vars :: "'v \<rightharpoonup> addr option"
  deleted :: "addr list"

section \<open>Operations\<close>

text \<open>The effect of \<^verbatim>\<open>drop\<close> and \<^verbatim>\<open>add\<close> on a handle whose \<^verbatim>\<open>ptr\<close> is \<open>p\<close>.\<close>

definition drop_ref :: "addr option \<Rightarrow> 'v shared_state \<Rightarrow> 'v shared_state result" where
  "drop_ref p s =
     (case p of
        None \<Rightarrow> Inr s
      | Some a \<Rightarrow>
          (case ref_count s a of
             None \<Rightarrow> Inl OutOfRange
           | Some cnt \<Rightarrow>
               (let (new_count, c) = add_fetch (-1) cnt
                in Inr (if new_count = 0 then s\<lparr>ref_count := (ref_count s)(a := None), deleted := a # deleted s\<rparr>
                        else s\<lparr>ref_count := (ref_count s)(a \<mapsto> c)\<rparr>))))"

definition add_ref :: "addr option \<Rightarrow> 'v shared_state \<Rightarrow> 'v shared_state result" where
  "add_ref p s =
     (case p of
        None \<Rightarrow> Inr s
      | Some a \<Rightarrow>
          (case ref_count s a of
             None \<Rightarrow> Inl OutOfRange
           | Some cnt \<Rightarrow> (let (_, c) = add_fetch 1 cnt in Inr (s\<lparr>ref_count := (ref_count s)(a \<mapsto> c)\<rparr>))))"

definition set_ptr :: "'v \<Rightarrow> addr option \<Rightarrow> 'v shared_state \<Rightarrow> 'v shared_state" where
  "set_ptr v p s = s\<lparr>vars := (vars s)(v \<mapsto> p)\<rparr>"

text \<open>The pointer in a handle variable; a variable that is not constructed is no handle.\<close>

definition get_ptr :: "'v \<Rightarrow> 'v shared_state \<Rightarrow> addr option result" where
  "get_ptr v s = (case vars s v of None \<Rightarrow> Inl OutOfRange | Some p \<Rightarrow> Inr p)"

datatype 'v shared_op =
    Null 'v                  \<comment> \<open>\<^verbatim>\<open>Shared()\<close>\<close>
  | Make 'v addr             \<comment> \<open>\<^verbatim>\<open>make\<close>: \<^verbatim>\<open>Shared(T*)\<close> of a new object at the address\<close>
  | Copy 'v 'v               \<comment> \<open>\<^verbatim>\<open>Shared(const Shared&)\<close>\<close>
  | Move 'v 'v               \<comment> \<open>\<^verbatim>\<open>Shared(Shared&&)\<close>\<close>
  | Destroy 'v               \<comment> \<open>\<^verbatim>\<open>~Shared()\<close>\<close>
  | AssignPtr 'v "addr option" \<comment> \<open>\<^verbatim>\<open>operator=(T*)\<close>\<close>
  | Assign 'v 'v             \<comment> \<open>\<^verbatim>\<open>operator=(const Shared&)\<close>\<close>
  | MoveAssign 'v 'v         \<comment> \<open>\<^verbatim>\<open>operator=(Shared&&)\<close>\<close>

fun shared_step :: "'v shared_op \<Rightarrow> 'v shared_state \<Rightarrow> 'v shared_state result" where
  "shared_step (Null v) s = Inr (set_ptr v None s)"
| "shared_step (Make v a) s = add_ref (Some a) (set_ptr v (Some a) (s\<lparr>ref_count := (ref_count s)(a \<mapsto> 0)\<rparr>))"
| "shared_step (Copy v w) s = bindR (get_ptr w s) (\<lambda>p. add_ref p (set_ptr v p s))"
| "shared_step (Move v w) s = bindR (get_ptr w s) (\<lambda>p. Inr (set_ptr w None (set_ptr v p s)))"
| "shared_step (Destroy v) s =
     bindR (get_ptr v s) (\<lambda>p. bindR (drop_ref p s) (\<lambda>s. Inr (s\<lparr>vars := (vars s)(v := None)\<rparr>)))"
| "shared_step (AssignPtr v rhs) s =
     bindR (get_ptr v s) (\<lambda>p.
       if p \<noteq> rhs then bindR (drop_ref p s) (\<lambda>s. add_ref rhs (set_ptr v rhs s)) else Inr s)"
| "shared_step (Assign v w) s =
     bindR (get_ptr w s) (\<lambda>other. bindR (get_ptr v s) (\<lambda>p.
       if p \<noteq> other then bindR (drop_ref p s) (\<lambda>s. add_ref other (set_ptr v other s)) else Inr s))"
| "shared_step (MoveAssign v w) s =
     bindR (get_ptr v s) (\<lambda>p. bindR (drop_ref p s) (\<lambda>s.
     bindR (get_ptr w s) (\<lambda>other. Inr (set_ptr w None (set_ptr v other s)))))"

text \<open>Running a sequence of operations.\<close>

definition run_ops :: "'v shared_op list \<Rightarrow> 'v shared_state \<Rightarrow> 'v shared_state result" where
  "run_ops ops s = foldM shared_step ops s"

text \<open>
  What the language and its users see to: a constructor builds a variable that does not exist, the
  others work on variables that do, there are fewer than \<open>2 ^ 32\<close> of them, the allocator returns an
  address that is not in use, and a raw pointer that is assigned is null or points to a live object.
\<close>

fun op_ok :: "'v shared_op \<Rightarrow> 'v shared_state \<Rightarrow> bool" where
  "op_ok (Null v) s = (vars s v = None \<and> card (dom (vars s)) + 1 < 2 ^ 32)"
| "op_ok (Make v a) s = (vars s v = None \<and> ref_count s a = None \<and> card (dom (vars s)) + 1 < 2 ^ 32)"
| "op_ok (Copy v w) s = (vars s v = None \<and> vars s w \<noteq> None \<and> card (dom (vars s)) + 1 < 2 ^ 32)"
| "op_ok (Move v w) s = (vars s v = None \<and> vars s w \<noteq> None \<and> card (dom (vars s)) + 1 < 2 ^ 32)"
| "op_ok (Destroy v) s = (vars s v \<noteq> None)"
| "op_ok (AssignPtr v rhs) s = (vars s v \<noteq> None \<and> (case rhs of None \<Rightarrow> True | Some a \<Rightarrow> ref_count s a \<noteq> None))"
| "op_ok (Assign v w) s = (vars s v \<noteq> None \<and> vars s w \<noteq> None)"
| "op_ok (MoveAssign v w) s = (vars s v \<noteq> None \<and> vars s w \<noteq> None)"

section \<open>Counts are counts\<close>

definition handles :: "'v shared_state \<Rightarrow> addr \<Rightarrow> 'v set" where
  "handles s a = {v. vars s v = Some (Some a)}"

definition shared_ok :: "'v shared_state \<Rightarrow> bool" where
  "shared_ok s \<longleftrightarrow> finite (dom (vars s)) \<and> card (dom (vars s)) < 2 ^ 32 \<and>
     (\<forall>a. ref_count s a = (if handles s a = {} then None else Some (of_nat (card (handles s a)))))"

text \<open>
  The same with the handle variable \<open>v\<close> away: a function of the pointers of the others. An
  operation is a composition of steps in this form.
\<close>

definition counts :: "('v \<rightharpoonup> addr option) \<Rightarrow> addr \<rightharpoonup> u32" where
  "counts V a = (let n = card {v. V v = Some (Some a)} in if n = 0 then None else Some (of_nat n))"

lemma shared_ok_counts:
  "shared_ok s \<longleftrightarrow> finite (dom (vars s)) \<and> card (dom (vars s)) < 2 ^ 32 \<and> ref_count s = counts (vars s)"
proof -
  have "finite {v. vars s v = Some (Some a)}" if "finite (dom (vars s))" for a
    by (rule finite_subset [OF _ that]) auto
  then show ?thesis by (auto simp: shared_ok_def counts_def handles_def Let_def fun_eq_iff)
qed

lemma handles_finite: "finite (dom V) \<Longrightarrow> finite {v. V v = Some (Some a)}"
  by (rule finite_subset [of _ "dom V"]) auto

lemma handles_small:
  assumes "finite (dom V)" "card (dom V) < 2 ^ 32"
  shows "card {v. V v = Some (Some a)} < 2 ^ 32"
  by (rule le_less_trans [OF card_mono [OF assms(1)] assms(2)]) auto

text \<open>Forgetting the pointer of a variable drops its reference.\<close>

lemma counts_forget:
  assumes f: "finite (dom V)" "card (dom V) < 2 ^ 32" and v: "V v = Some (Some a)" and x: "\<forall>b. x \<noteq> Some (Some b)"
  shows "counts (V(v := x)) = (if the (counts V a) - 1 = 0 then (counts V)(a := None)
      else (counts V)(a \<mapsto> the (counts V a) - 1))"
proof -
  let ?n = "card {v. V v = Some (Some a)}"
  have n: "0 < ?n" using v handles_finite [OF f(1)] by (auto simp: card_gt_0_iff)
  have c: "the (counts V a) = of_nat ?n" using n by (simp add: counts_def Let_def)
  have eq: "{w. (V(v := x)) w = Some (Some b)} = {w. V w = Some (Some b)} - {v}" for b using x v by auto
  have other: "{w. V w = Some (Some b)} - {v} = {w. V w = Some (Some b)}" if "b \<noteq> a" for b using that v by auto
  have m: "card ({w. V w = Some (Some a)} - {v}) = ?n - 1"
    using v handles_finite [OF f(1)] by (subst card_Diff_singleton) auto
  have s: "of_nat ?n - (1 :: u32) = of_nat (?n - 1)" using n by (simp add: of_nat_diff)
  have u: "unat (of_nat k :: u32) = k" if "k < 2 ^ 32" for k
    using that by (simp add: unat_of_nat take_bit_nat_def)
  have "unat (of_nat (?n - 1) :: u32) = ?n - 1"
    by (rule u [OF less_imp_diff_less [OF handles_small [OF f]]])
  then have z: "of_nat (?n - 1) = (0 :: u32) \<longleftrightarrow> ?n - 1 = 0"
    by (simp only: unat_eq_zero [symmetric])
  have "counts (V(v := x)) b = counts V b" if "b \<noteq> a" for b
    unfolding counts_def eq other [OF that] ..
  moreover have "counts (V(v := x)) a = (if ?n - 1 = 0 then None else Some (of_nat (?n - 1)))"
    unfolding counts_def eq m Let_def ..
  ultimately show ?thesis unfolding c s z by (auto simp del: of_nat_diff)
qed

text \<open>Giving a variable that points to no object a pointer to one adds a reference.\<close>

lemma counts_point:
  assumes f: "finite (dom V)" and v: "\<forall>b. V v \<noteq> Some (Some b)"
  shows "counts (V(v \<mapsto> Some a)) = (counts V)(a \<mapsto> (case counts V a of None \<Rightarrow> 0 | Some c \<Rightarrow> c) + 1)"
proof -
  have eq: "{w. (V(v \<mapsto> Some a)) w = Some (Some a)} = insert v {w. V w = Some (Some a)}" by auto
  have other: "{w. (V(v \<mapsto> Some a)) w = Some (Some b)} = {w. V w = Some (Some b)}" if "b \<noteq> a" for b
    using that v by auto
  have m: "card (insert v {w. V w = Some (Some a)}) = Suc (card {w. V w = Some (Some a)})"
    by (rule card_insert_disjoint [OF handles_finite [OF f]]) (use v in auto)
  show ?thesis
  proof (rule ext)
    fix b show "counts (V(v \<mapsto> Some a)) b = ((counts V)(a \<mapsto> (case counts V a of None \<Rightarrow> 0 | Some c \<Rightarrow> c) + 1)) b"
    proof (cases "b = a")
      case True
      then show ?thesis unfolding True counts_def eq m by (simp add: Let_def algebra_simps)
    qed (use other in \<open>simp add: counts_def\<close>)
  qed
qed

lemma counts_null:
  assumes "\<forall>b. V v \<noteq> Some (Some b)" "\<forall>b. x \<noteq> Some (Some b)"
  shows "counts (V(v := x)) = counts V"
proof -
  have "{w. (V(v := x)) w = Some (Some b)} = {w. V w = Some (Some b)}" for b using assms by auto
  then show ?thesis by (simp add: counts_def fun_eq_iff)
qed

lemma counts_live: "counts V a \<noteq> None \<longleftrightarrow> card {v. V v = Some (Some a)} \<noteq> 0"
  by (simp add: counts_def Let_def)

lemma counts_pointed: "finite (dom V) \<Longrightarrow> V v = Some (Some a) \<Longrightarrow> counts V a \<noteq> None"
  using handles_finite [of V a] unfolding counts_live by (auto simp: card_eq_0_iff)

lemma counts_other: "V v = Some p \<Longrightarrow> p \<noteq> Some a \<Longrightarrow> \<forall>b. x \<noteq> Some (Some b) \<Longrightarrow> counts (V(v := x)) a = counts V a"
proof -
  assume "V v = Some p" "p \<noteq> Some a" "\<forall>b. x \<noteq> Some (Some b)"
  then have "{w. (V(v := x)) w = Some (Some a)} = {w. V w = Some (Some a)}" by auto
  then show ?thesis by (simp add: counts_def)
qed

text \<open>Moving a pointer from one variable to another leaves every count as it is.\<close>

lemma counts_move:
  assumes f: "finite (dom V)" and v: "\<forall>b. V v \<noteq> Some (Some b)" and w: "V w = Some p" and n: "v \<noteq> w"
  shows "counts (V(v \<mapsto> p, w \<mapsto> None)) = counts V"
proof -
  have "card {u. (V(v \<mapsto> p, w \<mapsto> None)) u = Some (Some a)} = card {u. V u = Some (Some a)}" for a
  proof (cases "p = Some a")
    case True
    have "{u. (V(v \<mapsto> p, w \<mapsto> None)) u = Some (Some a)} = insert v ({u. V u = Some (Some a)} - {w})"
      using v w n True by auto
    moreover have "Suc (card ({u. V u = Some (Some a)} - {w})) = card {u. V u = Some (Some a)}"
      by (rule card_Suc_Diff1) (use handles_finite [OF f] w True in auto)
    moreover have "card (insert v ({u. V u = Some (Some a)} - {w})) = Suc (card ({u. V u = Some (Some a)} - {w}))"
      by (rule card_insert_disjoint) (use handles_finite [OF f] v in auto)
    ultimately show ?thesis by simp
  next
    case False
    then have "{u. (V(v \<mapsto> p, w \<mapsto> None)) u = Some (Some a)} = {u. V u = Some (Some a)}" using v w n by auto
    then show ?thesis by simp
  qed
  then show ?thesis unfolding counts_def by presburger
qed

lemma drop_ok:
  assumes "finite (dom V)" "card (dom V) < 2 ^ 32" "ref_count s = counts V" "V v = Some p" "\<forall>b. x \<noteq> Some (Some b)"
  obtains s' where "drop_ref p s = Inr s'" "ref_count s' = counts (V(v := x))" "vars s' = vars s"
proof (cases p)
  case None
  then have "counts (V(v := x)) = counts V" using assms by (intro counts_null) auto
  with None that [of s] assms(3) show ?thesis by (simp add: drop_ref_def)
next
  case (Some a)
  then obtain c where "counts V a = Some c" using counts_pointed [of V v a] assms by auto
  with counts_forget [OF assms(1,2) _ assms(5), of v a] assms Some show ?thesis
    by (intro that [of "if c - 1 = 0 then s\<lparr>ref_count := (ref_count s)(a := None), deleted := a # deleted s\<rparr>
      else s\<lparr>ref_count := (ref_count s)(a \<mapsto> c - 1)\<rparr>"]) (auto simp: drop_ref_def add_fetch_def)
qed

lemma add_ok:
  assumes "finite (dom V)" "ref_count s = counts V" "\<forall>b. V v \<noteq> Some (Some b)" "\<forall>a. p = Some a \<longrightarrow> counts V a \<noteq> None"
  obtains s' where "add_ref p s = Inr s'" "ref_count s' = counts (V(v \<mapsto> p))" "vars s' = vars s"
proof (cases p)
  case None
  then have "counts (V(v \<mapsto> p)) = counts V" using assms by (intro counts_null) auto
  with None that [of s] assms(2) show ?thesis by (simp add: add_ref_def)
next
  case (Some a)
  then obtain c where "counts V a = Some c" using assms(4) by auto
  with counts_point [OF assms(1,3), of a] assms(2) Some show ?thesis
    by (intro that [of "s\<lparr>ref_count := (ref_count s)(a \<mapsto> c + 1)\<rparr>"]) (auto simp: add_ref_def add_fetch_def add.commute)
qed

lemma get_ptr_eq: "vars s v = Some p \<Longrightarrow> get_ptr v s = Inr p"
  by (simp add: get_ptr_def)

lemma grown_dom:
  assumes "finite (dom V)" "card (dom V) + 1 < 2 ^ 32"
  shows "finite (dom (V(v := x))) \<and> card (dom (V(v := x))) < 2 ^ 32"
proof -
  have "dom (V(v := x)) \<subseteq> insert v (dom V)" by auto
  then have "card (dom (V(v := x))) \<le> card (insert v (dom V))" by (intro card_mono) (use assms in auto)
  also have "\<dots> \<le> card (dom V) + 1" using assms(1) by (simp add: card_insert_if)
  finally show ?thesis using assms by simp
qed

lemma same_dom:
  assumes "finite (dom V)" "card (dom V) < 2 ^ 32" "V v = Some q"
  shows "finite (dom (V(v := x))) \<and> card (dom (V(v := x))) < 2 ^ 32"
proof -
  have "dom (V(v := x)) \<subseteq> dom V" using assms(3) by auto
  then show ?thesis using assms(1,2) card_mono [OF assms(1)] finite_subset
    by (metis le_less_trans)
qed

text \<open>Assigning through a raw pointer: the common part of two of the operators.\<close>

lemma assign_ok:
  assumes f: "finite (dom (vars s))" "card (dom (vars s)) < 2 ^ 32" "ref_count s = counts (vars s)"
    and v: "vars s v = Some p" and r: "\<forall>a. rhs = Some a \<longrightarrow> ref_count s a \<noteq> None" and n: "p \<noteq> rhs"
  shows "\<exists>s'. bindR (drop_ref p s) (\<lambda>s. add_ref rhs (set_ptr v rhs s)) = Inr s' \<and> shared_ok s'"
proof -
  let ?V = "(vars s)(v \<mapsto> None)"
  obtain s1 where d: "drop_ref p s = Inr s1" "ref_count s1 = counts ?V" "vars s1 = vars s"
    by (rule drop_ok [OF f v, of "Some None"]) auto
  have fV: "finite (dom ?V)" using f by simp
  have "counts ?V a \<noteq> None" if "rhs = Some a" for a
    using r f(3) n counts_other [of "vars s" v p a "Some None"] v that by auto
  then obtain s2 where a: "add_ref rhs (set_ptr v rhs s1) = Inr s2" "ref_count s2 = counts (?V(v \<mapsto> rhs))"
      "vars s2 = vars (set_ptr v rhs s1)"
    using add_ok [OF fV, of "set_ptr v rhs s1" v rhs] d(2) by (auto simp: set_ptr_def)
  then have "shared_ok s2" using d(3) same_dom [OF f(1,2) v, of "Some rhs"] by (simp add: shared_ok_counts set_ptr_def)
  then show ?thesis using d(1) a(1) by simp
qed

lemma shared_step_ok:
  assumes ok: "shared_ok s" and op: "op_ok op s"
  shows "\<exists>s'. shared_step op s = Inr s' \<and> shared_ok s'"
proof -
  have f: "finite (dom (vars s))" "card (dom (vars s)) < 2 ^ 32" "ref_count s = counts (vars s)"
    using ok by (simp_all add: shared_ok_counts)
  have live: "ref_count s a \<noteq> None" if "vars s w = Some (Some a)" for w a
    using counts_pointed [OF f(1) that] f(3) by simp
  show ?thesis
  proof (cases op)
    case (Null v)
    then show ?thesis using op grown_dom [OF f(1), of v "Some None"] counts_null [of "vars s" v "Some None"]
      by (auto simp: shared_ok_counts set_ptr_def f(3))
  next
    case (Make v a)
    have "ref_count s a = None" "vars s v = None" using op Make by simp_all
    then have "counts ((vars s)(v \<mapsto> Some a)) = (counts (vars s))(a \<mapsto> 1)"
      using counts_point [OF f(1), of v a] f(3) by simp
    then show ?thesis using op Make grown_dom [OF f(1), of v "Some (Some a)"]
      by (auto simp: shared_ok_counts set_ptr_def add_ref_def add_fetch_def f(3))
  next
    case (Copy v w)
    then obtain p where p: "vars s w = Some p" using op by auto
    have "\<forall>a. p = Some a \<longrightarrow> counts (vars s) a \<noteq> None" using live p f(3) by auto
    then obtain s' where "add_ref p (set_ptr v p s) = Inr s'" "ref_count s' = counts ((vars s)(v \<mapsto> p))"
        "vars s' = (vars s)(v \<mapsto> p)"
      using add_ok [OF f(1), of "set_ptr v p s" v p] op Copy f(3) by (auto simp: set_ptr_def)
    then show ?thesis using op Copy p grown_dom [OF f(1), of v "Some p"] by (auto simp: shared_ok_counts get_ptr_eq)
  next
    case (Move v w)
    then obtain p where p: "vars s w = Some p" using op by auto
    have n: "v \<noteq> w" using op Move by auto
    have fd: "finite (dom ((vars s)(v \<mapsto> p))) \<and> card (dom ((vars s)(v \<mapsto> p))) < 2 ^ 32"
      by (rule grown_dom [OF f(1)]) (use op Move in simp)
    have "counts ((vars s)(v \<mapsto> p, w \<mapsto> None)) = counts (vars s)"
      by (rule counts_move [OF f(1) _ p n]) (use op Move in simp)
    then show ?thesis
      using p n Move fd same_dom [of "(vars s)(v \<mapsto> p)" w p "Some None"]
      by (auto simp: shared_ok_counts set_ptr_def get_ptr_eq f(3))
  next
    case (Destroy v)
    then obtain p where p: "vars s v = Some p" using op by auto
    obtain s1 where "drop_ref p s = Inr s1" "ref_count s1 = counts ((vars s)(v := None))" "vars s1 = vars s"
      by (rule drop_ok [OF f p, of None]) auto
    then show ?thesis using p Destroy same_dom [OF f(1,2) p, of None] by (auto simp: shared_ok_counts get_ptr_eq)
  next
    case (AssignPtr v rhs)
    then obtain p where p: "vars s v = Some p" using op by auto
    have "\<forall>a. rhs = Some a \<longrightarrow> ref_count s a \<noteq> None" using op AssignPtr by auto
    from assign_ok [OF f p this] show ?thesis using AssignPtr p ok by (auto simp: get_ptr_eq)
  next
    case (Assign v w)
    then obtain p q where p: "vars s v = Some p" "vars s w = Some q" using op by auto
    have "\<forall>a. q = Some a \<longrightarrow> ref_count s a \<noteq> None" using live p(2) by auto
    from assign_ok [OF f p(1) this] show ?thesis using Assign p ok by (auto simp: get_ptr_eq)
  next
    case (MoveAssign v w)
    then obtain p q where p: "vars s v = Some p" "vars s w = Some q" using op by auto
    let ?V = "(vars s)(v \<mapsto> None)"
    obtain s1 where d: "drop_ref p s = Inr s1" "ref_count s1 = counts ?V" "vars s1 = vars s"
      by (rule drop_ok [OF f p(1), of "Some None"]) auto
    have fd: "finite (dom ((vars s)(v := x))) \<and> card (dom ((vars s)(v := x))) < 2 ^ 32" for x
      by (rule same_dom [OF f(1,2) p(1)])
    have "counts ((vars s)(v \<mapsto> q, w \<mapsto> None)) = counts ?V"
    proof (cases "v = w")
      case False
      then have "counts (?V(v \<mapsto> q, w \<mapsto> None)) = counts ?V"
        by (intro counts_move) (use f p in auto)
      then show ?thesis by simp
    qed simp
    moreover have q: "((vars s)(v \<mapsto> q)) w = Some q" using p by simp
    ultimately have "shared_ok (set_ptr w None (set_ptr v q s1))"
      using same_dom [OF fd [of "Some q", THEN conjunct1] fd [of "Some q", THEN conjunct2] q, of "Some None"] d(2,3)
      unfolding shared_ok_counts set_ptr_def by (simp del: dom_fun_upd fun_upd_apply)
    then show ?thesis using d p MoveAssign by (simp add: get_ptr_def)
  qed
qed

section \<open>Property\<close>

fun ops_ok :: "'v shared_op list \<Rightarrow> 'v shared_state \<Rightarrow> bool" where
  "ops_ok [] s = True"
| "ops_ok (op # ops) s = (op_ok op s \<and> (case shared_step op s of Inl _ \<Rightarrow> True | Inr s' \<Rightarrow> ops_ok ops s'))"

text \<open>
  C28. Reference counting is safe: whatever sequence of constructions, copies, moves, assignments
  and destructions of handles a program runs, no operation touches a deleted object, every live
  object has as its count the number of handles that point to it, and an object is live exactly as
  long as a handle points to it.
\<close>

theorem handles_keep_objects_alive:
  assumes "shared_ok s" "ops_ok ops s"
  shows "\<exists>s'. run_ops ops s = Inr s' \<and>
    (\<forall>a. ref_count s' a = (if handles s' a = {} then None else Some (of_nat (card (handles s' a)))))"
proof -
  have "\<exists>s'. run_ops ops s = Inr s' \<and> shared_ok s'"
    using assms
  proof (induction ops arbitrary: s)
    case (Cons op ops)
    obtain s1 where "shared_step op s = Inr s1" "shared_ok s1"
      using shared_step_ok [OF Cons.prems(1)] Cons.prems(2) by auto
    with Cons show ?case by (auto simp: run_ops_def)
  qed (simp add: run_ops_def)
  then show ?thesis by (auto simp: shared_ok_def)
qed

theorem handles_keep_objects_alive_witness:
  "\<exists>s'. run_ops [Make ''a'' 64, Copy ''b'' ''a'', Null ''c'', MoveAssign ''c'' ''a'', Assign ''b'' ''a'']
     \<lparr>ref_count = Map.empty, vars = Map.empty, deleted = []\<rparr> = Inr s' \<and> ref_count s' 64 = Some 1"
proof -
  let ?s = "\<lparr>ref_count = Map.empty, vars = Map.empty, deleted = []\<rparr> :: string shared_state"
  let ?ops = "[Make ''a'' 64, Copy ''b'' ''a'', Null ''c'', MoveAssign ''c'' ''a'', Assign ''b'' ''a'']"
  have "shared_ok ?s" by (simp add: shared_ok_def handles_def)
  moreover have "ops_ok ?ops ?s"
    by (simp add: set_ptr_def add_ref_def drop_ref_def add_fetch_def get_ptr_def)
  ultimately obtain s' where s: "run_ops ?ops ?s = Inr s'"
    "\<forall>a. ref_count s' a = (if handles s' a = {} then None else Some (of_nat (card (handles s' a))))"
    using handles_keep_objects_alive by blast
  have "handles s' 64 = {''c''}" using s(1)
    by (auto simp: run_ops_def set_ptr_def add_ref_def drop_ref_def add_fetch_def get_ptr_def handles_def split: if_splits)
  with s show ?thesis by auto
qed

end
