(* ===== verification/Queue.thy ===== *)
theory Queue
  imports Prelude
begin

text \<open>
  The intrusive queue of \<^verbatim>\<open>src/kernel/queue.h\<close>: the elements are linked through their own
  \<^verbatim>\<open>next\<close> fields, the queue holds pointers to its ends. All queues of threads share the
  \<^verbatim>\<open>next\<close> fields, so the model passes the map of these fields along. A null pointer is
  \<open>None\<close>. The operations run under the queue's lock and are single steps.
\<close>

section \<open>Operations\<close>

record 'a queue =
  first :: "'a option"
  last_of :: "'a option"

definition q_new :: "'a queue" where
  "q_new = \<lparr>first = None, last_of = None\<rparr>"

definition q_add :: "('a \<Rightarrow> 'a option) \<Rightarrow> 'a queue \<Rightarrow> 'a \<Rightarrow> ('a \<Rightarrow> 'a option) \<times> 'a queue" where
  "q_add nx q t =
     (let nx1 = nx(t := None) in
      case first q of
        None \<Rightarrow> (nx1, q\<lparr>first := Some t, last_of := Some t\<rparr>)
      | Some _ \<Rightarrow> (case last_of q of
            Some l \<Rightarrow> (nx1(l := Some t), q\<lparr>last_of := Some t\<rparr>)
          | None \<Rightarrow> (nx1, q\<lparr>last_of := Some t\<rparr>)))"

definition q_remove :: "('a \<Rightarrow> 'a option) \<Rightarrow> 'a queue \<Rightarrow> 'a option \<times> 'a queue" where
  "q_remove nx q =
     (case first q of
        None \<Rightarrow> (None, q)
      | Some it \<Rightarrow>
          (let q1 = q\<lparr>first := nx it\<rparr> in
           (Some it, if first q1 = None then q1\<lparr>last_of := None\<rparr> else q1)))"

definition q_remove_all :: "'a queue \<Rightarrow> 'a option \<times> 'a queue" where
  "q_remove_all q = (first q, q\<lparr>first := None, last_of := None\<rparr>)"

section \<open>The list a queue represents\<close>

fun chain :: "('a \<Rightarrow> 'a option) \<Rightarrow> 'a option \<Rightarrow> 'a list \<Rightarrow> bool" where
  "chain nx p [] = (p = None)"
| "chain nx p (x # xs) = (p = Some x \<and> chain nx (nx x) xs)"

definition q_list :: "('a \<Rightarrow> 'a option) \<Rightarrow> 'a queue \<Rightarrow> 'a list \<Rightarrow> bool" where
  "q_list nx q xs \<longleftrightarrow> distinct xs \<and> chain nx (first q) xs \<and> (xs \<noteq> [] \<longrightarrow> last_of q = Some (last xs))"

lemma chain_cong: "chain nx p xs \<Longrightarrow> (\<And>x. x \<in> set xs \<Longrightarrow> nx' x = nx x) \<Longrightarrow> chain nx' p xs"
  by (induction xs arbitrary: p) auto

lemma chain_unique: "chain nx p xs \<Longrightarrow> chain nx p ys \<Longrightarrow> xs = ys"
  by (induction xs arbitrary: p ys) (case_tac ys; auto)+

lemma q_list_unique: "q_list nx q xs \<Longrightarrow> q_list nx q ys \<Longrightarrow> xs = ys"
  unfolding q_list_def using chain_unique by blast

lemma q_list_frame: "q_list nx q xs \<Longrightarrow> (\<And>x. x \<in> set xs \<Longrightarrow> nx' x = nx x) \<Longrightarrow> q_list nx' q xs"
  unfolding q_list_def using chain_cong [of nx "first q" xs nx'] by auto

lemma q_new_list [simp]: "q_list nx q_new []"
  by (simp add: q_list_def q_new_def)

lemma chain_snoc:
  "chain nx p (xs @ [l]) \<Longrightarrow> distinct (xs @ [l]) \<Longrightarrow> t \<notin> set (xs @ [l]) \<Longrightarrow>
     chain (nx(t := None, l := Some t)) p (xs @ [l, t])"
proof (induction xs arbitrary: p)
  case (Cons x xs)
  then show ?case by auto
qed auto

lemma q_add_list:
  assumes q: "q_list nx q xs" and t: "t \<notin> set xs"
  shows "q_list (fst (q_add nx q t)) (snd (q_add nx q t)) (xs @ [t])"
    and "x \<noteq> t \<Longrightarrow> x \<notin> set xs \<Longrightarrow> fst (q_add nx q t) x = nx x"
proof -
  show "q_list (fst (q_add nx q t)) (snd (q_add nx q t)) (xs @ [t])"
  proof (cases xs rule: rev_cases)
    case Nil
    then show ?thesis using q by (simp add: q_list_def q_add_def Let_def)
  next
    case (snoc ys l)
    obtain f where f: "first q = Some f"
      using q snoc by (cases ys) (auto simp: q_list_def)
    have l: "last_of q = Some l" using q snoc by (simp add: q_list_def)
    have "chain (nx(t := None, l := Some t)) (first q) (ys @ [l, t])"
      using q t snoc by (intro chain_snoc) (auto simp: q_list_def)
    then show ?thesis using q t snoc f l by (auto simp: q_list_def q_add_def Let_def)
  qed
  show "x \<noteq> t \<Longrightarrow> x \<notin> set xs \<Longrightarrow> fst (q_add nx q t) x = nx x"
    using q by (cases xs rule: rev_cases)
      (auto simp: q_list_def q_add_def Let_def split: option.splits)
qed

lemma q_remove_list:
  assumes q: "q_list nx q xs"
  shows "fst (q_remove nx q) = (case xs of [] \<Rightarrow> None | x # _ \<Rightarrow> Some x)"
    and "q_list nx (snd (q_remove nx q)) (tl xs)"
proof -
  show "fst (q_remove nx q) = (case xs of [] \<Rightarrow> None | x # _ \<Rightarrow> Some x)"
    using q by (cases xs) (auto simp: q_list_def q_remove_def Let_def)
  show "q_list nx (snd (q_remove nx q)) (tl xs)"
  proof (cases xs)
    case (Cons x ys)
    then show ?thesis using q by (cases ys) (auto simp: q_list_def q_remove_def Let_def)
  qed (use q in \<open>auto simp: q_list_def q_remove_def\<close>)
qed

section \<open>The interface to the scheduler\<close>

text \<open>
  A first-in first-out queue over a shared store: \<open>view st q xs\<close> relates the queue to its
  contents, and adding an element touches only the queue's own elements in the store.
\<close>

locale fifo =
  fixes enq :: "'st \<Rightarrow> 'q \<Rightarrow> 'a \<Rightarrow> 'st \<times> 'q"
    and deq :: "'st \<Rightarrow> 'q \<Rightarrow> 'a option \<times> 'q"
    and view :: "'st \<Rightarrow> 'q \<Rightarrow> 'a list \<Rightarrow> bool"
  assumes enq_view: "view st q xs \<Longrightarrow> t \<notin> set xs \<Longrightarrow>
      view (fst (enq st q t)) (snd (enq st q t)) (xs @ [t])"
    and enq_frame: "view st q xs \<Longrightarrow> t \<notin> set xs \<Longrightarrow> view st p ys \<Longrightarrow>
      set ys \<inter> insert t (set xs) = {} \<Longrightarrow> view (fst (enq st q t)) p ys"
    and deq_some: "view st q (x # xs) \<Longrightarrow> fst (deq st q) = Some x \<and> view st (snd (deq st q)) xs"
    and deq_none: "view st q [] \<Longrightarrow> fst (deq st q) = None \<and> view st (snd (deq st q)) []"
    and view_unique: "view st q xs \<Longrightarrow> view st q ys \<Longrightarrow> xs = ys"
    and view_distinct: "view st q xs \<Longrightarrow> distinct xs"
begin

lemma deq_cases:
  assumes "view st q xs"
  obtains "xs = []" "fst (deq st q) = None" "view st (snd (deq st q)) []"
  | x ys where "xs = x # ys" "fst (deq st q) = Some x" "view st (snd (deq st q)) ys"
  using assms deq_some deq_none by (cases xs) auto

text \<open>Adding elements one after the other and removing as many gives them back in order.\<close>

fun enq_all :: "'a list \<Rightarrow> 'st \<times> 'q \<Rightarrow> 'st \<times> 'q" where
  "enq_all [] sq = sq"
| "enq_all (t # ts) (st, q) = enq_all ts (enq st q t)"

lemma enq_all_view:
  "view st q xs \<Longrightarrow> distinct ts \<Longrightarrow> set ts \<inter> set xs = {} \<Longrightarrow>
     view (fst (enq_all ts (st, q))) (snd (enq_all ts (st, q))) (xs @ ts)"
proof (induction ts arbitrary: st q xs)
  case (Cons t ts)
  have "view (fst (enq st q t)) (snd (enq st q t)) (xs @ [t])"
    using Cons.prems by (intro enq_view) auto
  then have "view (fst (enq_all ts (fst (enq st q t), snd (enq st q t))))
      (snd (enq_all ts (fst (enq st q t), snd (enq st q t)))) ((xs @ [t]) @ ts)"
    using Cons.prems by (intro Cons.IH) auto
  then show ?case by simp
qed simp

end

interpretation tq: fifo q_add q_remove q_list
proof (rule fifo.intro)
  fix nx :: "'a \<Rightarrow> 'a option" and q p :: "'a queue" and x t xs ys
  show "q_list nx q xs \<Longrightarrow> t \<notin> set xs \<Longrightarrow> q_list (fst (q_add nx q t)) (snd (q_add nx q t)) (xs @ [t])"
    by (rule q_add_list)
  show "q_list (fst (q_add nx q t)) p ys"
    if q: "q_list nx q xs" "t \<notin> set xs" and p: "q_list nx p ys" "set ys \<inter> insert t (set xs) = {}"
  proof (rule q_list_frame [OF p(1)])
    fix y assume "y \<in> set ys"
    then have "y \<noteq> t" "y \<notin> set xs" using p(2) by auto
    then show "fst (q_add nx q t) y = nx y" by (rule q_add_list(2) [OF q])
  qed
  show "fst (q_remove nx q) = Some x \<and> q_list nx (snd (q_remove nx q)) xs"
    if "q_list nx q (x # xs)" using q_remove_list [OF that] by simp
  show "fst (q_remove nx q) = None \<and> q_list nx (snd (q_remove nx q)) []"
    if "q_list nx q []" using q_remove_list [OF that] by simp
  show "q_list nx q xs \<Longrightarrow> q_list nx q ys \<Longrightarrow> xs = ys" by (rule q_list_unique)
  show "q_list nx q xs \<Longrightarrow> distinct xs" by (simp add: q_list_def)
qed

end
