(* ===== verification/Sched.thy ===== *)
theory Sched
  imports Queue
begin

text \<open>
  Threads, the scheduler, the timer's preemption and counting semaphores:
  \<^verbatim>\<open>src/kernel/threads.h\<close>, \<^verbatim>\<open>threads.cc\<close>, \<^verbatim>\<open>context.s\<close>, \<^verbatim>\<open>semaphore.h\<close> and \<^verbatim>\<open>apitHandler\<close> of
  \<^verbatim>\<open>pit.cc\<close>. The cores run in parallel: the state of the system changes by events, each one
  being what a core does between two points at which other cores can interfere; a run of
  the system is a sequence of events of all cores in any order.
\<close>

section \<open>State\<close>

text \<open>
  A thread control block; \<open>pend\<close> is the local variable \<^verbatim>\<open>next\<close> of \<^verbatim>\<open>Semaphore::up\<close> while
  the thread has unlocked the semaphore but not yet scheduled the thread it woke up.
\<close>

record tcb =
  isIdle :: bool
  tcb_next :: "nat option"
  no_preempt :: bool
  pend :: "nat option"

text \<open>
  The function a caller of \<^verbatim>\<open>block\<close> passes, which runs on the stack of the thread switched
  to: \<^verbatim>\<open>yield\<close> schedules the previous thread, \<^verbatim>\<open>stop\<close> makes it a zombie, and \<^verbatim>\<open>down\<close> on
  semaphore \<open>k\<close> adds it to the semaphore's queue and releases the semaphore's lock.
\<close>

datatype action = Reschedule | Retire | Park nat

datatype blockOption = MustBlock | CanReturn

text \<open>
  What a core is doing: running its active thread; spinning in \<^verbatim>\<open>block\<close> because its idle
  thread found nothing to switch to; or between having picked the next thread and having
  run the action for the thread it left.
\<close>

datatype phase = Running | Spinning action | Switching nat action

record sem =
  count :: u64
  locked :: bool
  waiting :: "nat queue"

record sched =
  cores :: nat
  tcbs :: "nat \<Rightarrow> tcb"
  next_id :: nat
  readyQ :: "nat queue"
  zombies :: "nat queue"
  activeThreads :: "nat \<Rightarrow> nat"
  idleThreads :: "nat \<Rightarrow> nat"
  phases :: "nat \<Rightarrow> phase"
  sems :: "nat \<Rightarrow> sem"

definition nexts :: "sched \<Rightarrow> nat \<Rightarrow> nat option" where
  "nexts s t = tcb_next (tcbs s t)"

definition set_nexts :: "(nat \<Rightarrow> nat option) \<Rightarrow> sched \<Rightarrow> sched" where
  "set_nexts nx s = s\<lparr>tcbs := (\<lambda>t. (tcbs s t)\<lparr>tcb_next := nx t\<rparr>)\<rparr>"

definition set_no_preempt :: "nat \<Rightarrow> bool \<Rightarrow> sched \<Rightarrow> sched" where
  "set_no_preempt t b s = s\<lparr>tcbs := (tcbs s)(t := (tcbs s t)\<lparr>no_preempt := b\<rparr>)\<rparr>"

definition set_pend :: "nat \<Rightarrow> nat option \<Rightarrow> sched \<Rightarrow> sched" where
  "set_pend t p s = s\<lparr>tcbs := (tcbs s)(t := (tcbs s t)\<lparr>pend := p\<rparr>)\<rparr>"

definition set_sem :: "nat \<Rightarrow> sem \<Rightarrow> sched \<Rightarrow> sched" where
  "set_sem k m s = s\<lparr>sems := (sems s)(k := m)\<rparr>"

definition set_phase :: "nat \<Rightarrow> phase \<Rightarrow> sched \<Rightarrow> sched" where
  "set_phase c p s = s\<lparr>phases := (phases s)(c := p)\<rparr>"

section \<open>Queues of threads\<close>

definition ready_add :: "nat \<Rightarrow> sched \<Rightarrow> sched" where
  "ready_add t s = (let r = q_add (nexts s) (readyQ s) t in (set_nexts (fst r) s)\<lparr>readyQ := snd r\<rparr>)"

definition zombie_add :: "nat \<Rightarrow> sched \<Rightarrow> sched" where
  "zombie_add t s = (let r = q_add (nexts s) (zombies s) t in (set_nexts (fst r) s)\<lparr>zombies := snd r\<rparr>)"

definition waiting_add :: "nat \<Rightarrow> nat \<Rightarrow> sched \<Rightarrow> sched" where
  "waiting_add k t s =
     (let r = q_add (nexts s) (waiting (sems s k)) t
      in set_sem k ((sems s k)\<lparr>waiting := snd r\<rparr>) (set_nexts (fst r) s))"

definition schedule :: "nat \<Rightarrow> sched \<Rightarrow> sched" where
  "schedule t s = (if \<not> isIdle (tcbs s t) then ready_add t s else s)"

section \<open>Blocking and switching\<close>

text \<open>
  The loop of \<^verbatim>\<open>block\<close> from \<^verbatim>\<open>again:\<close> up to the context switch, by the active thread of core
  \<open>c\<close>: it switches, returns without switching, or goes on spinning.
\<close>

definition pick_next :: "nat \<Rightarrow> blockOption \<Rightarrow> action \<Rightarrow> sched \<Rightarrow> sched" where
  "pick_next c opt act s =
     (let me = activeThreads s c;
          (nxt, q) = q_remove (nexts s) (readyQ s);
          s1 = s\<lparr>readyQ := q\<rparr>;
          switch = (\<lambda>n. set_phase c (Switching me act)
                     ((set_no_preempt n True s1)\<lparr>activeThreads := (activeThreads s)(c := n)\<rparr>))
      in case nxt of
           Some n \<Rightarrow> switch n
         | None \<Rightarrow>
             (if opt = CanReturn then set_phase c Running s1
              else if isIdle (tcbs s me) then set_phase c (Spinning act) s1
              else switch (idleThreads s c)))"

definition block :: "nat \<Rightarrow> blockOption \<Rightarrow> action \<Rightarrow> sched \<Rightarrow> sched" where
  "block c opt act s = pick_next c opt act (set_no_preempt (activeThreads s c) True s)"

text \<open>
  The end of \<^verbatim>\<open>gheith_contextSwitch\<close>: both threads become preemptible and the action runs
  with interrupts disabled.
\<close>

definition run_action :: "action \<Rightarrow> nat \<Rightarrow> sched \<Rightarrow> sched result" where
  "run_action act me s =
     (case act of
        Reschedule \<Rightarrow> Inr (schedule me s)
      | Retire \<Rightarrow> Inr (if \<not> isIdle (tcbs s me) then zombie_add me s else s)
      | Park k \<Rightarrow>
          bindR (assertR (\<not> isIdle (tcbs s me)) ''!me->isIdle'') (\<lambda>_.
          let s1 = waiting_add k me s in Inr (set_sem k ((sems s1 k)\<lparr>locked := False\<rparr>) s1)))"

definition finish_switch :: "nat \<Rightarrow> nat \<Rightarrow> action \<Rightarrow> sched \<Rightarrow> sched result" where
  "finish_switch c me act s =
     run_action act me
       (set_phase c Running (set_no_preempt (activeThreads s c) False (set_no_preempt me False s)))"

section \<open>Semaphores\<close>

definition down :: "nat \<Rightarrow> nat \<Rightarrow> sched \<Rightarrow> sched" where
  "down c k s =
     (let m = sems s k in
      if count m > 0 then set_sem k (m\<lparr>count := count m - 1\<rparr>) s
      else block c MustBlock (Park k) (set_sem k (m\<lparr>locked := True\<rparr>) s))"

definition up :: "nat \<Rightarrow> nat \<Rightarrow> sched \<Rightarrow> sched" where
  "up c k s =
     (let m = sems s k;
          (nxt, q) = q_remove (nexts s) (waiting m)
      in case nxt of
           None \<Rightarrow> set_sem k (m\<lparr>count := count m + 1, waiting := q\<rparr>) s
         | Some n \<Rightarrow> set_pend (activeThreads s c) (Some n) (set_sem k (m\<lparr>waiting := q\<rparr>) s))"

definition up_schedule :: "nat \<Rightarrow> sched \<Rightarrow> sched" where
  "up_schedule c s =
     (let me = activeThreads s c in
      case pend (tcbs s me) of
        Some n \<Rightarrow> schedule n (set_pend me None s)
      | None \<Rightarrow> s)"

section \<open>Threads\<close>

text \<open>
  Creating a thread, one round of \<^verbatim>\<open>delete_zombies\<close> and the timer interrupt.
\<close>

definition new_tcb :: tcb where
  "new_tcb = \<lparr>isIdle = False, tcb_next = None, no_preempt = False, pend = None\<rparr>"

definition spawn :: "sched \<Rightarrow> sched" where
  "spawn s =
     (let t = next_id s
      in schedule t (s\<lparr>next_id := t + 1, tcbs := (tcbs s)(t := new_tcb)\<rparr>))"

definition reap :: "sched \<Rightarrow> nat option \<times> sched" where
  "reap s = (let (it, q) = q_remove (nexts s) (zombies s) in (it, s\<lparr>zombies := q\<rparr>))"

definition yield :: "nat \<Rightarrow> sched \<Rightarrow> sched" where
  "yield c s = block c CanReturn Reschedule s"

definition stop :: "nat \<Rightarrow> sched \<Rightarrow> sched" where
  "stop c s = block c MustBlock Retire s"

definition apitHandler :: "nat \<Rightarrow> sched \<Rightarrow> sched" where
  "apitHandler c s =
     (let me = tcbs s (activeThreads s c)
      in if isIdle me \<or> no_preempt me then s else yield c s)"

definition threadsInit :: "nat \<Rightarrow> (nat \<Rightarrow> u64) \<Rightarrow> sched" where
  "threadsInit n counts =
     spawn \<lparr>cores = n,
       tcbs = (\<lambda>_. \<lparr>isIdle = True, tcb_next = None, no_preempt = False, pend = None\<rparr>),
       next_id = n, readyQ = q_new, zombies = q_new,
       activeThreads = (\<lambda>i. i), idleThreads = (\<lambda>i. i), phases = (\<lambda>_. Running),
       sems = (\<lambda>k. \<lparr>count = counts k, locked = False, waiting = q_new\<rparr>)\<rparr>"

section \<open>Runs of the system\<close>

text \<open>
  The events and when they can happen. Semaphore operations wait for the semaphore's lock;
  a thread that still has to schedule the one it woke up does that first; the timer can
  interrupt a core at any time.
\<close>

datatype event =
    Yield nat | Stop nat | Down nat nat | Up nat nat | UpSchedule nat | Finish nat | Retry nat
  | Tick nat | Spawn nat | Reap nat

definition ready_core :: "nat \<Rightarrow> sched \<Rightarrow> bool" where
  "ready_core c s \<longleftrightarrow> c < cores s \<and> phases s c = Running \<and> pend (tcbs s (activeThreads s c)) = None"

fun enabled :: "event \<Rightarrow> sched \<Rightarrow> bool" where
  "enabled (Yield c) s = ready_core c s"
| "enabled (Stop c) s = ready_core c s"
| "enabled (Down c k) s = (ready_core c s \<and> \<not> locked (sems s k))"
| "enabled (Up c k) s = (ready_core c s \<and> \<not> locked (sems s k))"
| "enabled (UpSchedule c) s =
     (c < cores s \<and> phases s c = Running \<and> pend (tcbs s (activeThreads s c)) \<noteq> None)"
| "enabled (Finish c) s = (c < cores s \<and> (\<exists>me act. phases s c = Switching me act))"
| "enabled (Retry c) s = (c < cores s \<and> (\<exists>act. phases s c = Spinning act))"
| "enabled (Tick c) s = (c < cores s)"
| "enabled (Spawn c) s = ready_core c s"
| "enabled (Reap c) s = ready_core c s"

fun step :: "event \<Rightarrow> sched \<Rightarrow> sched result" where
  "step (Yield c) s = Inr (yield c s)"
| "step (Stop c) s = Inr (stop c s)"
| "step (Down c k) s = Inr (down c k s)"
| "step (Up c k) s = Inr (up c k s)"
| "step (UpSchedule c) s = Inr (up_schedule c s)"
| "step (Finish c) s = (case phases s c of Switching me act \<Rightarrow> finish_switch c me act s | _ \<Rightarrow> Inr s)"
| "step (Retry c) s = (case phases s c of Spinning act \<Rightarrow> Inr (pick_next c MustBlock act s) | _ \<Rightarrow> Inr s)"
| "step (Tick c) s = Inr (apitHandler c s)"
| "step (Spawn c) s = Inr (spawn s)"
| "step (Reap c) s = Inr (snd (reap s))"

text \<open>
  The states the system can reach. Idle threads run nothing but the kernel's boot code, which
  never waits for a semaphore that is not available.
\<close>

definition well_used :: "event \<Rightarrow> sched \<Rightarrow> bool" where
  "well_used e s \<longleftrightarrow>
     (\<forall>c k. e = Down c k \<longrightarrow> isIdle (tcbs s (activeThreads s c)) \<longrightarrow> 0 < count (sems s k))"

inductive reachable :: "nat \<Rightarrow> (nat \<Rightarrow> u64) \<Rightarrow> sched \<Rightarrow> bool" for n counts where
  init: "reachable n counts (threadsInit n counts)"
| step: "reachable n counts s \<Longrightarrow> enabled e s \<Longrightarrow> well_used e s \<Longrightarrow> step e s = Inr s' \<Longrightarrow>
     reachable n counts s'"

end
