(* ===== verification/Sched_Inv.thy ===== *)
theory Sched_Inv
  imports Sched
begin

text \<open>
  The scheduler's invariant: every thread is in exactly one place. The place of each thread is
  a function \<open>pl\<close>; each queue contains exactly the threads whose place it is.
\<close>

datatype place =
    Unborn | Dead | Ready | Zombie | WaitFor nat | OnCore nat | Leaving nat | Woken nat | IdleOff nat

section \<open>The invariant\<close>

definition qinv :: "sched \<Rightarrow> (nat \<Rightarrow> place) \<Rightarrow> nat list \<Rightarrow> nat list \<Rightarrow> (nat \<Rightarrow> nat list) \<Rightarrow> bool" where
  "qinv s pl rl zl wl \<longleftrightarrow>
     q_list (nexts s) (readyQ s) rl \<and> q_list (nexts s) (zombies s) zl \<and>
     (\<forall>k. q_list (nexts s) (waiting (sems s k)) (wl k)) \<and>
     set rl = {t. pl t = Ready} \<and> set zl = {t. pl t = Zombie} \<and>
     (\<forall>k. set (wl k) = {t. pl t = WaitFor k})"

definition cinv :: "sched \<Rightarrow> (nat \<Rightarrow> place) \<Rightarrow> bool" where
  "cinv s pl \<longleftrightarrow>
     (\<forall>t c. pl t = OnCore c \<longleftrightarrow> c < cores s \<and> activeThreads s c = t) \<and>
     (\<forall>t c. pl t = Leaving c \<longleftrightarrow> c < cores s \<and> (\<exists>act. phases s c = Switching t act)) \<and>
     (\<forall>t u. pl t = Woken u \<longleftrightarrow> pend (tcbs s u) = Some t) \<and>
     (\<forall>t. pl t = Unborn \<longleftrightarrow> next_id s \<le> t) \<and>
     (\<forall>t < next_id s. isIdle (tcbs s t) \<longleftrightarrow> t < cores s) \<and>
     (\<forall>t. next_id s \<le> t \<longrightarrow> pend (tcbs s t) = None) \<and>
     (\<forall>c < cores s. pl c = OnCore c \<or> pl c = Leaving c \<or> pl c = IdleOff c) \<and>
     (\<forall>t c. pl t = IdleOff c \<longrightarrow> t = c \<and> c < cores s) \<and>
     cores s \<le> next_id s \<and> (\<forall>c < cores s. idleThreads s c = c) \<and>
     (\<forall>c < cores s. phases s c \<noteq> Running \<longrightarrow> no_preempt (tcbs s (activeThreads s c))) \<and>
     (\<forall>c < cores s. \<forall>act. phases s c = Spinning act \<longrightarrow> activeThreads s c = c \<and> (\<forall>k. act \<noteq> Park k)) \<and>
     (\<forall>k. locked (sems s k) \<longleftrightarrow> (\<exists>c < cores s. \<exists>t. phases s c = Switching t (Park k))) \<and>
     (\<forall>c < cores s. \<forall>c' < cores s. \<forall>t t' k. phases s c = Switching t (Park k) \<longrightarrow>
        phases s c' = Switching t' (Park k) \<longrightarrow> c = c') \<and>
     (\<forall>c < cores s. \<forall>t k. phases s c = Switching t (Park k) \<longrightarrow> cores s \<le> t \<and> count (sems s k) = 0) \<and>
     (\<forall>k. count (sems s k) \<noteq> 0 \<longrightarrow> (\<forall>t. pl t \<noteq> WaitFor k))"

definition sinv :: "sched \<Rightarrow> bool" where
  "sinv s \<longleftrightarrow> (\<exists>pl rl zl wl. qinv s pl rl zl wl \<and> cinv s pl)"

lemmas sched_defs = set_nexts_def set_no_preempt_def set_pend_def set_sem_def set_phase_def
  ready_add_def zombie_add_def waiting_add_def Let_def

section \<open>Queues\<close>

lemma sched_sel [simp]:
  "cores (set_nexts nx s) = cores s" "next_id (set_nexts nx s) = next_id s" "readyQ (set_nexts nx s) = readyQ s" "zombies (set_nexts nx s) = zombies s"
  "activeThreads (set_nexts nx s) = activeThreads s" "idleThreads (set_nexts nx s) = idleThreads s" "phases (set_nexts nx s) = phases s" "sems (set_nexts nx s) = sems s"
  "cores (set_no_preempt t b s) = cores s" "next_id (set_no_preempt t b s) = next_id s" "readyQ (set_no_preempt t b s) = readyQ s" "zombies (set_no_preempt t b s) = zombies s"
  "activeThreads (set_no_preempt t b s) = activeThreads s" "idleThreads (set_no_preempt t b s) = idleThreads s" "phases (set_no_preempt t b s) = phases s" "sems (set_no_preempt t b s) = sems s"
  "cores (set_pend t p s) = cores s" "next_id (set_pend t p s) = next_id s" "readyQ (set_pend t p s) = readyQ s" "zombies (set_pend t p s) = zombies s"
  "activeThreads (set_pend t p s) = activeThreads s" "idleThreads (set_pend t p s) = idleThreads s" "phases (set_pend t p s) = phases s" "sems (set_pend t p s) = sems s"
  "cores (set_sem k m s) = cores s" "next_id (set_sem k m s) = next_id s" "readyQ (set_sem k m s) = readyQ s" "zombies (set_sem k m s) = zombies s"
  "activeThreads (set_sem k m s) = activeThreads s" "idleThreads (set_sem k m s) = idleThreads s" "phases (set_sem k m s) = phases s"
  "cores (set_phase c ph s) = cores s" "next_id (set_phase c ph s) = next_id s" "readyQ (set_phase c ph s) = readyQ s" "zombies (set_phase c ph s) = zombies s"
  "activeThreads (set_phase c ph s) = activeThreads s" "idleThreads (set_phase c ph s) = idleThreads s" "sems (set_phase c ph s) = sems s"
  "sems (set_sem k m s) = (sems s)(k := m)" "phases (set_phase c ph s) = (phases s)(c := ph)"
  by (simp_all add: sched_defs)

lemma tcb_sel [simp]:
  "isIdle (tcbs (set_nexts nx s) t) = isIdle (tcbs s t)" "isIdle (tcbs (set_no_preempt u b s) t) = isIdle (tcbs s t)"
  "isIdle (tcbs (set_pend u p s) t) = isIdle (tcbs s t)"
  "pend (tcbs (set_nexts nx s) t) = pend (tcbs s t)" "pend (tcbs (set_no_preempt u b s) t) = pend (tcbs s t)"
  "pend (tcbs (set_pend u p s) t) = (if t = u then p else pend (tcbs s t))"
  "no_preempt (tcbs (set_nexts nx s) t) = no_preempt (tcbs s t)"
  "no_preempt (tcbs (set_no_preempt u b s) t) = (if t = u then b else no_preempt (tcbs s t))"
  "no_preempt (tcbs (set_pend u p s) t) = no_preempt (tcbs s t)"
  "tcbs (set_sem k m s) = tcbs s" "tcbs (set_phase c ph s) = tcbs s"
  by (simp_all add: sched_defs)

lemma add_sel [simp]:
  "cores (ready_add t s) = cores s" "next_id (ready_add t s) = next_id s"
  "activeThreads (ready_add t s) = activeThreads s" "idleThreads (ready_add t s) = idleThreads s"
  "phases (ready_add t s) = phases s" "sems (ready_add t s) = sems s"
  "isIdle (tcbs (ready_add t s) u) = isIdle (tcbs s u)" "pend (tcbs (ready_add t s) u) = pend (tcbs s u)"
  "no_preempt (tcbs (ready_add t s) u) = no_preempt (tcbs s u)"
  "cores (zombie_add t s) = cores s" "next_id (zombie_add t s) = next_id s"
  "activeThreads (zombie_add t s) = activeThreads s" "idleThreads (zombie_add t s) = idleThreads s"
  "phases (zombie_add t s) = phases s" "sems (zombie_add t s) = sems s"
  "isIdle (tcbs (zombie_add t s) u) = isIdle (tcbs s u)" "pend (tcbs (zombie_add t s) u) = pend (tcbs s u)"
  "no_preempt (tcbs (zombie_add t s) u) = no_preempt (tcbs s u)"
  "cores (waiting_add k t s) = cores s" "next_id (waiting_add k t s) = next_id s"
  "activeThreads (waiting_add k t s) = activeThreads s" "idleThreads (waiting_add k t s) = idleThreads s"
  "phases (waiting_add k t s) = phases s" "count (sems (waiting_add k t s) l) = count (sems s l)"
  "locked (sems (waiting_add k t s) l) = locked (sems s l)"
  "isIdle (tcbs (waiting_add k t s) u) = isIdle (tcbs s u)" "pend (tcbs (waiting_add k t s) u) = pend (tcbs s u)"
  "no_preempt (tcbs (waiting_add k t s) u) = no_preempt (tcbs s u)"
  by (simp_all add: ready_add_def zombie_add_def waiting_add_def Let_def)

lemma nexts_simps [simp]:
  "nexts (set_nexts nx s) = nx" "nexts (set_no_preempt t b s) = nexts s"
  "nexts (set_pend t p s) = nexts s" "nexts (set_sem k m s) = nexts s" "nexts (set_phase c ph s) = nexts s"
  "nexts (s\<lparr>readyQ := q\<rparr>) = nexts s" "nexts (s\<lparr>zombies := q\<rparr>) = nexts s"
  "nexts (s\<lparr>activeThreads := f\<rparr>) = nexts s" "nexts (s\<lparr>sems := ms\<rparr>) = nexts s"
  by (auto simp: nexts_def sched_defs fun_eq_iff)

lemma qinv_cong:
  assumes "qinv s pl rl zl wl" "nexts s' = nexts s" "readyQ s' = readyQ s" "zombies s' = zombies s"
    "\<And>k. waiting (sems s' k) = waiting (sems s k)"
    and "\<And>t p. p = Ready \<or> p = Zombie \<or> (\<exists>k. p = WaitFor k) \<Longrightarrow> (pl' t = p) = (pl t = p)"
  shows "qinv s' pl' rl zl wl"
  using assms unfolding qinv_def by simp

definition queued :: "place \<Rightarrow> bool" where
  "queued p \<longleftrightarrow> p = Ready \<or> p = Zombie \<or> (\<exists>k. p = WaitFor k)"

lemma qinv_add:
  assumes q: "qinv s pl rl zl wl" and t: "\<not> queued (pl t)"
  shows "qinv (ready_add t s) (pl(t := Ready)) (rl @ [t]) zl wl"
    and "qinv (zombie_add t s) (pl(t := Zombie)) rl (zl @ [t]) wl"
    and "qinv (waiting_add k t s) (pl(t := WaitFor k)) rl zl (wl(k := wl k @ [t]))"
proof -
  have Q: "q_list (nexts s) (readyQ s) rl" "q_list (nexts s) (zombies s) zl"
     "\<And>k. q_list (nexts s) (waiting (sems s k)) (wl k)"
     "set rl = {t. pl t = Ready}" "set zl = {t. pl t = Zombie}" "\<And>k. set (wl k) = {t. pl t = WaitFor k}"
    using q by (auto simp: qinv_def)
  have n: "t \<notin> set rl" "t \<notin> set zl" "\<And>k. t \<notin> set (wl k)"
    using t Q(4-6) by (auto simp: queued_def)
  have d: "set rl \<inter> set zl = {}" "\<And>k. set rl \<inter> set (wl k) = {}" "\<And>k. set zl \<inter> set (wl k) = {}"
    "set zl \<inter> set rl = {}" "\<And>k. set (wl k) \<inter> set rl = {}" "\<And>k. set (wl k) \<inter> set zl = {}"
    "\<And>k l. k \<noteq> l \<Longrightarrow> set (wl k) \<inter> set (wl l) = {}"
    using Q(4-6) by auto
  have "q_list (fst (q_add (nexts s) (readyQ s) t)) (zombies s) zl"
    by (rule tq.enq_frame [OF Q(1) n(1) Q(2)]) (simp add: n d)
  moreover have "q_list (fst (q_add (nexts s) (readyQ s) t)) (waiting (sems s l)) (wl l)" for l
    by (rule tq.enq_frame [OF Q(1) n(1) Q(3)]) (simp add: n d)
  ultimately show "qinv (ready_add t s) (pl(t := Ready)) (rl @ [t]) zl wl"
    using tq.enq_view [OF Q(1) n(1)] Q(4-6) t
    by (auto simp: qinv_def ready_add_def Let_def queued_def)
  have "q_list (fst (q_add (nexts s) (zombies s) t)) (readyQ s) rl"
    by (rule tq.enq_frame [OF Q(2) n(2) Q(1)]) (simp add: n d)
  moreover have "q_list (fst (q_add (nexts s) (zombies s) t)) (waiting (sems s l)) (wl l)" for l
    by (rule tq.enq_frame [OF Q(2) n(2) Q(3)]) (simp add: n d)
  ultimately show "qinv (zombie_add t s) (pl(t := Zombie)) rl (zl @ [t]) wl"
    using tq.enq_view [OF Q(2) n(2)] Q(4-6) t
    by (auto simp: qinv_def zombie_add_def Let_def queued_def)
  let ?nx = "fst (q_add (nexts s) (waiting (sems s k)) t)"
  have "q_list ?nx (readyQ s) rl" "q_list ?nx (zombies s) zl"
    using tq.enq_frame [OF Q(3) n(3) Q(1)] tq.enq_frame [OF Q(3) n(3) Q(2)] by (simp_all add: n d)
  moreover have "q_list ?nx (waiting (sems s l)) (wl l)" if "l \<noteq> k" for l
    by (rule tq.enq_frame [OF Q(3) n(3) Q(3)]) (simp add: n d that)
  ultimately show "qinv (waiting_add k t s) (pl(t := WaitFor k)) rl zl (wl(k := wl k @ [t]))"
    using tq.enq_view [OF Q(3) n(3), of k] Q(4-6) t
    by (auto simp: qinv_def waiting_add_def Let_def queued_def)
qed

lemma qinv_remove_ready:
  assumes q: "qinv s pl rl zl wl" and r: "q_remove (nexts s) (readyQ s) = (nxt, q')"
  shows "case nxt of
      None \<Rightarrow> rl = [] \<and> qinv (s\<lparr>readyQ := q'\<rparr>) pl rl zl wl
    | Some n \<Rightarrow> pl n = Ready \<and> rl = n # tl rl \<and>
        (\<forall>p. \<not> queued p \<longrightarrow> qinv (s\<lparr>readyQ := q'\<rparr>) (pl(n := p)) (tl rl) zl wl)"
proof -
  have Q: "q_list (nexts s) (readyQ s) rl" using q by (simp add: qinv_def)
  have rd: "distinct rl" using Q by (simp add: q_list_def)
  show ?thesis
  proof (cases rl)
    case Nil
    have "nxt = None" "q_list (nexts s) q' []" using tq.deq_none [OF Q [unfolded Nil]] r by auto
    then show ?thesis using q Nil unfolding qinv_def by auto
  next
    case (Cons n ns)
    have n: "nxt = Some n" "q_list (nexts s) q' ns" using tq.deq_some [OF Q [unfolded Cons]] r by auto
    have w: "set ns = {t. pl t = Ready} - {n}" "pl n = Ready"
      using q rd Cons unfolding qinv_def by (auto simp: set_eq_iff)
    show ?thesis using n w q Cons unfolding qinv_def queued_def by auto
  qed
qed

lemma qinv_remove_zombie:
  assumes q: "qinv s pl rl zl wl" and r: "q_remove (nexts s) (zombies s) = (nxt, q')"
  shows "case nxt of
      None \<Rightarrow> zl = [] \<and> qinv (s\<lparr>zombies := q'\<rparr>) pl rl zl wl
    | Some n \<Rightarrow> pl n = Zombie \<and> zl = n # tl zl \<and>
        (\<forall>p. \<not> queued p \<longrightarrow> qinv (s\<lparr>zombies := q'\<rparr>) (pl(n := p)) rl (tl zl) wl)"
proof -
  have Q: "q_list (nexts s) (zombies s) zl" using q by (simp add: qinv_def)
  have rd: "distinct zl" using Q by (simp add: q_list_def)
  show ?thesis
  proof (cases zl)
    case Nil
    have "nxt = None" "q_list (nexts s) q' []" using tq.deq_none [OF Q [unfolded Nil]] r by auto
    then show ?thesis using q Nil unfolding qinv_def by auto
  next
    case (Cons n ns)
    have n: "nxt = Some n" "q_list (nexts s) q' ns" using tq.deq_some [OF Q [unfolded Cons]] r by auto
    have w: "set ns = {t. pl t = Zombie} - {n}" "pl n = Zombie"
      using q rd Cons unfolding qinv_def by (auto simp: set_eq_iff)
    show ?thesis using n w q Cons unfolding qinv_def queued_def by auto
  qed
qed

lemma qinv_remove_waiting:
  assumes q: "qinv s pl rl zl wl" and r: "q_remove (nexts s) (waiting (sems s k)) = (nxt, q')"
    and m: "waiting m = q'"
  shows "case nxt of
      None \<Rightarrow> wl k = [] \<and> qinv (set_sem k m s) pl rl zl wl
    | Some n \<Rightarrow> pl n = WaitFor k \<and> wl k = n # tl (wl k) \<and>
        (\<forall>p. \<not> queued p \<longrightarrow> qinv (set_sem k m s) (pl(n := p)) rl zl (wl(k := tl (wl k))))"
proof -
  have Q: "q_list (nexts s) (waiting (sems s k)) (wl k)" using q by (simp add: qinv_def)
  have rd: "distinct (wl k)" using Q by (simp add: q_list_def)
  show ?thesis
  proof (cases "wl k")
    case Nil
    have "nxt = None" "q_list (nexts s) q' []" using tq.deq_none [OF Q [unfolded Nil]] r by auto
    then show ?thesis using q m Nil unfolding qinv_def by auto
  next
    case (Cons n ns)
    have n: "nxt = Some n" "q_list (nexts s) q' ns" using tq.deq_some [OF Q [unfolded Cons]] r by auto
    have "set (wl k) = {t. pl t = WaitFor k}" using q by (simp add: qinv_def)
    then have w: "set ns = {t. pl t = WaitFor k} - {n}" "pl n = WaitFor k"
      using rd Cons by (auto simp: set_eq_iff)
    show ?thesis using n w q m Cons unfolding qinv_def queued_def by auto
  qed
qed

section \<open>Switching\<close>

lemma cinvD:
  assumes "cinv s pl"
  shows "pl t = OnCore c \<longleftrightarrow> c < cores s \<and> activeThreads s c = t"
    "pl t = Leaving c \<longleftrightarrow> c < cores s \<and> (\<exists>act. phases s c = Switching t act)"
    "pl t = Woken u \<longleftrightarrow> pend (tcbs s u) = Some t"
    "pl t = Unborn \<longleftrightarrow> next_id s \<le> t"
    "t < next_id s \<Longrightarrow> isIdle (tcbs s t) \<longleftrightarrow> t < cores s"
    "next_id s \<le> t \<Longrightarrow> pend (tcbs s t) = None"
    "c < cores s \<Longrightarrow> pl c = OnCore c \<or> pl c = Leaving c \<or> pl c = IdleOff c"
    "pl t = IdleOff c \<Longrightarrow> t = c \<and> c < cores s"
    "cores s \<le> next_id s" "c < cores s \<Longrightarrow> idleThreads s c = c"
    "c < cores s \<Longrightarrow> phases s c \<noteq> Running \<Longrightarrow> no_preempt (tcbs s (activeThreads s c))"
    "c < cores s \<Longrightarrow> phases s c = Spinning act \<Longrightarrow> activeThreads s c = c \<and> (\<forall>k. act \<noteq> Park k)"
    "locked (sems s k) \<longleftrightarrow> (\<exists>c < cores s. \<exists>t. phases s c = Switching t (Park k))"
    "c < cores s \<Longrightarrow> c' < cores s \<Longrightarrow> phases s c = Switching t (Park k) \<Longrightarrow>
       phases s c' = Switching t' (Park k) \<Longrightarrow> c = c'"
    "c < cores s \<Longrightarrow> phases s c = Switching t (Park k) \<Longrightarrow> cores s \<le> t \<and> count (sems s k) = 0"
    "count (sems s k) \<noteq> 0 \<Longrightarrow> pl t \<noteq> WaitFor k"
proof -
  have h: "(\<forall>t c. pl t = OnCore c \<longleftrightarrow> c < cores s \<and> activeThreads s c = t)"
    using assms unfolding cinv_def by (elim conjE) assumption
  show "pl t = OnCore c \<longleftrightarrow> c < cores s \<and> activeThreads s c = t"
    by (use h in blast)
  have h: "(\<forall>t c. pl t = Leaving c \<longleftrightarrow> c < cores s \<and> (\<exists>act. phases s c = Switching t act))"
    using assms unfolding cinv_def by (elim conjE) assumption
  show "pl t = Leaving c \<longleftrightarrow> c < cores s \<and> (\<exists>act. phases s c = Switching t act)"
    by (use h in blast)
  have h: "(\<forall>t u. pl t = Woken u \<longleftrightarrow> pend (tcbs s u) = Some t)"
    using assms unfolding cinv_def by (elim conjE) assumption
  show "pl t = Woken u \<longleftrightarrow> pend (tcbs s u) = Some t"
    by (use h in blast)
  have h: "(\<forall>t. pl t = Unborn \<longleftrightarrow> next_id s \<le> t)"
    using assms unfolding cinv_def by (elim conjE) assumption
  show "pl t = Unborn \<longleftrightarrow> next_id s \<le> t"
    by (use h in blast)
  have h: "(\<forall>t < next_id s. isIdle (tcbs s t) \<longleftrightarrow> t < cores s)"
    using assms unfolding cinv_def by (elim conjE) assumption
  show "t < next_id s \<Longrightarrow> isIdle (tcbs s t) \<longleftrightarrow> t < cores s"
    by (use h in blast)
  have h: "(\<forall>t. next_id s \<le> t \<longrightarrow> pend (tcbs s t) = None)"
    using assms unfolding cinv_def by (elim conjE) assumption
  show "next_id s \<le> t \<Longrightarrow> pend (tcbs s t) = None"
    by (use h in blast)
  have h: "(\<forall>c < cores s. pl c = OnCore c \<or> pl c = Leaving c \<or> pl c = IdleOff c)"
    using assms unfolding cinv_def by (elim conjE) assumption
  show "c < cores s \<Longrightarrow> pl c = OnCore c \<or> pl c = Leaving c \<or> pl c = IdleOff c"
    by (use h in blast)
  have h: "(\<forall>t c. pl t = IdleOff c \<longrightarrow> t = c \<and> c < cores s)"
    using assms unfolding cinv_def by (elim conjE) assumption
  show "pl t = IdleOff c \<Longrightarrow> t = c \<and> c < cores s"
    by (use h in blast)
  have h: "cores s \<le> next_id s"
    using assms unfolding cinv_def by (elim conjE) assumption
  show "cores s \<le> next_id s"
    by (use h in blast)
  have h: "(\<forall>c < cores s. idleThreads s c = c)"
    using assms unfolding cinv_def by (elim conjE) assumption
  show "c < cores s \<Longrightarrow> idleThreads s c = c"
    by (use h in blast)
  have h: "(\<forall>c < cores s. phases s c \<noteq> Running \<longrightarrow> no_preempt (tcbs s (activeThreads s c)))"
    using assms unfolding cinv_def by (elim conjE) assumption
  show "c < cores s \<Longrightarrow> phases s c \<noteq> Running \<Longrightarrow> no_preempt (tcbs s (activeThreads s c))"
    by (use h in blast)
  have h: "(\<forall>c < cores s. \<forall>act. phases s c = Spinning act \<longrightarrow> activeThreads s c = c \<and> (\<forall>k. act \<noteq> Park k))"
    using assms unfolding cinv_def by (elim conjE) assumption
  show "c < cores s \<Longrightarrow> phases s c = Spinning act \<Longrightarrow> activeThreads s c = c \<and> (\<forall>k. act \<noteq> Park k)"
    by (use h in blast)
  have h: "(\<forall>k. locked (sems s k) \<longleftrightarrow> (\<exists>c < cores s. \<exists>t. phases s c = Switching t (Park k)))"
    using assms unfolding cinv_def by (elim conjE) assumption
  show "locked (sems s k) \<longleftrightarrow> (\<exists>c < cores s. \<exists>t. phases s c = Switching t (Park k))"
    by (use h in blast)
  have h: "(\<forall>c < cores s. \<forall>c' < cores s. \<forall>t t' k. phases s c = Switching t (Park k) \<longrightarrow>
        phases s c' = Switching t' (Park k) \<longrightarrow> c = c')"
    using assms unfolding cinv_def by (elim conjE) assumption
  show "c < cores s \<Longrightarrow> c' < cores s \<Longrightarrow> phases s c = Switching t (Park k) \<Longrightarrow>
       phases s c' = Switching t' (Park k) \<Longrightarrow> c = c'"
    by (use h in blast)
  have h: "(\<forall>c < cores s. \<forall>t k. phases s c = Switching t (Park k) \<longrightarrow> cores s \<le> t \<and> count (sems s k) = 0)"
    using assms unfolding cinv_def by (elim conjE) assumption
  show "c < cores s \<Longrightarrow> phases s c = Switching t (Park k) \<Longrightarrow> cores s \<le> t \<and> count (sems s k) = 0"
    by (use h in blast)
  have h: "(\<forall>k. count (sems s k) \<noteq> 0 \<longrightarrow> (\<forall>t. pl t \<noteq> WaitFor k))"
    using assms unfolding cinv_def by (elim conjE) assumption
  show "count (sems s k) \<noteq> 0 \<Longrightarrow> pl t \<noteq> WaitFor k"
    by (use h in blast)
qed

lemma cinv_switch:
  assumes ci: "cinv s pl" and c: "c < cores s" and ph: "\<forall>t a. phases s c \<noteq> Switching t a"
    and me: "me = activeThreads s c" and n: "pl n = Ready \<or> n = c \<and> pl c = IdleOff c"
    and pk: "\<forall>k. act = Park k \<longrightarrow> cores s \<le> me \<and> count (sems s k) = 0 \<and> \<not> locked (sems s k)"
    and f: "cores s' = cores s" "next_id s' = next_id s" "idleThreads s' = idleThreads s"
      "\<And>t. isIdle (tcbs s' t) = isIdle (tcbs s t)" "\<And>t. pend (tcbs s' t) = pend (tcbs s t)"
      "activeThreads s' = (activeThreads s)(c := n)" "phases s' = (phases s)(c := Switching me act)"
      "\<And>t. no_preempt (tcbs s t) \<Longrightarrow> no_preempt (tcbs s' t)" "no_preempt (tcbs s' n)"
      "\<And>k. locked (sems s' k) \<longleftrightarrow> locked (sems s k) \<or> act = Park k"
      "\<And>k. count (sems s' k) = count (sems s k)"
  shows "cinv s' (pl(n := OnCore c, me := Leaving c))"
proof -
  note D = cinvD [OF ci]
  have pme: "pl me = OnCore c" using D(1) c me by simp
  have nm: "n \<noteq> me" using pme n by auto
  have nr: "pl n \<noteq> OnCore d" "pl n \<noteq> Leaving d" "pl n \<noteq> Woken d" "pl n \<noteq> Unborn" "pl n \<noteq> WaitFor d" for d
    using n by auto
  have i: "n < cores s \<Longrightarrow> n = c" using D(7) [of n] n by auto
  show ?thesis
    unfolding cinv_def f
  proof (intro conjI allI impI, goal_cases)
    case (1 t d)
    show ?case using D(1) [of t d] nr pme nm c me by (auto split: if_splits)
  next
    case (2 t d)
    show ?case using D(2) [of t d] nr pme nm c ph by (auto split: if_splits)
  next
    case (3 t u)
    show ?case using D(3) [of t u] nr pme nm by auto
  next
    case (4 t)
    show ?case using D(4) [of t] nr pme nm by auto
  next
    case (5 t)
    then show ?case using D(5) by blast
  next
    case (6 t)
    then show ?case using D(6) by blast
  next
    case (7 d)
    then show ?case using D(7) [of d] i pme nm n by auto
  next
    case (8 t d)
    then show ?case using D(8) [of t d] by (auto split: if_splits)
  next
    case (9 t d)
    then show ?case using D(8) [of t d] by (auto split: if_splits)
  next
    case 10
    show ?case using D(9) .
  next
    case (11 d)
    then show ?case using D(10) by blast
  next
    case (12 d)
    then show ?case using D(11) [of d] f(8,9) by (cases "d = c") auto
  next
    case (13 d a)
    then show ?case using D(12) [of d a] by (auto split: if_splits)
  next
    case (14 d a)
    then show ?case using D(12) [of d a] by (auto split: if_splits)
  next
    case (15 k)
    have "(\<exists>d < cores s. \<exists>t. ((phases s)(c := Switching me act)) d = Switching t (Park k)) \<longleftrightarrow>
      act = Park k \<or> (\<exists>d < cores s. \<exists>t. phases s d = Switching t (Park k))" (is "?l = ?r")
    proof
      show "?l \<Longrightarrow> ?r" by (auto split: if_splits)
      assume ?r
      then show ?l
      proof
        assume "\<exists>d < cores s. \<exists>t. phases s d = Switching t (Park k)"
        then obtain d t where "d < cores s" "phases s d = Switching t (Park k)" by blast
        moreover then have "d \<noteq> c" using ph by auto
        ultimately show ?l by auto
      qed (use c in auto)
    qed
    then show ?case using D(13) [of k] by auto
  next
    case (16 d e t t' k)
    then show ?case using D(14) [of d e t k t'] D(13) [of k] pk by (auto split: if_splits)
  next
    case (17 d t k)
    then show ?case using D(15) [of d t k] pk by (auto split: if_splits)
  next
    case (18 d t k)
    then show ?case using D(15) [of d t k] pk by (auto split: if_splits)
  next
    case (19 k t)
    then show ?case using D(16) [of k t] by (auto split: if_splits)
  qed
qed

text \<open>Changes that leave the cores' threads where they are.\<close>

definition moving :: "place \<Rightarrow> bool" where
  "moving p \<longleftrightarrow> (\<forall>c. p \<noteq> OnCore c \<and> p \<noteq> Leaving c \<and> p \<noteq> IdleOff c)"

lemma cinv_change:
  assumes ci: "cinv s pl"
    and f: "cores s' = cores s" "activeThreads s' = activeThreads s" "idleThreads s' = idleThreads s"
    and ph: "\<And>d. d < cores s \<Longrightarrow> phases s' d = phases s d \<or> (\<forall>t a. phases s d \<noteq> Switching t a) \<and>
        (phases s' d = Running \<or> (\<exists>a. phases s' d = Spinning a \<and> activeThreads s d = d \<and> (\<forall>k. a \<noteq> Park k)))"
    and id: "\<And>t. t < next_id s' \<Longrightarrow> isIdle (tcbs s' t) \<longleftrightarrow> t < cores s"
    and np: "\<And>d. d < cores s \<Longrightarrow> phases s' d \<noteq> Running \<Longrightarrow> no_preempt (tcbs s' (activeThreads s d))"
    and pl: "\<And>t. pl' t = pl t \<or> moving (pl t) \<and> moving (pl' t)"
    and wk: "\<And>t u. pl' t = Woken u \<longleftrightarrow> pend (tcbs s' u) = Some t"
    and un: "\<And>t. pl' t = Unborn \<longleftrightarrow> next_id s' \<le> t" "\<And>t. next_id s' \<le> t \<Longrightarrow> pend (tcbs s' t) = None"
    and nx: "cores s \<le> next_id s'"
    and lk: "\<And>k. locked (sems s' k) = locked (sems s k)"
    and ct: "\<And>k. locked (sems s k) \<Longrightarrow> count (sems s' k) = count (sems s k)"
      "\<And>k t. count (sems s' k) \<noteq> 0 \<Longrightarrow> pl' t \<noteq> WaitFor k"
  shows "cinv s' pl'"
proof -
  note D = cinvD [OF ci]
  have fixed: "pl' t = OnCore d \<longleftrightarrow> pl t = OnCore d" "pl' t = Leaving d \<longleftrightarrow> pl t = Leaving d"
    "pl' t = IdleOff d \<longleftrightarrow> pl t = IdleOff d" for t d
    using pl [of t] by (auto simp: moving_def)
  have sw: "phases s' d = Switching t a \<longleftrightarrow> phases s d = Switching t a" if "d < cores s" for d t a
    using ph [OF that] by auto
  show ?thesis
    unfolding cinv_def f fixed
  proof (intro conjI allI impI, goal_cases)
    case (1 t d)
    show ?case by (rule D(1))
  next
    case (2 t d)
    show ?case using D(2) [of t d] sw by auto
  next
    case (3 t u)
    show ?case by (rule wk)
  next
    case (4 t)
    show ?case by (rule un)
  next
    case (5 t)
    then show ?case by (rule id)
  next
    case (6 t)
    then show ?case by (rule un)
  next
    case (7 d)
    then show ?case by (rule D(7))
  next
    case (8 t d)
    then show ?case using D(8) by blast
  next
    case (9 t d)
    then show ?case using D(8) by blast
  next
    case 10
    show ?case by (rule nx)
  next
    case (11 d)
    then show ?case using D(10) by blast
  next
    case (12 d)
    then show ?case using np by blast
  next
    case (13 d a)
    then show ?case using ph [of d] D(12) [of d a] by auto
  next
    case (14 d a)
    then show ?case using ph [of d] D(12) [of d a] by auto
  next
    case (15 k)
    show ?case using D(13) [of k] lk sw by auto
  next
    case (16 d e t t' k)
    then show ?case using D(14) [of d e t k t'] sw by auto
  next
    case (17 d t k)
    then show ?case using D(15) [of d t k] sw by auto
  next
    case (18 d t k)
    then show ?case using D(13) [of k] D(15) [of d t k] sw ct(1) [of k] by auto
  next
    case (19 k t)
    then show ?case using ct(2) by blast
  qed
qed

text \<open>The end of a switch on core \<open>c\<close>, where the thread left behind goes to \<open>p\<close>.\<close>

lemma cinv_finish:
  assumes ci: "cinv s pl" and c: "c < cores s" and ph: "phases s c = Switching me act"
    and f: "cores s' = cores s" "next_id s' = next_id s" "idleThreads s' = idleThreads s"
      "\<And>t. isIdle (tcbs s' t) = isIdle (tcbs s t)" "\<And>t. pend (tcbs s' t) = pend (tcbs s t)"
      "activeThreads s' = activeThreads s" "phases s' = (phases s)(c := Running)"
      "\<And>t. t \<noteq> me \<Longrightarrow> t \<noteq> activeThreads s c \<Longrightarrow> no_preempt (tcbs s' t) = no_preempt (tcbs s t)"
      "\<And>k. locked (sems s' k) \<longleftrightarrow> locked (sems s k) \<and> act \<noteq> Park k"
      "\<And>k. count (sems s' k) = count (sems s k)"
    and p: "p = Ready \<or> p = Zombie \<or> p = IdleOff c \<or> (\<exists>k. p = WaitFor k \<and> act = Park k)"
      "p = IdleOff c \<longleftrightarrow> isIdle (tcbs s me)"
  shows "cinv s' (pl(me := p))"
proof -
  note D = cinvD [OF ci]
  have pme: "pl me = Leaving c" using D(2) c ph by simp
  have idle: "isIdle (tcbs s me) \<longleftrightarrow> me < cores s"
    using D(4) [of me] D(5) [of me] pme by auto
  have mec: "me < cores s \<Longrightarrow> me = c" using D(7) [of me] pme by auto
  have np: "p \<noteq> OnCore d" "p \<noteq> Leaving d" "p \<noteq> Woken d" "p \<noteq> Unborn" for d using p(1) by auto
  show ?thesis
    unfolding cinv_def f
  proof (intro conjI allI impI, goal_cases)
    case (1 t d)
    show ?case using D(1) [of t d] np pme by auto
  next
    case (2 t d)
    show ?case using D(2) [of t d] np pme c ph by (cases "d = c") auto
  next
    case (3 t u)
    show ?case using D(3) [of t u] np pme by auto
  next
    case (4 t)
    show ?case using D(4) [of t] np pme by auto
  next
    case (5 t)
    then show ?case using D(5) by blast
  next
    case (6 t)
    then show ?case using D(6) by blast
  next
    case (7 d)
    then show ?case using D(7) [of d] mec idle p(2) by auto
  next
    case (8 t d)
    then show ?case using D(8) [of t d] p mec idle by (auto split: if_splits)
  next
    case (9 t d)
    then show ?case using D(8) [of t d] p c by (auto split: if_splits)
  next
    case 10
    show ?case by (rule D(9))
  next
    case (11 d)
    then show ?case using D(10) by blast
  next
    case (12 d)
    have "d \<noteq> c" using 12 by auto
    moreover have "activeThreads s d \<noteq> me" using D(1) [of me d] pme 12 by auto
    moreover have "activeThreads s d \<noteq> activeThreads s c"
      using D(1) [of "activeThreads s d" d] D(1) [of "activeThreads s d" c] 12 c \<open>d \<noteq> c\<close> by auto
    ultimately show ?case using D(11) [of d] 12 f(8) by auto
  next
    case (13 d a)
    then show ?case using D(12) [of d a] by (auto split: if_splits)
  next
    case (14 d a)
    then show ?case using D(12) [of d a] by (auto split: if_splits)
  next
    case (15 k)
    show ?case
    proof
      assume l: "locked (sems s k) \<and> act \<noteq> Park k"
      then obtain d t where d: "d < cores s" "phases s d = Switching t (Park k)" using D(13) [of k] by auto
      then have "d \<noteq> c" using ph l by auto
      then show "\<exists>d < cores s. \<exists>t. ((phases s)(c := Running)) d = Switching t (Park k)" using d by auto
    next
      assume "\<exists>d < cores s. \<exists>t. ((phases s)(c := Running)) d = Switching t (Park k)"
      then obtain d t where d: "d < cores s" "d \<noteq> c" "phases s d = Switching t (Park k)"
        by (auto split: if_splits)
      then show "locked (sems s k) \<and> act \<noteq> Park k"
        using D(13) [of k] D(14) [of d c t k me] ph c by auto
    qed
  next
    case (16 d e t t' k)
    then show ?case using D(14) [of d e t k t'] by (auto split: if_splits)
  next
    case (17 d t k)
    then show ?case using D(15) [of d t k] by (auto split: if_splits)
  next
    case (18 d t k)
    then show ?case using D(15) [of d t k] by (auto split: if_splits)
  next
    case (19 k t)
    then show ?case using D(16) [of k t] D(15) [OF c, of me k] p(1) ph by auto
  qed
qed

end
