(* ===== verification/Sched_Steps.thy ===== *)
theory Sched_Steps
  imports Sched_Inv
begin

text \<open>
  Every event keeps the scheduler's invariant, and no assertion of the code fails.
\<close>

lemma sinvI: "qinv s pl rl zl wl \<Longrightarrow> cinv s pl \<Longrightarrow> sinv s"
  unfolding sinv_def by blast

lemma phase_sel [simp]: "qinv (set_phase c ph s) pl rl zl wl = qinv s pl rl zl wl"
  "qinv (set_no_preempt t b s) pl rl zl wl = qinv s pl rl zl wl"
  "qinv (set_pend t p s) pl rl zl wl = qinv s pl rl zl wl"
  "qinv (s\<lparr>activeThreads := f\<rparr>) pl rl zl wl = qinv s pl rl zl wl"
  by (simp_all add: qinv_def)

lemma qinv_relabel:
  "qinv s pl rl zl wl \<Longrightarrow> \<not> queued (pl t) \<Longrightarrow> \<not> queued p \<Longrightarrow> qinv s (pl(t := p)) rl zl wl"
  unfolding qinv_def queued_def by (auto simp: set_eq_iff)

section \<open>Blocking\<close>

lemma pick_next_inv:
  assumes q: "qinv s0 pl rl zl wl" and ci: "cinv s0 pl" and c: "c < cores s0"
    and ph: "\<And>t a. phases s0 c \<noteq> Switching t a" and me: "me = activeThreads s0 c"
    and pk: "\<And>k. act = Park k \<Longrightarrow> cores s0 \<le> me \<and> count (sems s0 k) = 0 \<and> \<not> locked (sems s0 k) \<and>
      opt = MustBlock"
    and s: "s = set_no_preempt me True (s0\<lparr>sems := ms\<rparr>)"
    and ms: "\<And>k. waiting (ms k) = waiting (sems s0 k)" "\<And>k. count (ms k) = count (sems s0 k)"
      "\<And>k. locked (ms k) \<longleftrightarrow> locked (sems s0 k) \<or> act = Park k"
  shows "sinv (pick_next c opt act s)"
proof -
  note D = cinvD [OF ci]
  have nx: "nexts s = nexts s0" "readyQ s = readyQ s0" "activeThreads s = activeThreads s0"
    unfolding s by simp_all
  have q1: "qinv s pl rl zl wl"
    using q unfolding s qinv_def by (simp add: ms)
  obtain nxt q' where r: "q_remove (nexts s) (readyQ s) = (nxt, q')" by (cases "q_remove (nexts s) (readyQ s)")
  note R = qinv_remove_ready [OF q1 r]
  have pme: "pl me = OnCore c" using D(1) c me by simp
  define sw where "sw n = set_phase c (Switching me act)
     ((set_no_preempt n True (s\<lparr>readyQ := q'\<rparr>))\<lparr>activeThreads := (activeThreads s)(c := n)\<rparr>)" for n
  have pn: "pick_next c opt act s = (case nxt of Some n \<Rightarrow> sw n
     | None \<Rightarrow> (if opt = CanReturn then set_phase c Running (s\<lparr>readyQ := q'\<rparr>)
               else if isIdle (tcbs s me) then set_phase c (Spinning act) (s\<lparr>readyQ := q'\<rparr>)
               else sw (idleThreads s c)))"
    unfolding pick_next_def r sw_def Let_def by (simp add: nx me cong: if_cong option.case_cong)
  have switch: "cinv (sw n) (pl(n := OnCore c, me := Leaving c))"
    if "pl n = Ready \<or> n = c \<and> pl c = IdleOff c" for n
    using pk by (intro cinv_switch [OF ci c _ me that]) (auto simp: sw_def s ms ph me)
  have stay: "cinv (set_phase c p (s\<lparr>readyQ := q'\<rparr>)) pl"
    if "p = Running \<or> p = Spinning act \<and> me = c" "\<And>k. act \<noteq> Park k" for p
  proof (rule cinv_change [OF ci])
    show "no_preempt (tcbs (set_phase c p (s\<lparr>readyQ := q'\<rparr>)) (activeThreads s0 d))"
      if "d < cores s0" "phases (set_phase c p (s\<lparr>readyQ := q'\<rparr>)) d \<noteq> Running" for d
      using D(11) [of d] that me by (cases "d = c") (auto simp: s)
  qed (use that ph me D in \<open>auto simp: s ms\<close>)
  show ?thesis
  proof (cases nxt)
    case (Some n)
    have "qinv (s\<lparr>readyQ := q'\<rparr>) (pl(n := OnCore c)) (tl rl) zl wl"
      using R Some by (auto simp: queued_def)
    moreover have n: "pl n = Ready" "n \<noteq> me" using R Some pme by auto
    ultimately have "qinv (sw n) (pl(n := OnCore c, me := Leaving c)) (tl rl) zl wl"
      using qinv_relabel pme unfolding sw_def by (simp add: queued_def)
    then show ?thesis using switch [of n] n(1) Some sinvI unfolding pn by fastforce
  next
    case None
    have q2: "qinv (s\<lparr>readyQ := q'\<rparr>) pl rl zl wl" using R None by auto
    have "me < next_id s0" using D(4) [of me] pme by auto
    then have idle: "isIdle (tcbs s me) \<longleftrightarrow> me < cores s0" using D(5) [of me] by (simp add: s)
    have mec: "me < cores s0 \<Longrightarrow> me = c" using D(7) [of me] pme by auto
    show ?thesis
    proof (cases "opt = CanReturn \<or> isIdle (tcbs s me)")
      case True
      then have np: "act \<noteq> Park k" for k using pk [of k] idle by auto
      have "sinv (set_phase c p (s\<lparr>readyQ := q'\<rparr>))" if "p = Running \<or> p = Spinning act \<and> me = c" for p
        using stay [OF that np] q2 by (intro sinvI) auto
      then show ?thesis using True None idle mec unfolding pn by auto
    next
      case False
      have "c \<noteq> me" using False idle c by auto
      then have n: "pl c = IdleOff c"
        using D(7) [OF c] D(1) [of c c] D(2) [of c c] ph c me by auto
      have i: "idleThreads s c = c" using D(10) [OF c] by (simp add: s)
      have "qinv (s\<lparr>readyQ := q'\<rparr>) (pl(c := OnCore c)) rl zl wl"
        using qinv_relabel [OF q2, of c] n by (simp add: queued_def)
      then have "qinv (sw c) (pl(c := OnCore c, me := Leaving c)) rl zl wl"
        using qinv_relabel pme \<open>c \<noteq> me\<close> unfolding sw_def by (simp add: queued_def)
      then have "sinv (sw c)" using switch [of c] n sinvI by blast
      then show ?thesis using None False i unfolding pn by simp
    qed
  qed
qed

section \<open>Events\<close>

lemma set_sem_upd: "set_sem k m s = s\<lparr>sems := (sems s)(k := m)\<rparr>"
  by (simp add: set_sem_def)

lemma block_inv:
  assumes si: "sinv s" and c: "c < cores s" "phases s c = Running" and a: "\<And>k. act \<noteq> Park k"
  shows "sinv (block c opt act s)"
proof -
  obtain pl rl zl wl where "qinv s pl rl zl wl" "cinv s pl" using si by (auto simp: sinv_def)
  then show ?thesis unfolding block_def
    by (rule pick_next_inv [where ms = "sems s"]) (use c a in \<open>auto simp: set_no_preempt_def\<close>)
qed

lemma retry_inv:
  assumes si: "sinv s" and c: "c < cores s" "phases s c = Spinning act"
  shows "sinv (pick_next c MustBlock act s)"
proof -
  obtain pl rl zl wl where q: "qinv s pl rl zl wl" and ci: "cinv s pl" using si by (auto simp: sinv_def)
  have "no_preempt (tcbs s (activeThreads s c))" using cinvD(11) [OF ci c(1)] c(2) by simp
  then have "s = set_no_preempt (activeThreads s c) True (s\<lparr>sems := sems s\<rparr>)"
    by (simp add: set_no_preempt_def fun_upd_idem)
  then show ?thesis
    by (rule pick_next_inv [OF q ci c(1) _ refl _ _, rotated 2])
      (use c cinvD(12) [OF ci c] in auto)
qed

lemma down_inv:
  assumes si: "sinv s" and c: "ready_core c s" and k: "\<not> locked (sems s k)"
    and u: "isIdle (tcbs s (activeThreads s c)) \<longrightarrow> 0 < count (sems s k)"
  shows "sinv (down c k s)"
proof -
  obtain pl rl zl wl where q: "qinv s pl rl zl wl" and ci: "cinv s pl" using si by (auto simp: sinv_def)
  note D = cinvD [OF ci]
  have c': "c < cores s" "phases s c = Running" using c by (auto simp: ready_core_def)
  let ?m = "sems s k"
  show ?thesis
  proof (cases "count ?m > 0")
    case True
    let ?s = "set_sem k (?m\<lparr>count := count ?m - 1\<rparr>) s"
    have "qinv ?s pl rl zl wl" using q by (auto simp: qinv_def)
    moreover have "cinv ?s pl"
    proof (rule cinv_change [OF ci])
      show "pl t \<noteq> WaitFor l" if "count (sems ?s l) \<noteq> 0" for l t
        using that True D(16) [of l t] by (cases "l = k") auto
    qed (use D k in auto)
    ultimately show ?thesis using True sinvI by (auto simp: down_def Let_def)
  next
    case False
    have "activeThreads s c < next_id s" using D(1) [of "activeThreads s c" c] D(4) c' by (metis not_le place.distinct(9))
    then have "cores s \<le> activeThreads s c" using D(5) u False by auto
    then have "sinv (pick_next c MustBlock (Park k)
        (set_no_preempt (activeThreads s c) True (s\<lparr>sems := (sems s)(k := ?m\<lparr>locked := True\<rparr>)\<rparr>)))"
      using False k c'
      by (intro pick_next_inv [OF q ci, where ms = "(sems s)(k := ?m\<lparr>locked := True\<rparr>)"])
        (auto simp: word_gt_0)
    then show ?thesis using False by (simp add: down_def block_def Let_def set_sem_upd)
  qed
qed

lemma up_inv:
  assumes si: "sinv s" and c: "ready_core c s" and k: "\<not> locked (sems s k)"
  shows "sinv (up c k s)"
proof -
  obtain pl rl zl wl where q: "qinv s pl rl zl wl" and ci: "cinv s pl" using si by (auto simp: sinv_def)
  note D = cinvD [OF ci]
  let ?m = "sems s k" and ?me = "activeThreads s c"
  have c': "c < cores s" "pend (tcbs s ?me) = None" using c by (auto simp: ready_core_def)
  obtain nxt q' where r: "q_remove (nexts s) (waiting ?m) = (nxt, q')" by (cases "q_remove (nexts s) (waiting ?m)")
  have born: "?me < next_id s" using D(1) [of ?me c] D(4) [of ?me] c' by auto
  show ?thesis
  proof (cases nxt)
    case None
    let ?s = "set_sem k (?m\<lparr>count := count ?m + 1, waiting := q'\<rparr>) s"
    have R: "wl k = []" "qinv ?s pl rl zl wl"
      using qinv_remove_waiting [OF q r, of "?m\<lparr>count := count ?m + 1, waiting := q'\<rparr>"] None by auto
    have "{t. pl t = WaitFor k} = set (wl k)" using q by (simp add: qinv_def)
    then have "pl t \<noteq> WaitFor k" for t using R(1) by auto
    then have "cinv ?s pl"
      using D(3-6,9,11,16) k by (intro cinv_change [OF ci]) (auto split: if_splits)
    then show ?thesis using R(2) None r sinvI by (auto simp: up_def Let_def)
  next
    case (Some n)
    let ?s0 = "set_sem k (?m\<lparr>waiting := q'\<rparr>) s"
    let ?s = "set_pend ?me (Some n) ?s0"
    have R: "pl n = WaitFor k" "qinv ?s0 (pl(n := Woken ?me)) rl zl (wl(k := tl (wl k)))"
      using qinv_remove_waiting [OF q r, of "?m\<lparr>waiting := q'\<rparr>"] Some by (auto simp: queued_def)
    have "cinv ?s (pl(n := Woken ?me))"
    proof (rule cinv_change [OF ci])
      show "(pl(n := Woken ?me)) t = Woken u \<longleftrightarrow> pend (tcbs ?s u) = Some t" for t u
        using D(3) [of t u] D(3) [of n u] D(3) [of t ?me] R(1) c' by auto
      show "(pl(n := Woken ?me)) t = Unborn \<longleftrightarrow> next_id ?s \<le> t" for t using D(4) [of t] R(1) by auto
      show "next_id ?s \<le> t \<Longrightarrow> pend (tcbs ?s t) = None" for t using D(6) [of t] born by auto
      show "(pl(n := Woken ?me)) t = pl t \<or> moving (pl t) \<and> moving ((pl(n := Woken ?me)) t)" for t
        using R(1) by (auto simp: moving_def)
      show "count (sems ?s l) \<noteq> 0 \<Longrightarrow> (pl(n := Woken ?me)) t \<noteq> WaitFor l" for l t
        using D(16) [of l t] by (cases "l = k") auto
    qed (use D(5,9,11) k in auto)
    then show ?thesis using R(2) Some r sinvI by (auto simp: up_def Let_def)
  qed
qed

lemma waiting_sel [simp]:
  "qinv (set_sem k ((sems s k)\<lparr>locked := b\<rparr>) s) pl rl zl wl = qinv s pl rl zl wl"
proof -
  have "waiting (((sems s)(k := (sems s k)\<lparr>locked := b\<rparr>)) l) = waiting (sems s l)" for l by simp
  then show ?thesis by (simp add: qinv_def del: fun_upd_apply)
qed

lemma finish_inv:
  assumes si: "sinv s" and c: "c < cores s" and ph: "phases s c = Switching me act"
  shows "\<exists>s'. finish_switch c me act s = Inr s' \<and> sinv s'"
proof -
  obtain pl rl zl wl where q: "qinv s pl rl zl wl" and ci: "cinv s pl" using si by (auto simp: sinv_def)
  note D = cinvD [OF ci]
  have pme: "pl me = Leaving c" using D(2) c ph by auto
  let ?s = "set_phase c Running (set_no_preempt (activeThreads s c) False (set_no_preempt me False s))"
  have q1: "qinv ?s pl rl zl wl" using q by simp
  have nq: "\<not> queued (pl me)" using pme by (simp add: queued_def)
  note A = qinv_add [OF q1 nq]
  show ?thesis
  proof (cases "isIdle (tcbs s me)")
    case True
    have na: "act \<noteq> Park k" for k using D(4) [of me] D(5) [of me] D(15) [OF c, of me k] ph pme True by auto
    have "cinv ?s (pl(me := IdleOff c))"
      using na True by (intro cinv_finish [OF ci c ph]) auto
    moreover have "qinv ?s (pl(me := IdleOff c)) rl zl wl"
      using qinv_relabel [OF q1 nq] by (simp add: queued_def)
    ultimately have "sinv ?s" by (rule sinvI [rotated])
    then show ?thesis using True na by (cases act) (auto simp: finish_switch_def run_action_def schedule_def)
  next
    case False
    show ?thesis
    proof (cases act)
      case Reschedule
      have "cinv (ready_add me ?s) (pl(me := Ready))"
        using Reschedule False by (intro cinv_finish [OF ci c ph]) auto
      then show ?thesis using A(1) Reschedule False sinvI
        by (auto simp: finish_switch_def run_action_def schedule_def)
    next
      case Retire
      have "cinv (zombie_add me ?s) (pl(me := Zombie))"
        using Retire False by (intro cinv_finish [OF ci c ph]) auto
      then show ?thesis using A(2) Retire False sinvI
        by (auto simp: finish_switch_def run_action_def)
    next
      case (Park k)
      let ?s1 = "waiting_add k me ?s"
      let ?s2 = "set_sem k ((sems ?s1 k)\<lparr>locked := False\<rparr>) ?s1"
      have "cinv ?s2 (pl(me := WaitFor k))"
        using Park False by (intro cinv_finish [OF ci c ph]) (auto split: if_splits)
      then have "sinv ?s2" using A(3) [of k] by (intro sinvI) auto
      then show ?thesis using Park False
        by (simp add: finish_switch_def run_action_def Let_def)
    qed
  qed
qed

lemma up_schedule_inv:
  assumes si: "sinv s" and c: "c < cores s"
  shows "sinv (up_schedule c s)"
proof -
  obtain pl rl zl wl where q: "qinv s pl rl zl wl" and ci: "cinv s pl" using si by (auto simp: sinv_def)
  note D = cinvD [OF ci]
  let ?me = "activeThreads s c"
  show ?thesis
  proof (cases "pend (tcbs s ?me)")
    case (Some n)
    have pn: "pl n = Woken ?me" using D(3) Some by blast
    have "n < next_id s" using D(4) [of n] pn by auto
    then have ni: "\<not> isIdle (tcbs s n)" using D(5) [of n] D(7) [of n] pn by auto
    let ?s = "ready_add n (set_pend ?me None s)"
    have "cinv ?s (pl(n := Ready))"
    proof (rule cinv_change [OF ci])
      show "(pl(n := Ready)) t = Woken u \<longleftrightarrow> pend (tcbs ?s u) = Some t" for t u
        using D(3) [of t u] D(3) [of n u] D(3) [of t ?me] pn Some by auto
      show "(pl(n := Ready)) t = Unborn \<longleftrightarrow> next_id ?s \<le> t" for t using D(4) [of t] pn by auto
      show "next_id ?s \<le> t \<Longrightarrow> pend (tcbs ?s t) = None" for t using D(6) [of t] by auto
      show "(pl(n := Ready)) t = pl t \<or> moving (pl t) \<and> moving ((pl(n := Ready)) t)" for t
        using pn by (auto simp: moving_def)
      show "count (sems ?s l) \<noteq> 0 \<Longrightarrow> (pl(n := Ready)) t \<noteq> WaitFor l" for l t
        using D(16) [of l t] by auto
    qed (use D(5,9,11) in auto)
    moreover have "qinv ?s (pl(n := Ready)) (rl @ [n]) zl wl"
      using qinv_add(1) [of "set_pend ?me None s" pl rl zl wl n] q pn by (simp add: queued_def)
    ultimately have "sinv ?s" by (rule sinvI [rotated])
    then show ?thesis using Some ni by (simp add: up_schedule_def schedule_def Let_def)
  qed (use si in \<open>simp add: up_schedule_def Let_def\<close>)
qed

lemma spawn_inv:
  assumes si: "sinv s" shows "sinv (spawn s)"
proof -
  obtain pl rl zl wl where q: "qinv s pl rl zl wl" and ci: "cinv s pl" using si by (auto simp: sinv_def)
  note D = cinvD [OF ci]
  let ?n = "next_id s"
  let ?s0 = "s\<lparr>next_id := ?n + 1, tcbs := (tcbs s)(?n := new_tcb)\<rparr>"
  have pn: "pl ?n = Unborn" using D(4) by blast
  have "q_list (nexts ?s0) q' xs" if "q_list (nexts s) q' xs" "?n \<notin> set xs" for q' xs
    by (rule q_list_frame [OF that(1)]) (use that(2) in \<open>auto simp: nexts_def\<close>)
  then have q0: "qinv ?s0 pl rl zl wl" using q pn unfolding qinv_def by auto
  let ?s = "ready_add ?n ?s0"
  have "cinv ?s (pl(?n := Ready))"
  proof (rule cinv_change [OF ci])
    show "t < next_id ?s \<Longrightarrow> isIdle (tcbs ?s t) \<longleftrightarrow> t < cores s" for t
      using D(5) [of t] D(9) by (auto simp: new_tcb_def less_Suc_eq)
    show "no_preempt (tcbs ?s (activeThreads s d))" if "d < cores s" "phases ?s d \<noteq> Running" for d
      using D(11) [of d] D(1) [of ?n d] pn that by auto
    show "(pl(?n := Ready)) t = Woken u \<longleftrightarrow> pend (tcbs ?s u) = Some t" for t u
      using D(3) [of t u] D(6) [of ?n] pn by (auto simp: new_tcb_def)
    show "(pl(?n := Ready)) t = Unborn \<longleftrightarrow> next_id ?s \<le> t" for t using D(4) [of t] by auto
    show "next_id ?s \<le> t \<Longrightarrow> pend (tcbs ?s t) = None" for t using D(6) [of t] by auto
    show "(pl(?n := Ready)) t = pl t \<or> moving (pl t) \<and> moving ((pl(?n := Ready)) t)" for t
      using pn by (auto simp: moving_def)
    show "count (sems ?s l) \<noteq> 0 \<Longrightarrow> (pl(?n := Ready)) t \<noteq> WaitFor l" for l t
      using D(16) [of l t] by auto
  qed (use D(9) in auto)
  moreover have "qinv ?s (pl(?n := Ready)) (rl @ [?n]) zl wl"
    using qinv_add(1) [OF q0] pn by (simp add: queued_def)
  ultimately have "sinv ?s" by (rule sinvI [rotated])
  then show ?thesis by (simp add: spawn_def schedule_def new_tcb_def Let_def)
qed

lemma reap_inv:
  assumes si: "sinv s" shows "sinv (snd (reap s))"
proof -
  obtain pl rl zl wl where q: "qinv s pl rl zl wl" and ci: "cinv s pl" using si by (auto simp: sinv_def)
  note D = cinvD [OF ci]
  obtain nxt q' where r: "q_remove (nexts s) (zombies s) = (nxt, q')" by (cases "q_remove (nexts s) (zombies s)")
  note R = qinv_remove_zombie [OF q r]
  have C: "cinv (s\<lparr>zombies := q'\<rparr>) pl'"
    if "\<And>t. pl' t = pl t \<or> pl t = Zombie \<and> pl' t = Dead" for pl'
  proof (rule cinv_change [OF ci])
    show "pl' t = pl t \<or> moving (pl t) \<and> moving (pl' t)" for t using that [of t] by (auto simp: moving_def)
    show "pl' t = Woken u \<longleftrightarrow> pend (tcbs (s\<lparr>zombies := q'\<rparr>) u) = Some t" for t u
      using that [of t] D(3) [of t u] by auto
    show "pl' t = Unborn \<longleftrightarrow> next_id (s\<lparr>zombies := q'\<rparr>) \<le> t" for t
      using that [of t] D(4) [of t] by auto
    show "count (sems (s\<lparr>zombies := q'\<rparr>) k) \<noteq> 0 \<Longrightarrow> pl' t \<noteq> WaitFor k" for k t
      using that [of t] D(16) [of k t] by auto
  qed (use D(5,6,9,11) in auto)
  show ?thesis
  proof (cases nxt)
    case None
    then have "qinv (s\<lparr>zombies := q'\<rparr>) pl rl zl wl" using R by auto
    then show ?thesis using C [of pl] r sinvI by (auto simp: reap_def)
  next
    case (Some n)
    have "pl n = Zombie" "qinv (s\<lparr>zombies := q'\<rparr>) (pl(n := Dead)) rl (tl zl) wl"
      using R Some by (auto simp: queued_def)
    moreover have "cinv (s\<lparr>zombies := q'\<rparr>) (pl(n := Dead))"
      by (rule C) (use \<open>pl n = Zombie\<close> in auto)
    ultimately show ?thesis using r sinvI by (auto simp: reap_def)
  qed
qed

lemma tick_inv:
  assumes si: "sinv s" and c: "c < cores s"
  shows "sinv (apitHandler c s)"
proof (cases "phases s c = Running")
  case True
  then show ?thesis using block_inv [OF si c] si by (simp add: apitHandler_def yield_def Let_def)
next
  case False
  obtain pl where "cinv s pl" using si by (auto simp: sinv_def)
  then have "no_preempt (tcbs s (activeThreads s c))" using cinvD(11) c False by blast
  then show ?thesis using si by (simp add: apitHandler_def Let_def)
qed

theorem step_inv:
  assumes si: "sinv s" and e: "enabled e s" "well_used e s"
  shows "\<exists>s'. step e s = Inr s' \<and> sinv s'"
proof (cases e)
  case (Finish c)
  then show ?thesis using finish_inv [OF si] e by auto
next
  case (Retry c)
  then show ?thesis using retry_inv [OF si] e by auto
next
  case (Down c k)
  then show ?thesis using down_inv [OF si] e by (auto simp: well_used_def)
qed (use si e block_inv up_inv up_schedule_inv spawn_inv reap_inv tick_inv in
    \<open>auto simp: yield_def stop_def ready_core_def\<close>)

lemma init_inv: "sinv (threadsInit n counts)"
proof -
  let ?s = "\<lparr>cores = n,
       tcbs = (\<lambda>_. \<lparr>isIdle = True, tcb_next = None, no_preempt = False, pend = None\<rparr>),
       next_id = n, readyQ = q_new, zombies = q_new,
       activeThreads = (\<lambda>i. i), idleThreads = (\<lambda>i. i), phases = (\<lambda>_. Running),
       sems = (\<lambda>k. \<lparr>count = counts k, locked = False, waiting = q_new\<rparr>)\<rparr>"
  have "qinv ?s (\<lambda>t. if t < n then OnCore t else Unborn) [] [] (\<lambda>_. [])"
    by (auto simp: qinv_def)
  moreover have "cinv ?s (\<lambda>t. if t < n then OnCore t else Unborn)"
    by (auto simp: cinv_def)
  ultimately have "sinv ?s" by (rule sinvI)
  then show ?thesis unfolding threadsInit_def by (rule spawn_inv)
qed

lemma reachable_inv: "reachable n counts s \<Longrightarrow> sinv s"
proof (induction rule: reachable.induct)
  case init
  show ?case by (rule init_inv)
next
  case (step s e s')
  then show ?case using step_inv by fastforce
qed

end
