(* ===== verification/Sched_Props.thy ===== *)
theory Sched_Props
  imports Sched_Steps
begin

text \<open>
  What the invariant gives: no thread is ever in two places, no assertion fails, and semaphores
  wake their waiters in order.
\<close>

section \<open>Safety of the scheduler\<close>

text \<open>
  C10. In every reachable state, on any number of cores and with any number of semaphores, the
  active threads of the cores, the ready queue and the zombies contain each thread at most once;
  a waiting thread waits for one semaphore and is nowhere else, and a thread a core is just
  switching away from is in none of these places.
\<close>
theorem thread_in_one_place:
  assumes "reachable n counts s"
  shows "\<exists>ready dead wait. q_list (nexts s) (readyQ s) ready \<and> q_list (nexts s) (zombies s) dead \<and>
    (\<forall>k. q_list (nexts s) (waiting (sems s k)) (wait k)) \<and>
    distinct (map (activeThreads s) [0..<cores s] @ ready @ dead) \<and>
    (\<forall>k. distinct (wait k) \<and>
       set (wait k) \<inter> set (map (activeThreads s) [0..<cores s] @ ready @ dead) = {} \<and>
       (\<forall>l. l \<noteq> k \<longrightarrow> set (wait k) \<inter> set (wait l) = {})) \<and>
    (\<forall>c < cores s. \<forall>t act. phases s c = Switching t act \<longrightarrow>
       t \<notin> set (map (activeThreads s) [0..<cores s] @ ready @ dead) \<and> (\<forall>k. t \<notin> set (wait k)))"
proof -
  obtain pl rl zl wl where q: "qinv s pl rl zl wl" and ci: "cinv s pl"
    using reachable_inv [OF assms] by (auto simp: sinv_def)
  note D = cinvD [OF ci]
  have Q: "q_list (nexts s) (readyQ s) rl" "q_list (nexts s) (zombies s) zl"
     "\<forall>k. q_list (nexts s) (waiting (sems s k)) (wl k)"
     "set rl = {t. pl t = Ready}" "set zl = {t. pl t = Zombie}" "\<And>k. set (wl k) = {t. pl t = WaitFor k}"
    using q by (auto simp: qinv_def)
  let ?act = "map (activeThreads s) [0..<cores s]"
  have on: "pl (activeThreads s c) = OnCore c" if "c < cores s" for c
    using D(1) [of "activeThreads s c" c] that by simp
  have act: "set ?act \<subseteq> {t. \<exists>c. pl t = OnCore c}" using on by auto
  have "inj_on (activeThreads s) {0..<cores s}"
    by (rule inj_onI) (metis atLeastLessThan_iff on place.inject(2))
  then have "distinct ?act" by (simp add: distinct_map)
  moreover have "distinct rl" "distinct zl" "\<And>k. distinct (wl k)" using Q(1-3) by (auto simp: q_list_def)
  ultimately have dist: "distinct (?act @ rl @ zl)" and dw: "distinct (wl k)" for k
    using act Q(4,5) by (auto simp del: set_map)
  have w1: "set (wl k) \<inter> set (?act @ rl @ zl) = {}" for k
    using act Q(4-6) by (auto simp del: set_map)
  have w2: "set (wl k) \<inter> set (wl l) = {}" if "l \<noteq> k" for k l
    using Q(6) that by auto
  have sw: "t \<notin> set (?act @ rl @ zl) \<and> (\<forall>k. t \<notin> set (wl k))"
    if "c < cores s" "phases s c = Switching t a" for c t a
  proof -
    have "pl t = Leaving c" using D(2) that by blast
    then show ?thesis using act Q(4-6) by (auto simp del: set_map)
  qed
  have "\<forall>k. distinct (wl k) \<and> set (wl k) \<inter> set (?act @ rl @ zl) = {} \<and>
      (\<forall>l. l \<noteq> k \<longrightarrow> set (wl k) \<inter> set (wl l) = {})"
    by (intro allI conjI impI dw w1 w2)
  moreover have "\<forall>c < cores s. \<forall>t a. phases s c = Switching t a \<longrightarrow>
      t \<notin> set (?act @ rl @ zl) \<and> (\<forall>k. t \<notin> set (wl k))"
    by (intro allI impI) (rule sw)
  ultimately show ?thesis
    by (intro exI [of _ rl] exI [of _ zl] exI [of _ wl] conjI Q(1-3) dist) assumption+
qed

theorem thread_in_one_place_witness:
  "\<exists>ready. q_list (nexts (threadsInit 2 (\<lambda>_. 1))) (readyQ (threadsInit 2 (\<lambda>_. 1))) ready \<and>
     distinct (map (activeThreads (threadsInit 2 (\<lambda>_. 1))) [0..<cores (threadsInit 2 (\<lambda>_. 1))] @ ready)"
  using thread_in_one_place [OF reachable.init, of 2 "\<lambda>_. 1"]
  by (elim exE conjE) (rule exI, rule conjI, assumption, simp only: distinct_append append_assoc set_append, blast)



section \<open>Semaphores\<close>

lemma reachable_views:
  assumes "reachable n counts s"
  obtains pl rl zl wl where "qinv s pl rl zl wl" "cinv s pl"
  using reachable_inv [OF assms] by (auto simp: sinv_def)

text \<open>
  C15. \<^verbatim>\<open>Semaphore::up\<close>, run to its end, wakes the thread that has waited longest by moving it
  from the head of the semaphore's queue to the end of the ready queue, the count staying as it
  is; only when nobody waits does the count grow.
\<close>
theorem up_wakes_in_order:
  assumes "reachable n counts s" "enabled (Up c k) s"
    and "q_list (nexts s) (waiting (sems s k)) ws" "q_list (nexts s) (readyQ s) rs"
  shows "case ws of
      [] \<Rightarrow> count (sems (up c k s) k) = count (sems s k) + 1 \<and>
            q_list (nexts (up c k s)) (readyQ (up c k s)) rs
    | t # ts \<Rightarrow> enabled (UpSchedule c) (up c k s) \<and>
        (\<forall>s'. s' = up_schedule c (up c k s) \<longrightarrow> count (sems s' k) = count (sems s k) \<and>
           q_list (nexts s') (waiting (sems s' k)) ts \<and> q_list (nexts s') (readyQ s') (rs @ [t]))"
proof -
  obtain pl rl zl wl where q: "qinv s pl rl zl wl" and ci: "cinv s pl"
    by (rule reachable_views [OF assms(1)])
  note D = cinvD [OF ci]
  have eq: "wl k = ws" "rl = rs"
    using tq.view_unique assms(3,4) q unfolding qinv_def by blast+
  let ?me = "activeThreads s c"
  have c: "c < cores s" "phases s c = Running" "pend (tcbs s ?me) = None"
    using assms(2) by (auto simp: ready_core_def)
  obtain nxt q' where r: "q_remove (nexts s) (waiting (sems s k)) = (nxt, q')"
    by (cases "q_remove (nexts s) (waiting (sems s k))")
  show ?thesis
  proof (cases ws)
    case Nil
    then have "nxt = None" using qinv_remove_waiting [OF q r, of "(sems s k)\<lparr>waiting := q'\<rparr>"] eq by (cases nxt) auto
    then show ?thesis using Nil r assms(4) by (simp add: up_def Let_def)
  next
    case (Cons t ts)
    let ?m = "(sems s k)\<lparr>waiting := q'\<rparr>"
    let ?s1 = "set_pend ?me (Some t) (set_sem k ?m s)"
    have nxt: "nxt = Some t" using tq.deq_some [of "nexts s" "waiting (sems s k)" t ts] assms(3) r Cons by simp
    have R: "pl t = WaitFor k" "qinv (set_sem k ?m s) (pl(t := Woken ?me)) rl zl (wl(k := ts))"
      using qinv_remove_waiting [OF q r, of ?m] nxt eq Cons by (auto simp: queued_def)
    have up: "up c k s = ?s1" using r nxt by (simp add: up_def Let_def)
    have "t < next_id s" using D(4) [of t] R(1) by auto
    then have ni: "\<not> isIdle (tcbs s t)" using D(5) [of t] D(7) [of t] R(1) by auto
    have us: "up_schedule c (up c k s) = ready_add t (set_pend ?me None ?s1)"
      using ni unfolding up by (simp add: up_schedule_def schedule_def Let_def)
    have "qinv (ready_add t (set_pend ?me None ?s1)) ((pl(t := Woken ?me))(t := Ready)) (rl @ [t]) zl (wl(k := ts))"
      using R by (intro qinv_add(1)) (simp_all add: queued_def)
    then have "q_list (nexts (up_schedule c (up c k s))) (waiting (sems (up_schedule c (up c k s)) k)) ts"
      "q_list (nexts (up_schedule c (up c k s))) (readyQ (up_schedule c (up c k s))) (rs @ [t])"
      unfolding us qinv_def eq by (metis fun_upd_same)+
    moreover have "enabled (UpSchedule c) (up c k s)" using c unfolding up by simp
    moreover have "count (sems (up_schedule c (up c k s)) k) = count (sems s k)" unfolding us by simp
    ultimately show ?thesis using Cons by simp
  qed
qed

theorem up_wakes_in_order_witness:
  "count (sems (up 0 3 (threadsInit 1 (\<lambda>_. 5))) 3) = 6"
proof -
  let ?s = "threadsInit 1 (\<lambda>_. 5)"
  have e: "enabled (Up 0 3) ?s"
    by (simp add: threadsInit_def spawn_def schedule_def new_tcb_def ready_core_def Let_def)
  have w: "q_list (nexts ?s) (waiting (sems ?s 3)) []"
    by (simp add: threadsInit_def spawn_def schedule_def new_tcb_def Let_def)
  obtain rs where "q_list (nexts ?s) (readyQ ?s) rs"
    using thread_in_one_place [OF reachable.init, of 1 "\<lambda>_. 5"] by blast
  from up_wakes_in_order [OF reachable.init e w this] show ?thesis
    by (simp add: threadsInit_def spawn_def schedule_def new_tcb_def Let_def)
qed

end
