(* ===== verification/Sched_Live.thy ===== *)
theory Sched_Live
  imports Sched_Steps
begin

text \<open>
  Progress of the scheduler of \<^verbatim>\<open>src/kernel/threads.h\<close> and \<^verbatim>\<open>threads.cc\<close>: the ready queue is served
  in order, so that a thread in it gets a core after as many switches as there are threads
  before it.
\<close>

section \<open>Runs\<close>

text \<open>
  The events of a run happen one after the other from a state. An event serves the ready
  queue when its core comes to the loop of \<^verbatim>\<open>block\<close>.
\<close>

fun valid_run :: "event list \<Rightarrow> sched \<Rightarrow> bool" where
  "valid_run [] s = True"
| "valid_run (e # es) s =
     (enabled e s \<and> well_used e s \<and> (case step e s of Inl _ \<Rightarrow> False | Inr s' \<Rightarrow> valid_run es s'))"

fun serves :: "event \<Rightarrow> sched \<Rightarrow> bool" where
  "serves (Yield c) s = True"
| "serves (Stop c) s = True"
| "serves (Down c k) s = (count (sems s k) = 0)"
| "serves (Retry c) s = True"
| "serves (Tick c) s = (\<not> isIdle (tcbs s (activeThreads s c)) \<and> \<not> no_preempt (tcbs s (activeThreads s c)))"
| "serves _ s = False"

fun served :: "event list \<Rightarrow> sched \<Rightarrow> nat" where
  "served [] s = 0"
| "served (e # es) s =
     (if serves e s then 1 else 0) + (case step e s of Inl _ \<Rightarrow> 0 | Inr s' \<Rightarrow> served es s')"

text \<open>Thread \<open>t\<close> is active on a core at some point of the run.\<close>

definition active :: "nat \<Rightarrow> sched \<Rightarrow> bool" where
  "active t s \<longleftrightarrow> list_ex (\<lambda>c. activeThreads s c = t) [0..<cores s]"

fun gets_core :: "nat \<Rightarrow> event list \<Rightarrow> sched \<Rightarrow> bool" where
  "gets_core t [] s = active t s"
| "gets_core t (e # es) s =
     (active t s \<or> (case step e s of Inl _ \<Rightarrow> False | Inr s' \<Rightarrow> gets_core t es s'))"

section \<open>The ready queue over one event\<close>

lemma active_iff: "active t s \<longleftrightarrow> (\<exists>c < cores s. activeThreads s c = t)"
  by (auto simp: active_def list_ex_iff)

lemma gets_core_now: "active t s \<Longrightarrow> gets_core t es s"
  by (cases es) auto

lemma pick_next_serves:
  assumes "q_list (nexts s) (readyQ s) (r # rs)" "c < cores s"
  shows "q_list (nexts (pick_next c opt act s)) (readyQ (pick_next c opt act s)) rs \<and>
    active r (pick_next c opt act s)"
proof -
  obtain nxt q' where r: "q_remove (nexts s) (readyQ s) = (nxt, q')"
    by (cases "q_remove (nexts s) (readyQ s)")
  have n: "nxt = Some r" "q_list (nexts s) q' rs"
    using tq.deq_some [of "nexts s" "readyQ s" r rs] assms(1) r by auto
  then have e: "pick_next c opt act s = set_phase c (Switching (activeThreads s c) act)
      ((set_no_preempt r True (s\<lparr>readyQ := q'\<rparr>))\<lparr>activeThreads := (activeThreads s)(c := r)\<rparr>)"
    using r by (simp add: pick_next_def Let_def)
  show ?thesis unfolding e active_iff using n(2) assms(2) by auto
qed

lemma block_serves:
  assumes "q_list (nexts s) (readyQ s) (r # rs)" "c < cores s"
  shows "q_list (nexts (block c opt act s)) (readyQ (block c opt act s)) rs \<and> active r (block c opt act s)"
  unfolding block_def by (rule pick_next_serves) (use assms in simp_all)

lemma step_serves:
  assumes q: "q_list (nexts s) (readyQ s) (r # rs)" and e: "enabled e s" "serves e s" and s: "step e s = Inr s'"
  shows "q_list (nexts s') (readyQ s') rs \<and> active r s'"
  using e s block_serves [OF q] pick_next_serves [OF q]
    block_serves [of "set_sem k m s" r rs for k m] q
  by (cases e) (auto simp: yield_def stop_def apitHandler_def down_def ready_core_def Let_def)

lemma step_other:
  assumes si: "sinv s" and q: "q_list (nexts s) (readyQ s) rs" and e: "enabled e s" "\<not> serves e s"
    and s: "step e s = Inr s'"
  shows "\<exists>xs. q_list (nexts s') (readyQ s') (rs @ xs)"
proof -
  obtain pl rl zl wl where Q: "qinv s pl rl zl wl" and ci: "cinv s pl" using si by (auto simp: sinv_def)
  note D = cinvD [OF ci]
  have rl: "rl = rs" using tq.view_unique q Q unfolding qinv_def by blast
  have add: "q_list (nexts (ready_add t u)) (readyQ (ready_add t u)) (rs @ [t])"
    if "qinv u pl rs zl wl" "\<not> queued (pl t)" for t u
    using qinv_add(1) [OF that] by (simp add: qinv_def)
  have same: "\<exists>xs. q_list (nexts s) (readyQ s) (rs @ xs)" using q by (intro exI [of _ "[]"]) simp
  show ?thesis
  proof (cases e)
    case (Up c k)
    then have "nexts s' = nexts s" "readyQ s' = readyQ s"
      using s by (auto simp: up_def Let_def case_prod_unfold split: option.splits)
    then show ?thesis using same by simp
  next
    case (UpSchedule c)
    then obtain n where n: "pend (tcbs s (activeThreads s c)) = Some n" using e by auto
    then have "pl n = Woken (activeThreads s c)" using D(3) by blast
    moreover have "s' = schedule n (set_pend (activeThreads s c) None s)"
      using UpSchedule n s by (simp add: up_schedule_def Let_def)
    ultimately show ?thesis
      using add [of "set_pend (activeThreads s c) None s" n] Q same rl
      by (auto simp: schedule_def queued_def)
  next
    case (Finish c)
    then obtain me act where ph: "c < cores s" "phases s c = Switching me act" using e by auto
    have pme: "pl me = Leaving c" using D(2) ph by auto
    let ?u = "set_phase c Running (set_no_preempt (activeThreads s c) False (set_no_preempt me False s))"
    have u: "qinv ?u pl rs zl wl" using Q rl by simp
    have nq: "\<not> queued (pl me)" using pme by (simp add: queued_def)
    have f: "run_action act me ?u = Inr s'" using Finish ph s by (simp add: finish_switch_def)
    have su: "\<exists>xs. q_list (nexts ?u) (readyQ ?u) (rs @ xs)" using same by simp
    have z: "q_list (nexts (zombie_add me ?u)) (readyQ (zombie_add me ?u)) rs"
      using qinv_add(2) [OF u nq] by (simp add: qinv_def)
    have w: "q_list (nexts (waiting_add k me ?u)) (readyQ (waiting_add k me ?u)) rs" for k
      using qinv_add(3) [OF u nq, of k] by (simp add: qinv_def)
    show ?thesis
    proof (cases act)
      case Reschedule
      then show ?thesis using f su add [OF u nq] by (auto simp: run_action_def schedule_def split: if_splits)
    next
      case Retire
      then show ?thesis using f su z by (auto simp: run_action_def split: if_splits intro: exI [of _ "[]"])
    next
      case (Park k)
      then show ?thesis using f w [of k]
        by (auto simp: run_action_def bindR_eq_Inr Let_def intro: exI [of _ "[]"])
    qed
  next
    case (Spawn c)
    let ?n = "next_id s"
    let ?s0 = "s\<lparr>next_id := ?n + 1, tcbs := (tcbs s)(?n := new_tcb)\<rparr>"
    have pn: "pl ?n = Unborn" using D(4) by blast
    have "q_list (nexts ?s0) q' xs" if "q_list (nexts s) q' xs" "?n \<notin> set xs" for q' xs
      by (rule q_list_frame [OF that(1)]) (use that(2) in \<open>auto simp: nexts_def\<close>)
    then have "qinv ?s0 pl rs zl wl" using Q pn rl unfolding qinv_def by auto
    then have "q_list (nexts (ready_add ?n ?s0)) (readyQ (ready_add ?n ?s0)) (rs @ [?n])"
      using add pn by (simp add: queued_def)
    then show ?thesis using Spawn s by (auto simp: spawn_def schedule_def new_tcb_def Let_def)
  next
    case (Reap c)
    then show ?thesis using s same by (auto simp: reap_def case_prod_unfold Let_def)
  next
    case (Down c k)
    then show ?thesis using s e same by (auto simp: down_def word_gt_0 Let_def)
  next
    case (Tick c)
    then show ?thesis using s e same by (auto simp: apitHandler_def Let_def split: if_splits)
  qed (use e in auto)
qed

section \<open>Progress\<close>

lemma ready_runs_aux:
  "sinv s \<Longrightarrow> q_list (nexts s) (readyQ s) rs \<Longrightarrow> i < length rs \<Longrightarrow> rs ! i = t \<Longrightarrow> valid_run es s \<Longrightarrow>
    i < served es s \<Longrightarrow> gets_core t es s"
proof (induction es arbitrary: s rs i)
  case (Cons e es)
  obtain s' where s': "step e s = Inr s'" "valid_run es s'" "enabled e s" "well_used e s"
    using Cons.prems(5) by (auto split: sum.splits)
  have si: "sinv s'" using step_inv [OF Cons.prems(1) s'(3,4)] s'(1) by auto
  show ?case
  proof (cases "serves e s")
    case True
    obtain r rest where rs: "rs = r # rest" using Cons.prems(3) by (cases rs) auto
    have S: "q_list (nexts s') (readyQ s') rest" "active r s'"
      using step_serves [OF _ s'(3) True s'(1)] Cons.prems(2) rs by auto
    show ?thesis
    proof (cases i)
      case 0
      then show ?thesis using S(2) Cons.prems(4) rs s'(1) gets_core_now by simp
    next
      case (Suc j)
      then have "gets_core t es s'"
        using Cons.IH [OF si S(1)] Cons.prems(3,4,6) rs s' True by simp
      then show ?thesis using s'(1) by simp
    qed
  next
    case False
    obtain xs where xs: "q_list (nexts s') (readyQ s') (rs @ xs)"
      using step_other [OF Cons.prems(1,2) s'(3) False s'(1)] by blast
    have "gets_core t es s'"
      by (rule Cons.IH [OF si xs _ _ s'(2)]) (use Cons.prems(3,4,6) False s'(1) in \<open>auto simp: nth_append\<close>)
    then show ?thesis using s'(1) by simp
  qed
qed simp

text \<open>
  C12. No ready thread starves: on any number of cores, whatever the other threads and the
  timer do, a thread with \<open>i\<close> threads before it in the ready queue is active on a core by the
  time the loop of \<^verbatim>\<open>block\<close> has been run \<open>i + 1\<close> times.
\<close>
theorem ready_thread_runs:
  assumes "reachable n counts s" "q_list (nexts s) (readyQ s) rs" "i < length rs" "rs ! i = t"
    and "valid_run es s" "i < served es s"
  shows "gets_core t es s"
  using ready_runs_aux [OF reachable_inv [OF assms(1)] assms(2-6)] .

theorem ready_thread_runs_witness: "gets_core 2 [Yield 1] (threadsInit 2 (\<lambda>_. 0))"
proof -
  let ?s = "threadsInit 2 (\<lambda>_. 0)"
  have q: "q_list (nexts ?s) (readyQ ?s) [2]"
    by (simp add: threadsInit_def spawn_def schedule_def new_tcb_def ready_add_def q_add_def q_new_def
      q_list_def Let_def nexts_def set_nexts_def)
  have v: "valid_run [Yield 1] ?s"
    by (simp add: threadsInit_def spawn_def schedule_def new_tcb_def ready_core_def well_used_def Let_def)
  show ?thesis by (rule ready_thread_runs [OF reachable.init q, of 0]) (use v in simp_all)
qed

text \<open>
  How much the property above depends on the running threads: a \<^verbatim>\<open>yield\<close> that finds no other
  thread, also one the timer makes, returns with preemption switched off, and from then on the
  timer leaves the thread alone, also when the ready queue has filled up, until the thread
  blocks by itself.
\<close>
theorem yield_stops_preemption:
  assumes "q_list (nexts s) (readyQ s) []"
  shows "activeThreads (yield c s) c = activeThreads s c" "phases (yield c s) c = Running"
    "no_preempt (tcbs u (activeThreads u c)) \<Longrightarrow> apitHandler c u = u"
    "no_preempt (tcbs (yield c s) (activeThreads s c))"
proof -
  have e: "yield c s = set_phase c Running
      ((set_no_preempt (activeThreads s c) True s)\<lparr>readyQ := snd (q_remove (nexts s) (readyQ s))\<rparr>)"
    using tq.deq_none [OF assms]
    by (simp add: yield_def block_def pick_next_def Let_def case_prod_unfold)
  show "activeThreads (yield c s) c = activeThreads s c" "phases (yield c s) c = Running"
    "no_preempt (tcbs (yield c s) (activeThreads s c))"
    unfolding e by simp_all
  show "no_preempt (tcbs u (activeThreads u c)) \<Longrightarrow> apitHandler c u = u"
    by (simp add: apitHandler_def Let_def)
qed

end
