(* ===== verification/Block_IO.thy ===== *)
theory Block_IO
  imports Prelude
begin

unbundle bit_operations_syntax

text \<open>
  Block devices: \<^verbatim>\<open>src/kernel/block_io.h\<close>, \<^verbatim>\<open>block_io.cc\<close>, the disk driver of \<^verbatim>\<open>ide.cc\<close>, and
  \<^verbatim>\<open>K::min\<close>, \<^verbatim>\<open>K::strlen\<close> and \<^verbatim>\<open>K::streq\<close> of \<^verbatim>\<open>libk\<close>. A buffer a function fills is a list of
  bytes it returns.
\<close>

type_synonym bytes = "u8 list"

section \<open>The kernel's library\<close>

fun k_min :: "u32 \<Rightarrow> u32 list \<Rightarrow> u32" where
  "k_min v [] = v"
| "k_min a (b # more) = (let rest = k_min b more in if a < rest then a else rest)"

text \<open>The strings are the bytes before the terminating NUL.\<close>

fun k_strlen :: "bytes \<Rightarrow> int" where
  "k_strlen [] = 0"
| "k_strlen (c # cs) = k_strlen cs + 1"

fun streq :: "bytes \<Rightarrow> bytes \<Rightarrow> bool" where
  "streq [] [] = True"
| "streq (x # a) (y # b) = (if x \<noteq> y then False else streq a b)"
| "streq _ _ = False"

lemma streq_eq [simp]: "streq a b \<longleftrightarrow> a = b"
  by (induction a b rule: streq.induct) auto

section \<open>Little-endian numbers\<close>

definition le16 :: "bytes \<Rightarrow> u16" where
  "le16 b = ucast (b ! 0) OR push_bit 8 (ucast (b ! 1))"

definition le32 :: "bytes \<Rightarrow> u32" where
  "le32 b = ucast (b ! 0) OR push_bit 8 (ucast (b ! 1)) OR push_bit 16 (ucast (b ! 2)) OR push_bit 24 (ucast (b ! 3))"

definition part :: "nat \<Rightarrow> nat \<Rightarrow> 'a list \<Rightarrow> 'a list" where
  "part a n xs = take n (drop a xs)"

section \<open>Reading\<close>

text \<open>
  \<^verbatim>\<open>BlockIO::read\<close> on a device with blocks of \<open>bs\<close> bytes, \<open>sz\<close> bytes in all, whose virtual
  function \<^verbatim>\<open>read_block\<close> is \<open>rb\<close>: the count it returns and the bytes it puts in the buffer.
\<close>

definition bio_read :: "u32 \<Rightarrow> u32 \<Rightarrow> (u32 \<Rightarrow> bytes result) \<Rightarrow> u32 \<Rightarrow> u32 \<Rightarrow> (int \<times> bytes) result" where
  "bio_read bs sz rb offset desired_n =
     (if offset > sz then Inr (-1, [])
      else if offset = sz then Inr (0, [])
      else if bs = 0 then Inl DivideByZero
      else
        let n = k_min desired_n [sz - offset];
            block_number = offset div bs;
            offset_in_block = offset mod bs;
            actual_n = k_min (bs - offset_in_block) [n]
        in bindR (assertR (actual_n \<le> n) ''actual_n <= n'') (\<lambda>_.
           bindR (assertR (offset + actual_n \<le> sz) ''offset + actual_n <= sz'') (\<lambda>_.
           if actual_n = bs then
             bindR (assertR (offset_in_block = 0) ''offset_in_block == 0'') (\<lambda>_.
             bindR (rb block_number) (\<lambda>b. Inr (uint actual_n, b)))
           else
             bindR (assertR (offset_in_block + actual_n \<le> bs) ''offset_in_block + actual_n <= block_size'') (\<lambda>_.
             bindR (rb block_number) (\<lambda>temp.
             Inr (uint actual_n, part (unat offset_in_block) (unat actual_n) temp))))))"

lemma k_min_le: "k_min a [b] \<le> a" "k_min a [b] \<le> b"
  by (auto simp: Let_def)

lemma bio_read_count:
  assumes "bio_read bs sz rb offset n = Inr (cnt, b)"
  shows "cnt \<le> uint n \<and> - 1 \<le> cnt"
proof -
  define a where "a = k_min (bs - offset mod bs) [k_min n [sz - offset]]"
  have "a \<le> n"
    using k_min_le(2) [of "bs - offset mod bs" "k_min n [sz - offset]"] k_min_le(1) [of n "sz - offset"]
    unfolding a_def by (rule order_trans)
  then have "uint a \<le> uint n" by (simp add: word_le_def)
  moreover have "0 \<le> uint n" "0 \<le> uint a" by simp_all
  moreover have "cnt = -1 \<or> cnt = 0 \<or> cnt = uint a"
    using assms unfolding bio_read_def Let_def a_def [symmetric] by (auto simp: bindR_eq_Inr split: if_splits)
  ultimately show ?thesis by linarith
qed

function bio_read_all :: "u32 \<Rightarrow> u32 \<Rightarrow> (u32 \<Rightarrow> bytes result) \<Rightarrow> u32 \<Rightarrow> u32 \<Rightarrow> (int \<times> bytes) result" where
  "bio_read_all bs sz rb offset n =
     (if n > 0 then
        bindR (bio_read bs sz rb offset n) (\<lambda>(cnt, b).
        if cnt < 0 then Inr (cnt, b)
        else if cnt = 0 then Inr (0, b)
        else bindR (bio_read_all bs sz rb (offset + word_of_int cnt) (n - word_of_int cnt)) (\<lambda>(c, b').
             Inr (if c < 0 then c else cnt + c, b @ b')))
      else Inr (0, []))"
  by pat_completeness auto
termination
proof (relation "measure (\<lambda>(bs, sz, rb, offset, n). unat n)")
  fix bs sz :: u32 and rb and offset n :: u32 and x cnt b
  assume a: "0 < n" "bio_read bs sz rb offset n = Inr x" "(cnt, b) = x" "\<not> cnt < 0" "cnt \<noteq> 0"
  then have c: "0 < cnt" "cnt \<le> uint n" using bio_read_count [of bs sz rb offset n cnt b] by auto
  define m where "m = (word_of_int cnt :: u32)"
  have u: "uint m = cnt" using c uint_lt2p [of n] unfolding m_def by (simp add: uint_word_of_int)
  then have "m \<le> n" using c by (simp add: word_le_def)
  then have "unat (n - m) = unat n - unat m" by (rule unat_sub)
  moreover have "0 < unat m" using c(1) u by (simp add: unat_eq_nat_uint)
  moreover have "unat m \<le> unat n" using \<open>m \<le> n\<close> by (simp add: word_le_nat_alt)
  ultimately have "unat (n - word_of_int cnt) < unat n" by (simp add: m_def)
  then show "((bs, sz, rb, offset + word_of_int cnt, n - word_of_int cnt), bs, sz, rb, offset, n)
      \<in> measure (\<lambda>(bs, sz, rb, offset, n). unat n)" by simp
qed simp

declare bio_read_all.simps [simp del]

text \<open>\<^verbatim>\<open>read\<close> of a whole object of \<open>k\<close> bytes.\<close>

definition bio_read_thing :: "u32 \<Rightarrow> u32 \<Rightarrow> (u32 \<Rightarrow> bytes result) \<Rightarrow> u32 \<Rightarrow> nat \<Rightarrow> bytes result" where
  "bio_read_thing bs sz rb offset k =
     bindR (bio_read_all bs sz rb offset (of_nat k)) (\<lambda>(cnt, b).
     bindR (assertR (cnt = int k) ''cnt == sizeof(T)'') (\<lambda>_. Inr b))"

definition size_in_blocks :: "u32 \<Rightarrow> u32 \<Rightarrow> u32 result" where
  "size_in_blocks bs sz = (if bs = 0 then Inl DivideByZero else Inr ((sz + bs - 1) div bs))"

section \<open>Devices with contents\<close>

text \<open>
  The interface of a block device: its \<^verbatim>\<open>read_block\<close> delivers the bytes \<open>cont\<close> of the block,
  at least those below the size of the device. The laws give what the two readers return.
\<close>

lemma k_min2 [simp]: "k_min a [b] = min a b"
  by (auto simp: min_def)

declare k_min.simps [simp del]

lemma unat_min: "unat (min a b :: u32) = min (unat a) (unat b)"
  by (simp add: min_def word_le_nat_alt)

locale block_device =
  fixes bs sz :: "'d \<Rightarrow> u32" and rb :: "'d \<Rightarrow> u32 \<Rightarrow> bytes result" and cont :: "'d \<Rightarrow> nat \<Rightarrow> u8"
    and good :: "'d \<Rightarrow> bool"
  assumes block_size: "good d \<Longrightarrow> 0 < bs d"
    and blocks: "good d \<Longrightarrow> unat i * unat (bs d) < unat (sz d) \<Longrightarrow> \<exists>b. rb d i = Inr b \<and> length b = unat (bs d) \<and>
      (\<forall>k < unat (bs d). unat i * unat (bs d) + k < unat (sz d) \<longrightarrow> b ! k = cont d (unat i * unat (bs d) + k))"
begin

lemma read_some:
  assumes g: "good d" and o: "offset < (sz d)" and n: "0 < n"
  obtains m where "0 < m" "m \<le> unat n" "unat offset + m \<le> unat (sz d)"
    "bio_read (bs d) (sz d) (rb d) offset n = Inr (int m, map (cont d) [unat offset..<unat offset + m])"
proof -
  let ?B = "unat (bs d)" and ?o = "unat offset" and ?S = "unat (sz d)"
  have B: "0 < ?B" using block_size [OF g] by (simp add: word_less_nat_alt)
  have oS: "?o < ?S" using o by (simp add: word_less_nat_alt)
  have u: "unat ((sz d) - offset) = ?S - ?o" "unat (offset mod (bs d)) = ?o mod ?B" "unat (offset div (bs d)) = ?o div ?B"
    using o by (simp_all add: unat_sub order_less_imp_le unat_mod unat_div)
  have mB: "?o mod ?B < ?B" using B by simp
  have ub: "unat ((bs d) - offset mod (bs d)) = ?B - ?o mod ?B"
    using mB u by (simp add: unat_sub word_le_nat_alt)
  define a where "a = min ((bs d) - offset mod (bs d)) (min n ((sz d) - offset))"
  define m where "m = unat a"
  have m: "m = min (?B - ?o mod ?B) (min (unat n) (?S - ?o))"
    by (simp add: m_def a_def unat_min ub u)
  have bnd: "0 < m" "m \<le> unat n" "?o + m \<le> ?S" "?o mod ?B + m \<le> ?B"
    using n oS mB by (auto simp: m word_less_nat_alt)
  have le: "offset + a \<le> (sz d)" "offset mod (bs d) + a \<le> (bs d)" "a \<le> min n ((sz d) - offset)"
  proof -
    have "unat (offset + a) = ?o + m"
      using bnd unat_bound [of "sz d"] by (subst unat_add_lem [THEN iffD1]) (simp_all add: m_def)
    then show "offset + a \<le> (sz d)" using bnd by (simp add: word_le_nat_alt)
    have "unat (offset mod (bs d) + a) = ?o mod ?B + m"
      using bnd unat_bound [of "bs d"] by (subst unat_add_lem [THEN iffD1]) (simp_all add: m_def u)
    then show "offset mod (bs d) + a \<le> (bs d)" using bnd by (simp add: word_le_nat_alt)
    show "a \<le> min n ((sz d) - offset)" unfolding a_def by (rule min.cobounded2)
  qed
  have blk: "?o div ?B * ?B \<le> ?o" by simp
  obtain b where b: "(rb d) (offset div (bs d)) = Inr b" "length b = ?B"
    "\<And>k. k < ?B \<Longrightarrow> ?o div ?B * ?B + k < ?S \<Longrightarrow> b ! k = (cont d) (?o div ?B * ?B + k)"
    using blocks [OF g, of "offset div (bs d)"] oS blk unfolding u by (meson le_less_trans)
  have eq: "take m (drop (?o mod ?B) b) = map (cont d) [?o..<?o + m]"
  proof (rule nth_equalityI)
    show "length (take m (drop (?o mod ?B) b)) = length (map (cont d) [?o..<?o + m])" using b(2) bnd by simp
    fix k assume "k < length (take m (drop (?o mod ?B) b))"
    then have k: "k < m" by simp
    have "?o div ?B * ?B + (?o mod ?B + k) = ?o + k" by simp
    then show "take m (drop (?o mod ?B) b) ! k = map (cont d) [?o..<?o + m] ! k"
      using b(3) [of "?o mod ?B + k"] k bnd b(2) by simp
  qed
  have whole: "offset mod (bs d) = 0 \<and> b = map (cont d) [?o..<?o + m]" if "a = (bs d)"
  proof -
    have "m = ?B" using that m_def by simp
    then have "?o mod ?B = 0" using bnd(4) by simp
    then show ?thesis using eq b(2) \<open>m = ?B\<close> u(2) by (simp add: unat_eq_zero)
  qed
  have nz: "\<not> sz d < offset" "offset \<noteq> sz d" "bs d \<noteq> 0" using o block_size [OF g] by auto
  have "bio_read (bs d) (sz d) (rb d) offset n =
      (if a = bs d then bindR (assertR (offset mod bs d = 0) ''offset_in_block == 0'') (\<lambda>_.
         bindR (rb d (offset div bs d)) (\<lambda>b. Inr (uint a, b)))
       else bindR (rb d (offset div bs d)) (\<lambda>temp. Inr (uint a, part (unat (offset mod bs d)) (unat a) temp)))"
    unfolding bio_read_def Let_def k_min2 a_def [symmetric] using nz le by (simp cong: if_cong)
  also have "\<dots> = Inr (uint a, map (cont d) [?o..<?o + m])"
    using whole b(1) eq by (simp add: part_def u m_def)
  also have "uint a = int m" by (simp add: m_def)
  finally have "bio_read (bs d) (sz d) (rb d) offset n = Inr (int m, map (cont d) [?o..<?o + m])" .
  then show ?thesis using that bnd by blast
qed

lemma read_all_ok:
  assumes g: "good d" and "offset \<le> (sz d)"
  shows "bio_read_all (bs d) (sz d) (rb d) offset n =
    (let m = min (unat n) (unat (sz d) - unat offset) in Inr (int m, map (cont d) [unat offset..<unat offset + m]))"
  using assms(2)
proof (induction "unat n" arbitrary: offset n rule: less_induct)
  case less
  show ?case
  proof (cases "n = 0 \<or> offset = (sz d)")
    case True
    then show ?thesis using less.prems
      by (auto simp: bio_read_all.simps [of _ _ _ _ n] bio_read_def word_gt_0)
  next
    case False
    then have n: "0 < n" and o: "offset < (sz d)" using less.prems by (auto simp: word_gt_0)
    obtain m where m: "0 < m" "m \<le> unat n" "unat offset + m \<le> unat (sz d)"
      "bio_read (bs d) (sz d) (rb d) offset n = Inr (int m, map (cont d) [unat offset..<unat offset + m])"
      by (rule read_some [OF g o n])
    let ?w = "of_nat m :: u32"
    have w: "unat ?w = m" using m(2) unat_bound [of n] by (simp add: unat_of_nat take_bit_nat_def)
    have u: "unat (n - ?w) = unat n - m" "unat (offset + ?w) = unat offset + m"
      using m w unat_bound [of "sz d"] by (simp_all add: unat_sub word_le_nat_alt unat_add_lem [THEN iffD1])
    have "unat (n - ?w) < unat n" "offset + ?w \<le> (sz d)" using u m by (auto simp: word_le_nat_alt)
    note IH = less.hyps [OF this]
    have split: "map (cont d) [unat offset..<unat offset + m] @
        map (cont d) [unat offset + m..<unat offset + m + k] = map (cont d) [unat offset..<unat offset + (m + k)]" for k
      using upt_add_eq_append [of "unat offset" "unat offset + m" k] by (simp add: ac_simps flip: map_append)
    define k where "k = min (unat n - m) (unat (sz d) - (unat offset + m))"
    have k: "min (unat n) (unat (sz d) - unat offset) = m + k" using m(2,3) by (simp add: k_def)
    show ?thesis
      using n m(1,4) IH [unfolded u, folded k_def] split [of k]
      by (subst bio_read_all.simps) (simp add: Let_def k)
  qed
qed

end

section \<open>The disk\<close>

text \<open>
  An IDE drive: its number, the status byte it reports while idle, the one it reports once a
  command has been given, and the contents of its sectors. The driver programs a sector number of 28
  bits through the task file and the drive answers with the sector it was asked for. Each status
  byte stays what it is, so that a loop waiting for a bit ends at once or never.
\<close>

record ide =
  drive :: u32
  status :: u8
  status_cmd :: u8
  platter :: "nat \<Rightarrow> bytes"

definition controller :: "u32 \<Rightarrow> u32" where
  "controller drv = drop_bit 1 drv AND 1"

definition channel :: "u32 \<Rightarrow> u32" where
  "channel drv = drv AND 1"

definition ide_port :: "u32 \<Rightarrow> u32" where
  "ide_port drv = [0x1f0, 0x170] ! unat (controller drv)"

definition ERR :: u8 where "ERR = 0x01"
definition DRQ :: u8 where "DRQ = 0x08"
definition DF :: u8 where "DF = 0x20"
definition DRDY :: u8 where "DRDY = 0x40"
definition BSY :: u8 where "BSY = 0x80"

definition waitForDrive :: "u8 \<Rightarrow> unit result" where
  "waitForDrive st =
     (if st AND (ERR OR DF) \<noteq> 0 then Inl (Panic ''drive error'')
      else if st AND DRDY = 0 then Inl (Panic ''drive is not ready'')
      else if st AND BSY \<noteq> 0 then Inl Diverges
      else Inr ())"

text \<open>The \<^verbatim>\<open>outb\<close>s of a read command, and the sector number they give the drive.\<close>

definition read_command :: "u32 \<Rightarrow> u32 \<Rightarrow> (u32 \<times> u8) list" where
  "read_command drv sector =
     (let base = ide_port drv; ch = channel drv
      in [(base + 2, 1), (base + 3, ucast sector), (base + 4, ucast (drop_bit 8 sector)),
          (base + 5, ucast (drop_bit 16 sector)),
          (base + 6, ucast (0xE0 OR push_bit 4 ch OR (drop_bit 24 sector AND 0xf))), (base + 7, 0x20)])"

definition lba :: "(u32 \<times> u8) list \<Rightarrow> nat" where
  "lba cmd = unat (snd (cmd ! 1)) + 256 * unat (snd (cmd ! 2)) + 65536 * unat (snd (cmd ! 3)) +
     16777216 * unat (snd (cmd ! 4) AND 0xf)"

definition to_le32 :: "u32 \<Rightarrow> bytes" where
  "to_le32 x = [ucast x, ucast (drop_bit 8 x), ucast (drop_bit 16 x), ucast (drop_bit 24 x)]"

definition ide_read_block :: "ide \<Rightarrow> u32 \<Rightarrow> bytes result" where
  "ide_read_block d sector =
     bindR (waitForDrive (status d)) (\<lambda>_.
     let cmd = read_command (drive d) sector; data = platter d (lba cmd) in
     bindR (waitForDrive (status_cmd d)) (\<lambda>_.
     if status_cmd d AND DRQ = 0 then Inl Diverges
     else Inr (concat (map (\<lambda>i. to_le32 (le32 (drop (4 * i) data))) [0..<128]))))"

definition sector_size :: u32 where
  "sector_size = 512"

definition ide_size_in_bytes :: u32 where
  "ide_size_in_bytes = NOT 0"

definition ide_read_all :: "ide \<Rightarrow> u32 \<Rightarrow> u32 \<Rightarrow> (int \<times> bytes) result" where
  "ide_read_all d = bio_read_all sector_size ide_size_in_bytes (ide_read_block d)"

definition ide_read :: "ide \<Rightarrow> u32 \<Rightarrow> nat \<Rightarrow> bytes result" where
  "ide_read d = bio_read_thing sector_size ide_size_in_bytes (ide_read_block d)"

text \<open>A drive that works, and byte \<open>a\<close> of its contents.\<close>

definition ide_good :: "ide \<Rightarrow> bool" where
  "ide_good d \<longleftrightarrow> waitForDrive (status d) = Inr () \<and> waitForDrive (status_cmd d) = Inr () \<and>
     status_cmd d AND DRQ \<noteq> 0 \<and> (\<forall>k. length (platter d k) = 512)"

definition ide_cont :: "ide \<Rightarrow> nat \<Rightarrow> u8" where
  "ide_cont d a = platter d (a div 512) ! (a mod 512)"

lemma le32_to_le32 [simp]: "le32 (to_le32 x) = x"
proof (rule bit_word_eqI)
  fix k assume "k < LENGTH(32)"
  then consider "k < 8" | "8 \<le> k" "k < 16" | "16 \<le> k" "k < 24" | "24 \<le> k" "k < 32" by fastforce
  then show "bit (le32 (to_le32 x)) k = bit x k"
    by cases (auto simp: le32_def to_le32_def bit_simps)
qed

lemma to_le32_le32: "to_le32 (le32 (a # b # c # d # xs)) = [a, b, c, d]"
proof -
  have "ucast (le32 (a # b # c # d # xs)) = a" "ucast (drop_bit 8 (le32 (a # b # c # d # xs))) = b"
    "ucast (drop_bit 16 (le32 (a # b # c # d # xs))) = c" "ucast (drop_bit 24 (le32 (a # b # c # d # xs))) = d"
    by (rule bit_word_eqI; auto simp: le32_def bit_simps dest: bit_imp_le_length)+
  then show ?thesis by (simp add: to_le32_def)
qed

lemma words_are_bytes:
  "length xs = 4 * n \<Longrightarrow> concat (map (\<lambda>i. to_le32 (le32 (drop (4 * i) xs))) [0..<n]) = xs"
proof (induction n arbitrary: xs)
  case (Suc n)
  then obtain a b c d ys where x: "xs = a # b # c # d # ys"
    by (auto simp: length_Suc_conv eval_nat_numeral)
  have "[0..<Suc n] = 0 # map Suc [0..<n]" by (simp add: upt_conv_Cons map_Suc_upt del: upt_Suc)
  moreover have "drop (4 + k) xs = drop k ys" for k
    using drop_drop [of k 4 xs] unfolding x by (simp add: add.commute)
  ultimately show ?case using Suc.IH [of ys] Suc.prems unfolding x
    by (simp add: to_le32_le32 comp_def del: upt_Suc)
qed simp

lemma lba_read_command:
  assumes "unat sector < 2 ^ 28"
  shows "lba (read_command drv sector) = unat sector"
proof -
  let ?s = "unat sector"
  have b: "unat (ucast x :: u8) = unat x mod 256" for x :: u32
    by (simp add: unsigned_ucast_eq unsigned_take_bit_eq take_bit_nat_def)
  have f: "unat (ucast (0xE0 OR push_bit 4 (channel drv) OR (drop_bit 24 sector AND 0xf)) AND 0xf :: u8) = ?s div 16777216"
  proof -
    have m4: "(0xf :: u32) = mask 4" "(0xf :: u8) = mask 4" by (simp_all add: mask_eq_exp_minus_1)
    have "push_bit 4 14 = (0xE0 :: u32)" "push_bit 4 14 = (0xE0 :: u8)" "push_bit 4 14 = (0xE0 :: int)"
      "push_bit 4 14 = (0xE0 :: nat)" by (simp_all add: push_bit_eq_mult)
    then have e: "\<not> bit (0xE0 :: u32) n" "\<not> bit (0xE0 :: u8) n" "\<not> bit (0xE0 :: int) n"
        "\<not> bit (0xE0 :: nat) n" if "n < 4" for n
      using that bit_push_bit_iff [of 4 "14 :: u32" n] bit_push_bit_iff [of 4 "14 :: u8" n]
        bit_push_bit_iff [of 4 "14 :: int" n] bit_push_bit_iff [of 4 "14 :: nat" n]
      by (simp_all del: push_bit_numeral)
    have "(ucast (0xE0 OR push_bit 4 (channel drv) OR (drop_bit 24 sector AND 0xf)) AND 0xf :: u8) = ucast (take_bit 4 (drop_bit 24 sector))"
      unfolding m4 by (rule bit_word_eqI) (auto simp: bit_simps e)
    moreover have "unat (take_bit 4 (drop_bit 24 sector)) = ?s div 16777216"
      using assms by (simp add: unsigned_take_bit_eq drop_bit_eq_div unat_div take_bit_nat_def)
    ultimately show ?thesis using assms by (simp add: b)
  qed
  have "?s = ?s mod 256 + 256 * (?s div 256 mod 256) + 65536 * (?s div 65536 mod 256) + 16777216 * (?s div 16777216)"
  proof -
    have "?s = 256 * (?s div 256) + ?s mod 256" by simp
    moreover have "?s div 256 = 256 * (?s div 65536) + ?s div 256 mod 256"
      using mult_div_mod_eq [of 256 "?s div 256"] by (simp add: div_mult2_eq [symmetric])
    moreover have "?s div 65536 = 256 * (?s div 16777216) + ?s div 65536 mod 256"
      using mult_div_mod_eq [of 256 "?s div 65536"] by (simp add: div_mult2_eq [symmetric])
    ultimately show ?thesis by linarith
  qed
  then show ?thesis
    unfolding lba_def read_command_def Let_def by (simp add: b f, simp add: drop_bit_eq_div unat_div)
qed

interpretation ide: block_device "\<lambda>_. sector_size" "\<lambda>_. ide_size_in_bytes" ide_read_block ide_cont ide_good
proof
  fix d :: ide and i :: u32
  assume g: "ide_good d"
  show "0 < sector_size" by (simp add: sector_size_def)
  assume "unat i * unat sector_size < unat ide_size_in_bytes"
  moreover have "unat ide_size_in_bytes < 2 ^ 32" using unat_bound by simp
  ultimately have "unat i < 2 ^ 28" by (simp add: sector_size_def)
  then have "ide_read_block d i = Inr (platter d (unat i))"
    using g words_are_bytes [of _ 128] by (simp add: ide_read_block_def ide_good_def Let_def lba_read_command)
  then show "\<exists>b. ide_read_block d i = Inr b \<and> length b = unat sector_size \<and>
      (\<forall>k < unat sector_size. unat i * unat sector_size + k < unat ide_size_in_bytes \<longrightarrow>
        b ! k = ide_cont d (unat i * unat sector_size + k))"
    using g by (auto simp: ide_good_def ide_cont_def sector_size_def)
qed

lemma ide_size: "unat ide_size_in_bytes = 4294967295"
  by (simp add: ide_size_in_bytes_def unsigned_minus_1_eq_mask mask_eq_exp_minus_1)

lemma ide_read_ok:
  assumes "ide_good d" "unat offset + k \<le> 4294967295"
  shows "ide_read d offset k = Inr (map (ide_cont d) [unat offset..<unat offset + k])"
proof -
  have o: "offset \<le> ide_size_in_bytes" using assms(2) by (simp add: word_le_nat_alt ide_size)
  have "unat (of_nat k :: u32) = k" using assms(2) by (simp add: unat_of_nat take_bit_nat_def)
  then show ?thesis unfolding ide_read_def bio_read_thing_def
    using ide.read_all_ok [OF assms(1) o, of "of_nat k"] assms(2) by (simp add: ide_size Let_def)
qed

lemma ide_read_all_ok:
  assumes "ide_good d" "unat offset + unat n \<le> 4294967295"
  shows "ide_read_all d offset n = Inr (uint n, map (ide_cont d) [unat offset..<unat offset + unat n])"
proof -
  have o: "offset \<le> ide_size_in_bytes" using assms(2) by (simp add: word_le_nat_alt ide_size)
  then show ?thesis unfolding ide_read_all_def
    using ide.read_all_ok [OF assms(1) o, of n] assms(2) by (simp add: ide_size Let_def)
qed

end
