(* ===== verification/Ext2.thy ===== *)
theory Ext2
  imports Block_IO
begin

unbundle bit_operations_syntax

text \<open>
  The read-only Ext2 file system: \<^verbatim>\<open>src/kernel/ext2.h\<close> and \<^verbatim>\<open>ext2.cc\<close>. On-disk structures are
  decoded from the bytes the disk delivers; a node is the disk it is on, its number and its
  data. Kernel-heap allocations of buffers are left out.
\<close>

section \<open>On-disk structures\<close>

definition f16 :: "bytes \<Rightarrow> nat \<Rightarrow> u16" where
  "f16 b k = le16 (drop k b)"

definition f32 :: "bytes \<Rightarrow> nat \<Rightarrow> u32" where
  "f32 b k = le32 (drop k b)"

record super_block =
  inodes_count :: u32
  blocks_count :: u32
  reserved_blocks_count :: u32
  free_blocks_count :: u32
  free_inodes_count :: u32
  first_data_block :: u32
  log_block_size :: u32
  log_frag_size :: u32
  blocks_per_group :: u32
  frags_per_group :: u32
  inodes_per_group :: u32
  sb_mtime :: u32
  sb_wtime :: u32
  mnt_count :: u16
  max_mnt_count :: u16
  sb_magic :: u16
  sb_state :: u16
  sb_errors :: u16
  minor_rev_level :: u16
  lastcheck :: u32
  checkinterval :: u32
  creator_os :: u32
  rev_level :: u32
  def_resuid :: u16
  def_resgid :: u16
  first_inode :: u32
  inode_size :: u16
  block_group_nr :: u16
  feature_compat :: u32
  feature_incompat :: u32
  feature_ro_compat :: u32
  uuid :: bytes
  volume_name :: bytes
  algo_bitmap :: u32

definition super_block_of :: "bytes \<Rightarrow> super_block" where
  "super_block_of b = \<lparr>
     inodes_count = f32 b 0, blocks_count = f32 b 4, reserved_blocks_count = f32 b 8,
     free_blocks_count = f32 b 12, free_inodes_count = f32 b 16, first_data_block = f32 b 20,
     log_block_size = f32 b 24, log_frag_size = f32 b 28, blocks_per_group = f32 b 32,
     frags_per_group = f32 b 36, inodes_per_group = f32 b 40, sb_mtime = f32 b 44, sb_wtime = f32 b 48,
     mnt_count = f16 b 52, max_mnt_count = f16 b 54, sb_magic = f16 b 56, sb_state = f16 b 58,
     sb_errors = f16 b 60, minor_rev_level = f16 b 62, lastcheck = f32 b 64, checkinterval = f32 b 68,
     creator_os = f32 b 72, rev_level = f32 b 76, def_resuid = f16 b 80, def_resgid = f16 b 82,
     first_inode = f32 b 84, inode_size = f16 b 88, block_group_nr = f16 b 90, feature_compat = f32 b 92,
     feature_incompat = f32 b 96, feature_ro_compat = f32 b 100, uuid = part 104 16 b,
     volume_name = part 120 16 b, algo_bitmap = f32 b 136\<rparr>"

definition sizeof_SuperBlock :: nat where "sizeof_SuperBlock = 140"

record block_group =
  block_bitmap :: u32
  inode_bitmap :: u32
  inode_table :: u32
  bg_free_blocks_count :: u16
  bg_free_inodes_count :: u16
  used_dirs_count :: u16

definition block_group_of :: "bytes \<Rightarrow> block_group" where
  "block_group_of b = \<lparr>block_bitmap = f32 b 0, inode_bitmap = f32 b 4, inode_table = f32 b 8,
     bg_free_blocks_count = f16 b 12, bg_free_inodes_count = f16 b 14, used_dirs_count = f16 b 16\<rparr>"

definition sizeof_BlockGroup :: nat where "sizeof_BlockGroup = 32"

text \<open>The twelve fields \<^verbatim>\<open>direct0\<close> to \<^verbatim>\<open>direct11\<close>, which the code indexes as an array, are a list.\<close>

record node_data =
  mode :: u16
  uid :: u16
  size_low :: u32
  nd_atime :: u32
  nd_ctime :: u32
  nd_mtime :: u32
  nd_dtime :: u32
  gid :: u16
  nd_n_links :: u16
  n_sectors :: u32
  nd_flags :: u32
  os1 :: u32
  direct :: "u32 list"
  indirect_1 :: u32
  indirect_2 :: u32
  indirect_3 :: u32
  gen :: u32
  reserved1 :: u32
  reserved2 :: u32
  fragment :: u32
  os2 :: bytes

definition node_data_of :: "bytes \<Rightarrow> node_data" where
  "node_data_of b = \<lparr>
     mode = f16 b 0, uid = f16 b 2, size_low = f32 b 4, nd_atime = f32 b 8, nd_ctime = f32 b 12,
     nd_mtime = f32 b 16, nd_dtime = f32 b 20, gid = f16 b 24, nd_n_links = f16 b 26, n_sectors = f32 b 28,
     nd_flags = f32 b 32, os1 = f32 b 36, direct = map (\<lambda>k. f32 b (40 + 4 * k)) [0..<12],
     indirect_1 = f32 b 88, indirect_2 = f32 b 92, indirect_3 = f32 b 96, gen = f32 b 100,
     reserved1 = f32 b 104, reserved2 = f32 b 108, fragment = f32 b 112, os2 = part 116 12 b\<rparr>"

definition sizeof_NodeData :: nat where "sizeof_NodeData = 128"

definition get_type :: "node_data \<Rightarrow> u16" where
  "get_type d = drop_bit 12 (mode d)"

definition is_dir :: "node_data \<Rightarrow> bool" where
  "is_dir d \<longleftrightarrow> get_type d = 4"

definition is_file :: "node_data \<Rightarrow> bool" where
  "is_file d \<longleftrightarrow> get_type d = 8"

definition is_symlink :: "node_data \<Rightarrow> bool" where
  "is_symlink d \<longleftrightarrow> get_type d = 0xa"

section \<open>Nodes\<close>

record node =
  nd_ide :: ide
  number :: u32
  nd_block_size :: u32
  nd_data :: node_data

definition node_size_in_bytes :: "node \<Rightarrow> u32" where
  "node_size_in_bytes n = size_low (nd_data n)"

definition n_links :: "node \<Rightarrow> u32" where
  "n_links n = ucast (nd_n_links (nd_data n))"

text \<open>\<^verbatim>\<open>ide->read(offset, thing)\<close> for a 32-bit thing.\<close>

definition ide_read32 :: "ide \<Rightarrow> u32 \<Rightarrow> u32 result" where
  "ide_read32 d offset = bindR (ide_read d offset 4) (\<lambda>b. Inr (le32 b))"

text \<open>
  The block number lookup of \<^verbatim>\<open>Node::read_block\<close>, with its fourth case, which has the third
  case's condition and is never reached.
\<close>

definition block_index :: "node \<Rightarrow> u32 \<Rightarrow> u32 result" where
  "block_index n index =
     (let d = nd_data n; bs = nd_block_size n; ide = nd_ide n; refs_per_block = bs div 4
      in if index < 12 then Inr (direct d ! unat index)
         else if index < 12 + refs_per_block then
           ide_read32 ide (indirect_1 d * bs + (index - 12) * 4)
         else if index < 12 + refs_per_block + refs_per_block * refs_per_block then
           (let index = index - 12 - refs_per_block
            in bindR (ide_read32 ide (indirect_2 d * bs + (index div refs_per_block) * 4)) (\<lambda>singly_block.
               ide_read32 ide (singly_block * bs + (index mod refs_per_block) * 4)))
         else if index < 12 + refs_per_block + refs_per_block * refs_per_block then
           (let index = index - 12 - refs_per_block - refs_per_block * refs_per_block
            in bindR (ide_read32 ide (indirect_3 d * bs + (index div (refs_per_block * refs_per_block)) * 4)) (\<lambda>doubly_block.
               bindR (ide_read32 ide (doubly_block * bs + (index div refs_per_block mod refs_per_block) * 4)) (\<lambda>singly_block.
               ide_read32 ide (singly_block * bs + index mod refs_per_block))))
         else Inl (Panic ''index''))"

definition node_read_block :: "node \<Rightarrow> u32 \<Rightarrow> bytes result" where
  "node_read_block n index =
     (if nd_block_size n div 512 = 0 then Inl DivideByZero
      else
        bindR (assertR (index < n_sectors (nd_data n) div (nd_block_size n div 512)) ''index < data.n_sectors / (block_size / 512)'') (\<lambda>_.
        bindR (block_index n index) (\<lambda>bi.
        bindR (ide_read_all (nd_ide n) (bi * nd_block_size n) (nd_block_size n)) (\<lambda>(cnt, b).
        bindR (assertR (cnt = uint (nd_block_size n)) ''cnt == block_size'') (\<lambda>_. Inr b)))))"

definition node_read_all :: "node \<Rightarrow> u32 \<Rightarrow> u32 \<Rightarrow> (int \<times> bytes) result" where
  "node_read_all n = bio_read_all (nd_block_size n) (node_size_in_bytes n) (node_read_block n)"

definition node_read :: "node \<Rightarrow> u32 \<Rightarrow> nat \<Rightarrow> bytes result" where
  "node_read n = bio_read_thing (nd_block_size n) (node_size_in_bytes n) (node_read_block n)"

text \<open>
  The name a symbolic link refers to, as \<^verbatim>\<open>get_symbol\<close> leaves it in the buffer: short names are
  kept in the node itself, in the place of the block numbers.
\<close>

definition get_symbol :: "node \<Rightarrow> bytes result" where
  "get_symbol n =
     bindR (assertR (is_symlink (nd_data n)) ''is_symlink()'') (\<lambda>_.
     let sz = node_size_in_bytes n; d = nd_data n in
     if sz \<le> 60 then
       Inr (take (unat sz) (concat (map to_le32 (direct d @ [indirect_1 d, indirect_2 d, indirect_3 d]))) @ [0])
     else
       bindR (node_read_all n 0 sz) (\<lambda>(cnt, b).
       bindR (assertR (cnt = uint sz) ''cnt == sz'') (\<lambda>_. Inr (b @ [0]))))"

section \<open>Directories\<close>

text \<open>
  The loop over the entries of a directory, with fuel: an entry that claims a total size of zero
  makes it go round for ever. The names are C strings, cut at the first NUL.
\<close>

fun entries_loop :: "nat \<Rightarrow> node \<Rightarrow> u32 \<Rightarrow> (u32 \<times> bytes) list result" where
  "entries_loop 0 n offset = Inl Diverges"
| "entries_loop (Suc fuel) n offset =
     (if offset < size_low (nd_data n) then
        bindR (node_read n offset 4) (\<lambda>ib.
        bindR (node_read n (offset + 4) 2) (\<lambda>tb.
        bindR (node_read n (offset + 6) 1) (\<lambda>lb.
        let inode = le32 ib; total_size = le16 tb; name_length = lb ! 0 in
        bindR (node_read_all n (offset + 8) (ucast name_length)) (\<lambda>(cnt, nm).
        bindR (assertR (cnt = uint name_length) ''cnt == name_length'') (\<lambda>_.
        bindR (entries_loop fuel n (offset + ucast total_size)) (\<lambda>rest.
        Inr ((inode, takeWhile (\<lambda>c. c \<noteq> 0) nm) # rest)))))))
      else Inr [])"

definition entries :: "node \<Rightarrow> (u32 \<times> bytes) list result" where
  "entries n =
     bindR (assertR (is_dir (nd_data n)) ''is_dir()'') (\<lambda>_.
     entries_loop (Suc (unat (size_low (nd_data n)))) n 0)"

definition node_find :: "node \<Rightarrow> bytes \<Rightarrow> u32 result" where
  "node_find n name =
     bindR (entries n) (\<lambda>es. Inr (foldl (\<lambda>out (number, nm). if streq name nm then number else out) 0 es))"

definition entry_count :: "node \<Rightarrow> u32 result" where
  "entry_count n =
     bindR (assertR (is_dir (nd_data n)) ''is_dir()'') (\<lambda>_.
     bindR (entries n) (\<lambda>es. Inr (foldl (\<lambda>count _. count + 1) 0 es)))"

section \<open>The file system\<close>

record ext2 =
  e_ide :: ide
  root :: "node option"
  blockSize :: u32
  numberOfNodes :: u32
  numberOfBlocks :: u32
  iNodeSize :: u32
  nGroups :: u32
  iNodeTables :: "u32 list"
  iNodesPerGroup :: u32

definition get_node :: "ext2 \<Rightarrow> u32 \<Rightarrow> node result" where
  "get_node e num =
     bindR (assertR (num > 0) ''number > 0'') (\<lambda>_.
     bindR (assertR (num \<le> numberOfNodes e) ''number <= numberOfNodes'') (\<lambda>_.
     let index = num - 1 in
     if iNodesPerGroup e = 0 then Inl DivideByZero
     else
       let groupIndex = index div iNodesPerGroup e in
       bindR (assertR (groupIndex < nGroups e) ''groupIndex < nGroups'') (\<lambda>_.
       let indexInGroup = index mod iNodesPerGroup e; iTableBase = iNodeTables e ! unat groupIndex in
       bindR (assertR (iTableBase \<le> numberOfBlocks e) ''iTableBase <= numberOfBlocks'') (\<lambda>_.
       let nodeOffset = iTableBase * blockSize e + indexInGroup * iNodeSize e in
       bindR (ide_read (e_ide e) nodeOffset sizeof_NodeData) (\<lambda>b.
       Inr \<lparr>nd_ide = e_ide e, number = num, nd_block_size = blockSize e, nd_data = node_data_of b\<rparr>)))))"

text \<open>Mounting: the constructor \<^verbatim>\<open>Ext2::Ext2\<close>. The shift count is taken modulo 32, as the processor does.\<close>

definition mount :: "ide \<Rightarrow> ext2 result" where
  "mount d =
     bindR (ide_read d 1024 sizeof_SuperBlock) (\<lambda>b.
     let sb = super_block_of b; bs = push_bit (unat ((log_block_size sb + 10) AND 31)) 1 in
     if blocks_per_group sb = 0 then Inl DivideByZero
     else
       let groups = (blocks_count sb + blocks_per_group sb - 1) div blocks_per_group sb in
       bindR (assertR (groups * blocks_per_group sb \<ge> blocks_count sb) ''nGroups * sb.blocks_per_group >= sb.blocks_count'') (\<lambda>_.
       let superBlockNumber = 1024 div bs; groupTableNumber = superBlockNumber + 1;
           groupTableSize = of_nat sizeof_BlockGroup * groups in
       bindR (ide_read_all d (groupTableNumber * bs) groupTableSize) (\<lambda>(cnt, groupTable).
       bindR (assertR (cnt = uint groupTableSize) ''cnt == groupTableSize'') (\<lambda>_.
       let e = \<lparr>e_ide = d, root = None, blockSize = bs, numberOfNodes = inodes_count sb,
                numberOfBlocks = blocks_count sb, iNodeSize = ucast (inode_size sb), nGroups = groups,
                iNodeTables = map (\<lambda>i. inode_table (block_group_of (drop (sizeof_BlockGroup * i) groupTable))) [0..<unat groups],
                iNodesPerGroup = inodes_per_group sb\<rparr> in
       bindR (get_node e 2) (\<lambda>r. Inr (e\<lparr>root := Some r\<rparr>))))))"

lemma component_shorter:
  assumes "dropWhile P xs \<noteq> []"
  shows "length (dropWhile (\<lambda>c. \<not> P c) (dropWhile P xs)) < length xs"
proof -
  obtain c cs where c: "dropWhile P xs = c # cs" using assms by (cases "dropWhile P xs") auto
  then have "\<not> P c" using hd_dropWhile [OF assms] by simp
  then have "length (dropWhile (\<lambda>c. \<not> P c) (c # cs)) \<le> length cs" by (simp add: length_dropWhile_le)
  moreover have "Suc (length cs) \<le> length xs" using length_dropWhile_le [of P xs] c by simp
  ultimately show ?thesis unfolding c by simp
qed

text \<open>\<^verbatim>\<open>Ext2::find\<close>: the path is the bytes before its NUL; the buffer for a component has 257 bytes.\<close>

definition slash :: u8 where "slash = 0x2F"

function ext2_find :: "ext2 \<Rightarrow> node option \<Rightarrow> bytes \<Rightarrow> node option result" where
  "ext2_find e current path =
     (let p = dropWhile (\<lambda>c. c = slash) path
      in case current of
           None \<Rightarrow> Inr None
         | Some n \<Rightarrow>
             if p = [] then Inr (Some n)
             else
               bindR (assertR (length (takeWhile (\<lambda>c. c \<noteq> slash) p) \<le> 256) ''i < 256'') (\<lambda>_.
               bindR (node_find n (takeWhile (\<lambda>c. c \<noteq> slash) p)) (\<lambda>num.
               if num = 0 then Inr None
               else bindR (get_node e num) (\<lambda>m. ext2_find e (Some m) (dropWhile (\<lambda>c. c \<noteq> slash) p)))))"
  by pat_completeness auto
termination
  by (relation "measure (\<lambda>(e, c, path). length path)")
    (auto intro!: component_shorter [of "\<lambda>c. c = slash", simplified])

declare ext2_find.simps [simp del]

end
