(* ===== verification/Ext2_Props.thy ===== *)
theory Ext2_Props
  imports Ext2
begin

unbundle bit_operations_syntax

text \<open>
  The Ext2 file system reads what is on the disk: the interpretation of the block-device
  interface for nodes, the directory format as a round trip, and path lookup as a walk over the
  components of the path.
\<close>

section \<open>The block pointers of a node\<close>

definition ptr32 :: "ide \<Rightarrow> nat \<Rightarrow> u32" where
  "ptr32 d a = le32 (map (ide_cont d) [a..<a + 4])"

definition on_disk :: "nat \<Rightarrow> nat \<Rightarrow> bool" where
  "on_disk bs b \<longleftrightarrow> b * bs + bs \<le> 4294967295"

text \<open>The disk block that holds block \<open>i\<close> of a node, with the tables it is found through.\<close>

definition file_block :: "node \<Rightarrow> nat \<Rightarrow> u32" where
  "file_block n i =
     (let bs = unat (nd_block_size n); r = bs div 4; d = nd_ide n; nd = nd_data n
      in if i < 12 then direct nd ! i
         else if i < 12 + r then ptr32 d (unat (indirect_1 nd) * bs + (i - 12) * 4)
         else ptr32 d (unat (ptr32 d (unat (indirect_2 nd) * bs + (i - 12 - r) div r * 4)) * bs + (i - 12 - r) mod r * 4))"

definition tables_on_disk :: "node \<Rightarrow> nat \<Rightarrow> bool" where
  "tables_on_disk n i \<longleftrightarrow>
     (let bs = unat (nd_block_size n); r = bs div 4; d = nd_ide n; nd = nd_data n
      in (12 \<le> i \<and> i < 12 + r \<longrightarrow> on_disk bs (unat (indirect_1 nd))) \<and>
         (12 + r \<le> i \<longrightarrow> i < 12 + r + r * r \<and> on_disk bs (unat (indirect_2 nd)) \<and>
            on_disk bs (unat (ptr32 d (unat (indirect_2 nd) * bs + (i - 12 - r) div r * 4)))))"

text \<open>A node whose blocks, up to its size, all are on the disk.\<close>

definition node_shape :: "node \<Rightarrow> bool" where
  "node_shape n \<longleftrightarrow> ide_good (nd_ide n) \<and> 512 \<le> unat (nd_block_size n) \<and> unat (nd_block_size n) \<le> 65536"

definition node_good :: "node \<Rightarrow> bool" where
  "node_good n \<longleftrightarrow> node_shape n \<and>
     (let bs = unat (nd_block_size n)
      in \<forall>i < (unat (node_size_in_bytes n) + bs - 1) div bs.
           i < unat (n_sectors (nd_data n)) div (bs div 512) \<and> tables_on_disk n i \<and>
           on_disk bs (unat (file_block n i)))"

definition node_cont :: "node \<Rightarrow> nat \<Rightarrow> u8" where
  "node_cont n k =
     (let bs = unat (nd_block_size n)
      in ide_cont (nd_ide n) (unat (file_block n (k div bs)) * bs + k mod bs))"

lemma ide_read32_ok:
  assumes "ide_good d" "unat a + 4 \<le> 4294967295"
  shows "ide_read32 d a = Inr (ptr32 d (unat a))"
  using ide_read_ok [of d a 4] assms by (simp add: ide_read32_def ptr32_def)

lemma on_disk_addr:
  assumes "on_disk (unat bs) (unat b)" "k < unat bs"
  shows "unat (b * bs + of_nat k :: u32) = unat b * unat bs + k"
proof -
  have l: "unat b * unat bs + k < 4294967296" using assms by (simp add: on_disk_def)
  have "unat (of_nat k :: u32) = k" using l by (simp add: unat_of_nat take_bit_nat_def)
  moreover have "unat (b * bs) = unat b * unat bs" using l by (simp add: unat_mult_lem [THEN iffD1])
  ultimately show ?thesis using l by (simp add: unat_add_lem [THEN iffD1])
qed

lemma read_pointer:
  assumes d: "ide_good d" and b: "on_disk (unat bs) (unat b)" and j: "unat j < unat bs div 4"
  shows "ide_read32 d (b * bs + j * 4) = Inr (ptr32 d (unat b * unat bs + unat j * 4))"
proof -
  have k: "unat j * 4 + 4 \<le> unat bs" using j by linarith
  have "b * bs + j * 4 = b * bs + of_nat (unat j * 4)" by simp
  then have "unat (b * bs + j * 4) = unat b * unat bs + unat j * 4" using on_disk_addr [OF b, of "unat j * 4"] k by simp
  moreover have "unat b * unat bs + unat j * 4 + 4 \<le> 4294967295" using b k by (simp add: on_disk_def)
  ultimately show ?thesis using ide_read32_ok [OF d] by simp
qed

lemma refs_words:
  assumes "unat bs \<le> 65536"
  shows "unat (12 + bs div 4 :: u32) = 12 + unat bs div 4"
    and "unat (12 + bs div 4 + bs div 4 * (bs div 4) :: u32) = 12 + unat bs div 4 + unat bs div 4 * (unat bs div 4)"
proof -
  let ?r = "unat bs div 4"
  have r: "?r \<le> 16384" using assms by simp
  have sq: "?r * ?r \<le> 16384 * 16384" by (rule mult_le_mono) (use r in simp_all)
  have u: "unat (bs div 4) = ?r" by (simp add: unat_div)
  show a: "unat (12 + bs div 4 :: u32) = 12 + ?r"
    using r u by (subst unat_add_lem [THEN iffD1]) simp_all
  have m: "unat (bs div 4 * (bs div 4)) = ?r * ?r"
    using sq u by (subst unat_mult_lem [THEN iffD1]) simp_all
  show "unat (12 + bs div 4 + bs div 4 * (bs div 4) :: u32) = 12 + ?r + ?r * ?r"
    using a m sq r by (subst unat_add_lem [THEN iffD1]) simp_all
qed

lemma block_index_ok:
  assumes n: "node_shape n" and t: "tables_on_disk n (unat i)"
  shows "block_index n i = Inr (file_block n (unat i))"
proof -
  let ?bs = "nd_block_size n" and ?d = "nd_ide n" and ?nd = "nd_data n"
  let ?r = "unat ?bs div 4"
  have g: "ide_good ?d" and b: "unat ?bs \<le> 65536" "512 \<le> unat ?bs" using n by (simp_all add: node_shape_def)
  note rw = refs_words [OF b(1)]
  have u: "unat (?bs div 4) = ?r" by (simp add: unat_div)
  consider "unat i < 12" | "12 \<le> unat i" "unat i < 12 + ?r" | "12 + ?r \<le> unat i" by linarith
  then show ?thesis
  proof cases
    case 1
    then show ?thesis by (simp add: block_index_def file_block_def Let_def word_less_nat_alt)
  next
    case 2
    have s: "unat (i - 12) = unat i - 12" using 2 by (simp add: unat_sub word_le_nat_alt)
    have "on_disk (unat ?bs) (unat (indirect_1 ?nd))" using t 2 by (simp add: tables_on_disk_def Let_def)
    from read_pointer [OF g this, of "i - 12"] show ?thesis using 2 s
      by (simp add: block_index_def file_block_def Let_def word_less_nat_alt rw)
  next
    case 3
    let ?j = "i - 12 - ?bs div 4"
    have t': "unat i < 12 + ?r + ?r * ?r" "on_disk (unat ?bs) (unat (indirect_2 ?nd))"
      "on_disk (unat ?bs) (unat (ptr32 ?d (unat (indirect_2 ?nd) * unat ?bs + (unat i - 12 - ?r) div ?r * 4)))"
      using t 3 by (simp_all add: tables_on_disk_def Let_def)
    have s: "unat ?j = unat i - 12 - ?r" using 3 u by (simp add: unat_sub word_le_nat_alt)
    have r: "0 < ?r" using b by simp
    have dv: "unat (?j div (?bs div 4)) = (unat i - 12 - ?r) div ?r" "unat (?j mod (?bs div 4)) = (unat i - 12 - ?r) mod ?r"
      by (simp_all add: unat_div unat_mod s u)
    have "unat i - 12 - ?r < ?r * ?r" using t'(1) 3 by linarith
    then have "unat (?j div (?bs div 4)) < ?r" unfolding dv by (simp add: less_mult_imp_div_less)
    from read_pointer [OF g t'(2) this] have 1: "ide_read32 ?d (indirect_2 ?nd * ?bs + ?j div (?bs div 4) * 4) =
      Inr (ptr32 ?d (unat (indirect_2 ?nd) * unat ?bs + (unat i - 12 - ?r) div ?r * 4))" by (simp add: dv)
    have "unat (?j mod (?bs div 4)) < ?r" unfolding dv using r by simp
    from read_pointer [OF g t'(3) this] have 2: "ide_read32 ?d (ptr32 ?d (unat (indirect_2 ?nd) * unat ?bs +
        (unat i - 12 - ?r) div ?r * 4) * ?bs + ?j mod (?bs div 4) * 4) = Inr (file_block n (unat i))"
      using 3 by (simp add: dv file_block_def Let_def)
    show ?thesis using 1 2 3 t'(1)
      by (simp add: block_index_def Let_def word_less_nat_alt rw)
  qed
qed

lemma node_block_ok:
  assumes n: "node_shape n" and s: "unat i < unat (n_sectors (nd_data n)) div (unat (nd_block_size n) div 512)"
    and t: "tables_on_disk n (unat i)" and o: "on_disk (unat (nd_block_size n)) (unat (file_block n (unat i)))"
  shows "node_read_block n i =
    Inr (map (ide_cont (nd_ide n)) [unat (file_block n (unat i)) * unat (nd_block_size n)..<
      unat (file_block n (unat i)) * unat (nd_block_size n) + unat (nd_block_size n)])"
proof -
  have b: "512 \<le> unat (nd_block_size n)" "ide_good (nd_ide n)" using n by (simp_all add: node_shape_def)
  have nz: "nd_block_size n div 512 \<noteq> 0" using b(1) by (auto simp: unat_div dest: arg_cong [of _ _ unat])
  have lt: "i < n_sectors (nd_data n) div (nd_block_size n div 512)" using s by (simp add: word_less_nat_alt unat_div)
  have a: "unat (file_block n (unat i) * nd_block_size n) = unat (file_block n (unat i)) * unat (nd_block_size n)"
    using on_disk_addr [OF o, of 0] b(1) by simp
  have "unat (file_block n (unat i) * nd_block_size n) + unat (nd_block_size n) \<le> 4294967295"
    using o a by (simp add: on_disk_def)
  from ide_read_all_ok [OF b(2) this] show ?thesis
    using nz lt by (simp add: node_read_block_def block_index_ok [OF n t] a)
qed

interpretation node: block_device nd_block_size node_size_in_bytes node_read_block node_cont node_good
proof
  fix n :: node and i :: u32
  assume g: "node_good n"
  then have b: "node_shape n" "512 \<le> unat (nd_block_size n)" by (simp_all add: node_good_def node_shape_def)
  show "0 < nd_block_size n" using b(2) by (simp add: word_less_nat_alt)
  let ?bs = "unat (nd_block_size n)"
  assume "unat i * ?bs < unat (node_size_in_bytes n)"
  then have "(unat i + 1) * ?bs \<le> unat (node_size_in_bytes n) + ?bs - 1" by simp
  then have "unat i + 1 \<le> (unat (node_size_in_bytes n) + ?bs - 1) div ?bs"
    using b(2) by (simp add: less_eq_div_iff_mult_less_eq)
  then have "unat i < (unat (node_size_in_bytes n) + ?bs - 1) div ?bs" by simp
  with g have "unat i < unat (n_sectors (nd_data n)) div (?bs div 512)" "tables_on_disk n (unat i)"
    "on_disk ?bs (unat (file_block n (unat i)))" unfolding node_good_def Let_def by auto
  from node_block_ok [OF b(1) this]
  show "\<exists>b. node_read_block n i = Inr b \<and> length b = ?bs \<and>
      (\<forall>k < ?bs. unat i * ?bs + k < unat (node_size_in_bytes n) \<longrightarrow> b ! k = node_cont n (unat i * ?bs + k))"
    using b(2) by (auto simp: node_cont_def Let_def)
qed

lemma node_read_all_ok:
  assumes "node_good n" "unat offset \<le> unat (node_size_in_bytes n)"
  shows "node_read_all n offset k =
    (let m = min (unat k) (unat (node_size_in_bytes n) - unat offset)
     in Inr (int m, map (node_cont n) [unat offset..<unat offset + m]))"
  using node.read_all_ok [OF assms(1), of offset k] assms(2) by (simp add: node_read_all_def word_le_nat_alt)

lemma node_read_ok:
  assumes "node_good n" "unat offset + k \<le> unat (node_size_in_bytes n)"
  shows "node_read n offset k = Inr (map (node_cont n) [unat offset..<unat offset + k])"
proof -
  have o: "offset \<le> node_size_in_bytes n" using assms(2) by (simp add: word_le_nat_alt)
  have "unat (of_nat k :: u32) = k"
    using assms(2) unat_bound [of "node_size_in_bytes n"] by (simp add: unat_of_nat take_bit_nat_def)
  then show ?thesis unfolding node_read_def bio_read_thing_def
    using node.read_all_ok [OF assms(1) o, of "of_nat k"] assms(2) by (simp add: Let_def)
qed

section \<open>Directories as byte strings\<close>

text \<open>
  One directory entry as it is stored: inode number, total size, length of the name, a type
  byte, the name and padding. A directory is the concatenation of its entries.
\<close>

record dirent =
  de_inode :: u32
  de_name :: bytes
  de_type :: u8
  de_pad :: bytes

definition de_total :: "dirent \<Rightarrow> nat" where
  "de_total e = 8 + length (de_name e) + length (de_pad e)"

definition encode_dirent :: "dirent \<Rightarrow> bytes" where
  "encode_dirent e = to_le32 (de_inode e) @ [of_nat (de_total e), of_nat (de_total e div 256)] @
     [of_nat (length (de_name e)), de_type e] @ de_name e @ de_pad e"

definition encode_dir :: "dirent list \<Rightarrow> bytes" where
  "encode_dir es = concat (map encode_dirent es)"

definition dirent_ok :: "dirent \<Rightarrow> bool" where
  "dirent_ok e \<longleftrightarrow> length (de_name e) < 256 \<and> 0 \<notin> set (de_name e) \<and> de_total e < 65536"

definition holds_dir :: "node \<Rightarrow> dirent list \<Rightarrow> bool" where
  "holds_dir n es \<longleftrightarrow> node_good n \<and> is_dir (nd_data n) \<and> list_all dirent_ok es \<and>
     map (node_cont n) [0..<unat (size_low (nd_data n))] = encode_dir es"

lemma unat_u8_of_nat: "unat (of_nat k :: u8) = k mod 256"
  by (simp add: unat_of_nat take_bit_nat_def)

lemma le16_split:
  assumes "k < 65536"
  shows "unat (le16 [of_nat k, of_nat (k div 256)]) = k"
proof -
  have "k div 256 = drop_bit 8 k" by (simp add: drop_bit_eq_div)
  then have "le16 [of_nat k, of_nat (k div 256)] = of_nat k"
    unfolding le16_def by (intro bit_word_eqI) (auto simp: bit_simps)
  then show ?thesis using assms by (simp add: unat_of_nat take_bit_nat_def)
qed

lemma length_encode [simp]: "length (encode_dirent e) = de_total e"
  by (simp add: encode_dirent_def de_total_def to_le32_def)

lemma part_of_map:
  assumes "map f [0..<N] = xs @ ys @ zs" "length xs = a" "length ys = k"
  shows "map f [a..<a + k] = ys"
proof -
  have N: "a + k \<le> N" using arg_cong [OF assms(1), of length] assms(2,3) by simp
  have "map f [a..<a + k] = take k (drop a (map f [0..<N]))"
    using N by (simp add: drop_map take_map)
  then show ?thesis unfolding assms(1) using assms(2,3) by simp
qed

lemma read_entry:
  assumes g: "node_good n" and c: "map (node_cont n) [0..<unat (size_low (nd_data n))] = pre @ encode_dirent e @ post"
    and o: "unat offset = length pre" and e: "dirent_ok e"
  shows "node_read n offset 4 = Inr (to_le32 (de_inode e))"
    and "node_read n (offset + 4) 2 = Inr [of_nat (de_total e), of_nat (de_total e div 256)]"
    and "node_read n (offset + 6) 1 = Inr [of_nat (length (de_name e))]"
    and "node_read_all n (offset + 8) (ucast (of_nat (length (de_name e)) :: u8)) = Inr (int (length (de_name e)), de_name e)"
    and "unat offset + de_total e \<le> unat (size_low (nd_data n))"
proof -
  let ?S = "unat (size_low (nd_data n))"
  show S: "unat offset + de_total e \<le> ?S" using arg_cong [OF c, of length] o by simp
  have S8: "unat offset + 8 + length (de_name e) \<le> ?S" using S by (simp add: de_total_def)
  have w: "unat (offset + 4) = length pre + 4" "unat (offset + 6) = length pre + 6" "unat (offset + 8) = length pre + 8"
    using S8 o unat_bound [of "size_low (nd_data n)"] by (simp_all add: unat_add_lem [THEN iffD1])
  have S': "node_size_in_bytes n = size_low (nd_data n)" by (simp add: node_size_in_bytes_def)
  let ?tot = "[of_nat (de_total e), of_nat (de_total e div 256)] :: bytes"
  let ?len = "[of_nat (length (de_name e))] :: bytes"
  have c1: "map (node_cont n) [0..<?S] = pre @ to_le32 (de_inode e) @ (?tot @ ?len @ [de_type e] @ de_name e @ de_pad e @ post)"
    using c by (simp add: encode_dirent_def)
  have c2: "map (node_cont n) [0..<?S] = (pre @ to_le32 (de_inode e)) @ ?tot @ (?len @ [de_type e] @ de_name e @ de_pad e @ post)"
    using c by (simp add: encode_dirent_def)
  have c3: "map (node_cont n) [0..<?S] = (pre @ to_le32 (de_inode e) @ ?tot) @ ?len @ ([de_type e] @ de_name e @ de_pad e @ post)"
    using c by (simp add: encode_dirent_def)
  have c4: "map (node_cont n) [0..<?S] = (pre @ to_le32 (de_inode e) @ ?tot @ ?len @ [de_type e]) @ de_name e @ (de_pad e @ post)"
    using c by (simp add: encode_dirent_def)
  have l4: "length (to_le32 (de_inode e)) = 4" by (simp add: to_le32_def)
  have p1: "map (node_cont n) [length pre..<length pre + 4] = to_le32 (de_inode e)"
    by (rule part_of_map [OF c1]) (simp_all add: l4)
  have p2: "map (node_cont n) [length pre + 4..<length pre + 4 + 2] = ?tot"
    by (rule part_of_map [OF c2]) (simp_all add: l4)
  have p3: "map (node_cont n) [length pre + 6..<length pre + 6 + 1] = ?len"
    by (rule part_of_map [OF c3]) (simp_all add: l4)
  have p4: "map (node_cont n) [length pre + 8..<length pre + 8 + length (de_name e)] = de_name e"
    by (rule part_of_map [OF c4]) (simp_all add: l4)
  show "node_read n offset 4 = Inr (to_le32 (de_inode e))"
    using node_read_ok [OF g, of offset 4] S8 p1 by (simp add: o S')
  show "node_read n (offset + 4) 2 = Inr ?tot"
    using node_read_ok [OF g, of "offset + 4" 2] S8 p2 by (simp add: o w S')
  show "node_read n (offset + 6) 1 = Inr ?len"
    using node_read_ok [OF g, of "offset + 6" 1] S8 p3 by (simp add: o w S')
  have l: "unat (ucast (of_nat (length (de_name e)) :: u8) :: u32) = length (de_name e)"
    using e by (simp add: unsigned_ucast_eq unsigned_take_bit_eq take_bit_nat_def unat_of_nat dirent_ok_def)
  have m: "min (length (de_name e)) (?S - (length pre + 8)) = length (de_name e)" using S8 o by simp
  have "unat (offset + 8) \<le> unat (node_size_in_bytes n)" using S8 by (simp add: o w S')
  from node_read_all_ok [OF g this, of "ucast (of_nat (length (de_name e)) :: u8)"]
  show "node_read_all n (offset + 8) (ucast (of_nat (length (de_name e)) :: u8)) = Inr (int (length (de_name e)), de_name e)"
    unfolding Let_def S' l w m p4 .
qed

lemma entries_loop_ok:
  assumes g: "node_good n" and c: "map (node_cont n) [0..<unat (size_low (nd_data n))] = pre @ encode_dir es"
    and o: "unat offset = length pre" and e: "list_all dirent_ok es" and f: "length es < fuel"
  shows "entries_loop fuel n offset = Inr (map (\<lambda>e. (de_inode e, de_name e)) es)"
  using c o e f
proof (induction es arbitrary: pre offset fuel)
  case Nil
  have "unat (size_low (nd_data n)) = length pre" using arg_cong [OF Nil(1), of length] by (simp add: encode_dir_def)
  then have "\<not> offset < size_low (nd_data n)" using Nil(2) by (simp add: word_less_nat_alt)
  then show ?case using Nil(4) by (cases fuel) simp_all
next
  case (Cons e es)
  obtain k where k: "fuel = Suc k" using Cons.prems(4) by (cases fuel) simp_all
  have ok: "dirent_ok e" "list_all dirent_ok es" using Cons.prems(3) by simp_all
  then have tot: "de_total e < 65536" by (simp add: dirent_ok_def)
  have c: "map (node_cont n) [0..<unat (size_low (nd_data n))] = pre @ encode_dirent e @ encode_dir es"
    using Cons.prems(1) by (simp add: encode_dir_def)
  note r = read_entry [OF g c Cons.prems(2) ok(1)]
  have t: "unat (ucast (le16 [of_nat (de_total e), of_nat (de_total e div 256)]) :: u32) = de_total e"
    using le16_split [OF tot] tot by (simp add: unsigned_ucast_eq unsigned_take_bit_eq take_bit_nat_def)
  have o: "unat (offset + ucast (le16 [of_nat (de_total e), of_nat (de_total e div 256)])) = length (pre @ encode_dirent e)"
    using r(5) Cons.prems(2) t unat_bound [of "size_low (nd_data n)"] by (simp add: unat_add_lem [THEN iffD1])
  have lt: "offset < size_low (nd_data n)" using r(5) by (simp add: word_less_nat_alt de_total_def)
  have u: "uint (of_nat (length (de_name e)) :: u8) = int (length (de_name e))"
    using ok(1) by (simp add: uint_nat unat_u8_of_nat dirent_ok_def)
  have tw: "takeWhile (\<lambda>c. c \<noteq> 0) (de_name e) = de_name e" using ok(1) by (auto simp: dirent_ok_def takeWhile_eq_all_conv)
  have IH: "entries_loop k n (offset + ucast (le16 [of_nat (de_total e), of_nat (de_total e div 256)])) =
      Inr (map (\<lambda>e. (de_inode e, de_name e)) es)"
    by (rule Cons.IH [OF _ o ok(2)]) (use c Cons.prems(4) k in simp_all)
  show ?case unfolding k using lt r IH u tw by (simp add: Let_def)
qed

section \<open>Path lookup\<close>

text \<open>The components of a path are the non-empty pieces between slashes.\<close>

fun split_on :: "'a \<Rightarrow> 'a list \<Rightarrow> 'a list list" where
  "split_on s [] = [[]]"
| "split_on s (c # cs) = (if c = s then [] # split_on s cs else (c # hd (split_on s cs)) # tl (split_on s cs))"

definition components :: "bytes \<Rightarrow> bytes list" where
  "components path = filter (\<lambda>w. w \<noteq> []) (split_on slash path)"

text \<open>Path lookup by components: one directory lookup for each.\<close>

fun walk :: "ext2 \<Rightarrow> node option \<Rightarrow> bytes list \<Rightarrow> node option result" where
  "walk e current [] = Inr current"
| "walk e None (nm # nms) = Inr None"
| "walk e (Some n) (nm # nms) =
     bindR (assertR (length nm \<le> 256) ''i < 256'') (\<lambda>_.
     bindR (node_find n nm) (\<lambda>num.
     if num = 0 then Inr None else bindR (get_node e num) (\<lambda>m. walk e (Some m) nms)))"

lemma walk_None [simp]: "walk e None nms = Inr None"
  by (cases nms) simp_all

lemma split_on_nonempty [simp]: "split_on s xs \<noteq> []"
  by (induction xs) auto

lemma split_on_piece: "split_on s xs = takeWhile (\<lambda>c. c \<noteq> s) xs #
    (case dropWhile (\<lambda>c. c \<noteq> s) xs of [] \<Rightarrow> [] | _ # r \<Rightarrow> split_on s r)"
  by (induction xs) auto

lemma components_skip: "components (dropWhile (\<lambda>c. c = slash) path) = components path"
  by (induction path) (auto simp: components_def)

lemma components_empty: "dropWhile (\<lambda>c. c = slash) path = [] \<Longrightarrow> components path = []"
  by (subst components_skip [symmetric]) (simp only: components_def, simp)

lemma components_piece:
  assumes "p \<noteq> []" "hd p \<noteq> slash"
  shows "components p = takeWhile (\<lambda>c. c \<noteq> slash) p # components (dropWhile (\<lambda>c. c \<noteq> slash) p)"
proof -
  have "takeWhile (\<lambda>c. c \<noteq> slash) p \<noteq> []" using assms by (cases p) auto
  moreover have "filter (\<lambda>w. w \<noteq> []) (case dropWhile (\<lambda>c. c \<noteq> slash) p of [] \<Rightarrow> [] | _ # r \<Rightarrow> split_on slash r) =
      components (dropWhile (\<lambda>c. c \<noteq> slash) p)"
  proof (cases "dropWhile (\<lambda>c. c \<noteq> slash) p")
    case (Cons c r)
    then have "c = slash" using hd_dropWhile [of "\<lambda>c. c \<noteq> slash" p] by simp
    then show ?thesis by (simp add: Cons components_def)
  qed (simp only: components_def, simp)
  ultimately show ?thesis unfolding components_def by (subst split_on_piece) simp
qed

section \<open>Properties\<close>

lemma node_shape_of: "node_good n \<Longrightarrow> node_shape n"
  by (simp add: node_good_def)


definition demo_disk :: "bytes \<Rightarrow> ide" where
  "demo_disk b = \<lparr>drive = 1, status = 0x40, status_cmd = 0x48, platter = (\<lambda>k. if k = 3 then take 512 (b @ replicate 512 0) else replicate 512 (of_nat k))\<rparr>"

definition demo_node :: "bytes \<Rightarrow> u32 \<Rightarrow> node" where
  "demo_node b sz = \<lparr>nd_ide = demo_disk b, number = 2, nd_block_size = 512,
     nd_data = (node_data_of (replicate 128 0))\<lparr>mode := 0x4000, size_low := sz, n_sectors := 8,
       direct := [3, 7, 0] @ replicate 9 0\<rparr>\<rparr>"

lemma demo_disk_good: "ide_good (demo_disk b)"
proof -
  have "waitForDrive 0x40 = Inr ()" "waitForDrive 0x48 = Inr ()" "0x48 AND DRQ \<noteq> 0" by code_simp+
  then show ?thesis unfolding ide_good_def by (simp add: demo_disk_def)
qed

lemma demo_node_shape: "node_shape (demo_node b sz)"
  by (simp add: node_shape_def demo_node_def demo_disk_good)

lemma demo_node_good:
  assumes "unat sz \<le> 1536"
  shows "node_good (demo_node b sz)"
proof -
  have i: "i = 0 \<or> i = 1 \<or> i = 2" if "i < (unat sz + 511) div 512" for i
  proof -
    have "i < 3" using that assms by linarith
    then show ?thesis by fastforce
  qed
  have "i < 8 \<and> tables_on_disk (demo_node b sz) i \<and> on_disk 512 (unat (file_block (demo_node b sz) i))"
    if "i = 0 \<or> i = 1 \<or> i = 2" for i
    using that by (auto simp: demo_node_def tables_on_disk_def file_block_def on_disk_def Let_def)
  then show ?thesis
    using demo_node_shape [of b sz] i unfolding node_good_def Let_def by (simp add: demo_node_def node_size_in_bytes_def)
qed


lemma foldl_last:
  "foldl (\<lambda>out (k, nm). if name = nm then k else out) z xs =
    (case filter (\<lambda>(k, nm). nm = name) xs of [] \<Rightarrow> z | y # ys \<Rightarrow> fst (last (y # ys)))"
proof (induction xs arbitrary: z)
  case (Cons x xs)
  then show ?case by (cases x) (auto split: list.splits)
qed simp

lemma foldl_count: "foldl (\<lambda>c _. c + 1) (z :: u32) xs = z + of_nat (length xs)"
  by (induction xs arbitrary: z) (simp_all add: algebra_simps)

text \<open>
  C23. Directories are a round trip: the entries read back from the stored form of a list of
  entries are the inodes and names that were stored. \<^verbatim>\<open>find\<close> returns the inode of the last
  entry with the name, or \<open>0\<close> when there is none, and \<^verbatim>\<open>entry_count\<close> their number.
\<close>

theorem directory_roundtrip:
  assumes "holds_dir n es"
  shows "entries n = Inr (map (\<lambda>e. (de_inode e, de_name e)) es) \<and>
    node_find n name = Inr (case filter (\<lambda>e. de_name e = name) es of [] \<Rightarrow> 0 | y # ys \<Rightarrow> de_inode (last (y # ys))) \<and>
    entry_count n = Inr (of_nat (length es))"
proof -
  have g: "node_good n" "is_dir (nd_data n)" "list_all dirent_ok es"
    "map (node_cont n) [0..<unat (size_low (nd_data n))] = [] @ encode_dir es" using assms by (simp_all add: holds_dir_def)
  have "length es \<le> length (encode_dir es)"
    by (induction es) (simp_all add: encode_dir_def de_total_def)
  then have f: "length es < Suc (unat (size_low (nd_data n)))" using arg_cong [OF g(4), of length] by simp
  have e: "entries n = Inr (map (\<lambda>e. (de_inode e, de_name e)) es)"
    unfolding entries_def using entries_loop_ok [OF g(1,4) _ g(3) f] g(2) by simp
  have "filter (\<lambda>(k, nm). nm = name) (map (\<lambda>e. (de_inode e, de_name e)) es) =
      map (\<lambda>e. (de_inode e, de_name e)) (filter (\<lambda>e. de_name e = name) es)"
    by (simp add: filter_map comp_def)
  then have "node_find n name = Inr (case filter (\<lambda>e. de_name e = name) es of [] \<Rightarrow> 0 | y # ys \<Rightarrow> de_inode (last (y # ys)))"
    unfolding node_find_def e by (auto simp: foldl_last last_map split: list.splits)
  with e show ?thesis using g(2) by (simp add: entry_count_def foldl_count)
qed

definition demo_dir :: "dirent list" where
  "demo_dir = [\<lparr>de_inode = 2, de_name = [0x2E], de_type = 2, de_pad = [0, 0, 0]\<rparr>,
     \<lparr>de_inode = 11, de_name = [0x69, 0x6E], de_type = 1, de_pad = [0, 0]\<rparr>]"

lemma demo_node_cont:
  assumes "k < length b" "length b \<le> 512"
  shows "node_cont (demo_node b sz) k = b ! k"
proof -
  have "k < 512" using assms by simp
  then have "(1536 + k) div 512 = 3" "(1536 + k) mod 512 = k"
    using div_mult_self3 [of 512 3 k] mod_mult_self3 [of 3 512 k] by simp_all
  then show ?thesis using assms by (simp add: node_cont_def Let_def file_block_def demo_node_def ide_cont_def demo_disk_def nth_append)
qed

theorem directory_roundtrip_witness:
  "entries (demo_node (encode_dir demo_dir) 24) = Inr [(2, [0x2E]), (11, [0x69, 0x6E])] \<and>
    node_find (demo_node (encode_dir demo_dir) 24) [0x69, 0x6E] = Inr 11"
proof -
  let ?n = "demo_node (encode_dir demo_dir) 24"
  have l: "length (encode_dir demo_dir) = 24" by (simp add: encode_dir_def demo_dir_def de_total_def)
  then have "map (node_cont ?n) [0..<24] = encode_dir demo_dir"
    by (intro nth_equalityI) (simp_all add: demo_node_cont)
  then have "holds_dir ?n demo_dir"
    unfolding holds_dir_def using demo_node_good [of 24 "encode_dir demo_dir"]
    by (simp add: demo_node_def is_dir_def get_type_def dirent_ok_def demo_dir_def de_total_def)
  from directory_roundtrip [OF this, of "[0x69, 0x6E]"] show ?thesis by (simp add: demo_dir_def)
qed

text \<open>
  C24. Looking up a path is a walk over its components: leading, doubled and trailing slashes
  do not matter, each component is looked up in the directory reached so far, and the walk stops
  with a null node at the first component that is not there.
\<close>

theorem find_walks_path:
  "ext2_find e current path = walk e current (components path)"
proof (induction e current path rule: ext2_find.induct)
  case (1 e current path)
  let ?p = "dropWhile (\<lambda>c. c = slash) path"
  show ?case
  proof (cases current)
    case None
    then show ?thesis by (subst ext2_find.simps) simp
  next
    case (Some n)
    show ?thesis
    proof (cases "?p = []")
      case True
      then show ?thesis by (subst ext2_find.simps) (simp add: Some components_empty)
    next
      case False
      have c: "components path = takeWhile (\<lambda>c. c \<noteq> slash) ?p # components (dropWhile (\<lambda>c. c \<noteq> slash) ?p)"
        using components_piece [OF False hd_dropWhile [OF False]] by (simp add: components_skip)
      note IH = 1 [OF refl Some False]
      show ?thesis unfolding c
        by (subst ext2_find.simps) (use False in \<open>auto simp: Some Let_def bindR_def assertR_def IH split: sum.splits\<close>)
    qed
  qed
qed





end
