(* ===== verification/Files.thy ===== *)
theory Files
  imports Ext2_Props
begin

unbundle bit_operations_syntax

text \<open>
  Open files: \<^verbatim>\<open>src/kernel/file.h\<close> with its two implementations, \<^verbatim>\<open>openfilestruct.h\<close> for files of
  the Ext2 file system and \<^verbatim>\<open>u8250.h\<close> for the serial console. A file object is a value; the
  virtual functions are cases over its class.
\<close>

section \<open>The console\<close>

text \<open>
  The characters that will arrive on the serial line and those that were sent. \<^verbatim>\<open>get\<close> waits until
  there is a character; the device is always ready to send.
\<close>

record console =
  con_in :: bytes
  con_out :: bytes

definition u8250_put :: "u8 \<Rightarrow> console \<Rightarrow> console" where
  "u8250_put c con = con\<lparr>con_out := con_out con @ [c]\<rparr>"

definition u8250_get :: "console \<Rightarrow> (u8 \<times> console) result" where
  "u8250_get con = (case con_in con of [] \<Rightarrow> Inl Diverges | x # xs \<Rightarrow> Inr (x, con\<lparr>con_in := xs\<rparr>))"

section \<open>Files\<close>

datatype kfile =
    OpenFileStruct node u32 \<comment> \<open>the node and \<^verbatim>\<open>myOffset\<close>\<close>
  | U8250File

definition new_OpenFileStruct :: "node \<Rightarrow> kfile" where
  "new_OpenFileStruct n = OpenFileStruct n 0"

fun isU8250 :: "kfile \<Rightarrow> bool" where
  "isU8250 (OpenFileStruct n off) = False"
| "isU8250 U8250File = True"

fun isFile :: "kfile \<Rightarrow> bool" where
  "isFile (OpenFileStruct n off) = is_file (nd_data n)"
| "isFile U8250File = True"

fun isDirectory :: "kfile \<Rightarrow> bool" where
  "isDirectory (OpenFileStruct n off) = is_dir (nd_data n)"
| "isDirectory U8250File = False"

fun file_size :: "kfile \<Rightarrow> u32" where
  "file_size (OpenFileStruct n off) = node_size_in_bytes n"
| "file_size U8250File = 0x7FFFFFFF"

fun getOffset :: "kfile \<Rightarrow> u32" where
  "getOffset (OpenFileStruct n off) = off"
| "getOffset U8250File = 0"

text \<open>\<^verbatim>\<open>off_t\<close> is unsigned, so that the test for a negative offset never succeeds.\<close>

fun seek :: "kfile \<Rightarrow> u32 \<Rightarrow> u32 \<times> kfile" where
  "seek (OpenFileStruct n off) offset =
     (if offset < 0 then (-1, OpenFileStruct n off)
      else if offset > node_size_in_bytes n then (-1, OpenFileStruct n off)
      else (offset, OpenFileStruct n offset))"
| "seek U8250File offset = (offset, U8250File)"

text \<open>\<^verbatim>\<open>read\<close> returns its count, the bytes it stores from the start of the buffer, and the new states.\<close>

fun file_read :: "kfile \<Rightarrow> u32 \<Rightarrow> console \<Rightarrow> (int \<times> bytes \<times> kfile \<times> console) result" where
  "file_read (OpenFileStruct n off) k con =
     (if k = 0 then Inr (0, [], OpenFileStruct n off, con)
      else bindR (node_read_all n off k) (\<lambda>(cnt, b).
           let r = i32 cnt in Inr (r, b, OpenFileStruct n (off + word_of_int r), con)))"
| "file_read U8250File k con =
     (if k = 0 then Inr (0, [], U8250File, con)
      else bindR (u8250_get con) (\<lambda>(c, con). Inr (1, [c], U8250File, con)))"

text \<open>\<^verbatim>\<open>write\<close> is given the first byte of the buffer, the only one it looks at.\<close>

fun file_write :: "kfile \<Rightarrow> u8 \<Rightarrow> u32 \<Rightarrow> console \<Rightarrow> int \<times> console" where
  "file_write (OpenFileStruct n off) c k con = (-1, con)"
| "file_write U8250File c k con = (if k = 0 then (0, con) else (1, u8250_put c con))"

section \<open>Sequential reading\<close>

definition file_ok :: "kfile \<Rightarrow> bool" where
  "file_ok f \<longleftrightarrow> (case f of OpenFileStruct n off \<Rightarrow> node_good n \<and> off \<le> node_size_in_bytes n \<and> unat (node_size_in_bytes n) < 2 ^ 31
     | U8250File \<Rightarrow> True)"

lemma file_read_ok:
  assumes "file_ok (OpenFileStruct n off)"
  shows "file_read (OpenFileStruct n off) k con =
    (let m = min (unat k) (unat (node_size_in_bytes n) - unat off)
     in Inr (int m, map (node_cont n) [unat off..<unat off + m], OpenFileStruct n (off + of_nat m), con))"
proof -
  have g: "node_good n" "unat off \<le> unat (node_size_in_bytes n)" "unat (node_size_in_bytes n) < 2 ^ 31"
    using assms by (simp_all add: file_ok_def word_le_nat_alt)
  let ?m = "min (unat k) (unat (node_size_in_bytes n) - unat off)"
  have "i32 (int ?m) = int ?m" using g(3) by (intro i32_id) auto
  then show ?thesis using node_read_all_ok [OF g(1,2), of k] by (simp add: Let_def)
qed

lemma file_read_keeps:
  assumes "file_ok f" "file_read f k con = Inr (c, b, f', con')"
  shows "file_ok f'"
proof (cases f)
  case (OpenFileStruct n off)
  let ?m = "min (unat k) (unat (node_size_in_bytes n) - unat off)"
  have o: "unat off \<le> unat (node_size_in_bytes n)" "unat (node_size_in_bytes n) < 2 ^ 31"
    using assms(1) by (simp_all add: OpenFileStruct file_ok_def word_le_nat_alt)
  have "unat (of_nat ?m :: u32) = ?m" using o by (simp add: unat_of_nat take_bit_nat_def)
  then have "unat (off + of_nat ?m) = unat off + ?m"
    using o by (subst unat_add_lem [THEN iffD1]) simp_all
  then have "off + of_nat ?m \<le> node_size_in_bytes n" using o by (simp add: word_le_nat_alt)
  then show ?thesis
    using assms file_read_ok [of n off k con] by (auto simp: OpenFileStruct file_ok_def Let_def)
qed (use assms in \<open>auto simp: file_ok_def bindR_eq_Inr split: if_splits\<close>)

lemma seek_keeps: "file_ok f \<Longrightarrow> file_ok (snd (seek f offset))"
  by (cases f) (auto simp: file_ok_def)

text \<open>
  C29. The open file behind a descriptor moves through its contents: a read returns the bytes
  at the offset, as many as asked for while the file lasts, and advances the offset by their number,
  so that two reads in a row return what one read of both lengths returns; \<^verbatim>\<open>seek\<close> goes anywhere up
  to the end of the file and refuses to go further.
\<close>

theorem sequential_reads:
  assumes "file_ok (OpenFileStruct n off)" "unat a + unat b < 2 ^ 32"
  shows "bindR (file_read (OpenFileStruct n off) a con) (\<lambda>(c, x, f, con).
      bindR (file_read f b con) (\<lambda>(d, y, g, con). Inr (c + d, x @ y, g, con))) =
    file_read (OpenFileStruct n off) (a + b) con \<and>
    file_read (OpenFileStruct n off) a con =
      (let m = min (unat a) (unat (node_size_in_bytes n) - unat off)
       in Inr (int m, map (node_cont n) [unat off..<unat off + m], OpenFileStruct n (off + of_nat m), con)) \<and>
    seek (OpenFileStruct n off) offset =
      (if offset \<le> node_size_in_bytes n then (offset, OpenFileStruct n offset) else (-1, OpenFileStruct n off))"
proof -
  let ?S = "unat (node_size_in_bytes n)" and ?o = "unat off"
  define m where "m = min (unat a) (?S - ?o)"
  define k where "k = min (unat b) (?S - (?o + m))"
  have o: "?o \<le> ?S" "?S < 2 ^ 31" using assms(1) by (simp_all add: file_ok_def word_le_nat_alt)
  have ab: "unat (a + b) = unat a + unat b" using assms(2) by (subst unat_add_lem [THEN iffD1]) simp_all
  have mk: "min (unat (a + b)) (?S - ?o) = m + k" unfolding m_def k_def ab by linarith
  have "unat (of_nat m :: u32) = m" using o by (simp add: m_def unat_of_nat take_bit_nat_def)
  then have om: "unat (off + of_nat m) = ?o + m"
    using o by (subst unat_add_lem [THEN iffD1]) (simp_all add: m_def)
  have 1: "file_read (OpenFileStruct n off) a con =
      Inr (int m, map (node_cont n) [?o..<?o + m], OpenFileStruct n (off + of_nat m), con)"
    unfolding file_read_ok [OF assms(1)] m_def Let_def ..
  have 2: "file_read (OpenFileStruct n (off + of_nat m)) b con =
      Inr (int k, map (node_cont n) [?o + m..<?o + m + k], OpenFileStruct n (off + of_nat m + of_nat k), con)"
    using file_read_ok [of n "off + of_nat m" b con] file_read_keeps [OF assms(1) 1]
    unfolding om k_def Let_def by simp
  have 3: "[?o..<?o + m] @ [?o + m..<?o + m + k] = [?o..<?o + (m + k)]"
    using upt_add_eq_append [of ?o "?o + m" k] by (simp add: ac_simps)
  have "bindR (file_read (OpenFileStruct n off) a con) (\<lambda>(c, x, f, con).
      bindR (file_read f b con) (\<lambda>(d, y, g, con). Inr (c + d, x @ y, g, con))) =
    file_read (OpenFileStruct n off) (a + b) con"
    unfolding file_read_ok [OF assms(1), of "a + b"] mk Let_def 3 [symmetric]
    using 1 2 by (simp add: ac_simps del: file_read.simps)
  with 1 show ?thesis by (auto simp: m_def Let_def simp del: file_read.simps)
qed

theorem sequential_reads_witness:
  "file_read (OpenFileStruct (demo_node [] 1000) 511) (1 + 1) \<lparr>con_in = [], con_out = []\<rparr> =
     Inr (2, [0, 7], OpenFileStruct (demo_node [] 1000) 513, \<lparr>con_in = [], con_out = []\<rparr>)"
proof -
  let ?n = "demo_node [] 1000"
  have g: "file_ok (OpenFileStruct ?n off)" if "off \<le> 1000" for off
    using demo_node_good [of 1000 "[]"] that by (simp add: file_ok_def node_size_in_bytes_def demo_node_def)
  have r: "file_read (OpenFileStruct ?n 511) 1 con = Inr (1, [0], OpenFileStruct ?n 512, con)"
    "file_read (OpenFileStruct ?n 512) 1 con = Inr (1, [7], OpenFileStruct ?n 513, con)" for con
    using file_read_ok [OF g, of 511 1 con] file_read_ok [OF g, of 512 1 con]
    by (simp_all add: node_size_in_bytes_def node_cont_def Let_def file_block_def demo_node_def ide_cont_def demo_disk_def nth_append)
  show ?thesis
    using sequential_reads [THEN conjunct1, OF g, of 511 1 1 "\<lparr>con_in = [], con_out = []\<rparr>"]
    by (simp del: file_read.simps add: r)
qed

end
