(* ===== verification/PhysMem.thy ===== *)
theory PhysMem
  imports Prelude
begin

unbundle bit_operations_syntax

text \<open>
  The frame allocator of \<^verbatim>\<open>src/kernel/physmem.h\<close> and \<^verbatim>\<open>physmem.cc\<close>: frames that were
  given back form a linked list through their first word, the others are taken from the
  interval between \<^verbatim>\<open>avail\<close> and \<^verbatim>\<open>limit\<close>. Physical memory is a function from the address
  of an aligned 32-bit word to its contents; every access of the allocator and of the
  page-table code is to such a word, and the kernel reaches them through its identity
  mapping.
\<close>

section \<open>Address arithmetic\<close>

definition FRAME_SIZE :: u32 where
  "FRAME_SIZE = push_bit 12 1"

definition offset :: "u32 \<Rightarrow> u32" where
  "offset pa = pa AND 0xFFF"

definition ppn :: "u32 \<Rightarrow> u32" where
  "ppn pa = drop_bit 12 pa"

definition framedown :: "u32 \<Rightarrow> u32" where
  "framedown pa = (pa div FRAME_SIZE) * FRAME_SIZE"

definition frameup :: "u32 \<Rightarrow> u32" where
  "frameup pa = framedown (pa + FRAME_SIZE - 1)"

section \<open>State and operations\<close>

record pmem =
  mem :: "u32 \<Rightarrow> u32"
  firstFree :: u32
  pavail :: u32
  plimit :: u32

definition store :: "pmem \<Rightarrow> u32 \<Rightarrow> u32 \<Rightarrow> pmem" where
  "store s a v = s\<lparr>mem := (mem s)(a := v)\<rparr>"

text \<open>
  \<^verbatim>\<open>bzero\<close> of \<^verbatim>\<open>machine.S\<close> counts down in a signed register, so a length with the top bit
  set clears nothing.
\<close>

definition bzero :: "pmem \<Rightarrow> u32 \<Rightarrow> u32 \<Rightarrow> pmem" where
  "bzero s p n = (if sint n \<le> 0 then s else s\<lparr>mem := (\<lambda>a. if a - p < n then 0 else mem s a)\<rparr>)"

definition alloc_frame :: "pmem \<Rightarrow> (u32 \<times> pmem) result" where
  "alloc_frame s =
     bindR (if firstFree s \<noteq> 0 then
              Inr (firstFree s, s\<lparr>firstFree := mem s (firstFree s)\<rparr>)
            else if pavail s = plimit s then Inl (Panic ''no more frames'')
            else Inr (pavail s, s\<lparr>pavail := pavail s + FRAME_SIZE\<rparr>)) (\<lambda>(p, s1).
     bindR (assertR (offset p = 0) ''offset(p) == 0'') (\<lambda>_.
     Inr (p, bzero s1 p FRAME_SIZE)))"

definition dealloc_frame :: "pmem \<Rightarrow> u32 \<Rightarrow> pmem result" where
  "dealloc_frame s p =
     bindR (assertR (offset p = 0) ''offset(p) == 0'') (\<lambda>_.
     Inr ((store s p (firstFree s))\<lparr>firstFree := p\<rparr>))"

definition pm_init :: "(u32 \<Rightarrow> u32) \<Rightarrow> u32 \<Rightarrow> u32 \<Rightarrow> pmem result" where
  "pm_init m start bytes =
     bindR (assertR (offset start = 0) ''offset(start) == 0'') (\<lambda>_.
     bindR (assertR (offset bytes = 0) ''offset(size) == 0'') (\<lambda>_.
     Inr \<lparr>mem = m, firstFree = 0, pavail = start, plimit = start + bytes\<rparr>))"

section \<open>Frames and offsets\<close>

lemma FRAME_SIZE_eq [simp]: "FRAME_SIZE = 4096"
  by (simp add: FRAME_SIZE_def)

lemma offset_unat: "unat (offset a) = unat a mod 4096"
proof -
  have "offset a = take_bit 12 a" by (simp add: offset_def take_bit_eq_mask mask_eq_exp_minus_1)
  then show ?thesis by (simp add: unsigned_take_bit_eq take_bit_nat_def)
qed

lemma offset_0_iff: "offset a = 0 \<longleftrightarrow> unat a mod 4096 = 0"
  by (metis offset_unat unat_0 word_unat_eq_iff)

lemma framedown_unat: "unat (framedown a) = unat a div 4096 * 4096"
proof -
  have "unat a div 4096 * 4096 \<le> unat a" by simp
  then have "unat (a div 4096) * unat (4096 :: u32) < 2 ^ LENGTH(32)"
    using unat_bound [of a] by (simp add: unat_div)
  then show ?thesis unfolding framedown_def
    by (simp add: unat_mult_lem [THEN iffD1] unat_div)
qed

lemma framedown_alt: "a AND 0xFFFFF000 = framedown a"
proof -
  have m: "(0xFFFFF000 :: u32) = NOT (mask 12)" by (simp add: mask_eq_exp_minus_1)
  have "a AND 0xFFFFF000 = push_bit 12 (drop_bit 12 a)"
    unfolding m by (rule bit_word_eqI) (auto simp: bit_simps)
  also have "\<dots> = framedown a"
    by (simp add: framedown_def push_bit_eq_mult drop_bit_eq_div)
  finally show ?thesis .
qed

lemma offset_framedown [simp]: "offset (framedown a) = 0"
  by (simp add: offset_0_iff framedown_unat)

lemma framedown_aligned [simp]: "offset p = 0 \<Longrightarrow> framedown p = p"
  unfolding offset_0_iff word_unat_eq_iff [of "framedown p"] framedown_unat
  by (simp add: mod_eq_0_iff_dvd)

lemma div_eq_iff_bounds:
  fixes m n k :: nat
  assumes "0 < m"
  shows "n div m = k \<longleftrightarrow> m * k \<le> n \<and> n < m * k + m"
proof
  assume "n div m = k"
  then show "m * k \<le> n \<and> n < m * k + m"
    using div_times_less_eq_dividend [of n m] dividend_less_div_times [OF assms, of n]
    by (auto simp: ac_simps)
next
  assume "m * k \<le> n \<and> n < m * k + m"
  then show "n div m = k" by (intro div_nat_eqI) auto
qed

lemma framedown_eq_iff:
  assumes "offset p = 0"
  shows "framedown a = p \<longleftrightarrow> unat p \<le> unat a \<and> unat a < unat p + 4096"
proof -
  obtain k where k: "unat p = 4096 * k"
    using assms by (auto simp: offset_0_iff mod_eq_0_iff_dvd elim: dvdE)
  have "unat a div 4096 = k \<longleftrightarrow> 4096 * k \<le> unat a \<and> unat a < 4096 * k + 4096"
    by (rule div_eq_iff_bounds) simp
  then show ?thesis unfolding word_unat_eq_iff framedown_unat k by auto
qed

lemma aligned_bound: "offset p = 0 \<Longrightarrow> unat p + 4096 \<le> 4294967296"
  using unat_bound [of p] by (auto simp: offset_0_iff mod_eq_0_iff_dvd elim!: dvdE)

lemma in_frame_iff:
  assumes "offset p = 0"
  shows "a - p < 4096 \<longleftrightarrow> framedown a = p"
  using aligned_bound [OF assms] unat_bound [of a]
  by (auto simp: framedown_eq_iff [OF assms] word_less_nat_alt unat_sub_if_size word_size)

lemma entry_unat:
  assumes "offset p = 0" "i < 1024"
  shows "unat (p + of_nat (4 * i)) = unat p + 4 * i"
proof -
  have i: "unat (of_nat (4 * i) :: u32) = 4 * i"
    using assms(2) by (simp add: unat_of_nat take_bit_nat_def del: of_nat_mult)
  have "unat p + unat (of_nat (4 * i) :: u32) < 2 ^ LENGTH(32)"
    unfolding i using aligned_bound [OF assms(1)] assms(2) by simp
  then show ?thesis using i by (simp add: unat_add_lem [THEN iffD1] del: of_nat_mult)
qed

lemma framedown_entry [frame_simps]:
  "offset p = 0 \<Longrightarrow> i < 1024 \<Longrightarrow> framedown (p + of_nat (4 * i)) = p"
  by (simp add: framedown_eq_iff entry_unat del: of_nat_mult)

lemma entry_inj:
  assumes "offset p = 0" "offset q = 0" "i < 1024" "j < 1024"
  shows "p + of_nat (4 * i) = q + of_nat (4 * j) \<longleftrightarrow> p = q \<and> i = j"
proof
  assume e: "p + of_nat (4 * i) = q + of_nat (4 * j)"
  then have "p = q" using framedown_entry [OF assms(1,3)] framedown_entry [OF assms(2,4)] by simp
  moreover have "unat p + 4 * i = unat q + 4 * j"
    using e entry_unat [OF assms(1,3)] entry_unat [OF assms(2,4)] by simp
  ultimately show "p = q \<and> i = j" by simp
qed simp

section \<open>The allocator's state\<close>

text \<open>
  \<open>frame_list m p fl\<close>: the linked list starting at \<open>p\<close> consists of the frames \<open>fl\<close>.
  \<open>pm_inv start s fl\<close>: the allocator's state is consistent, the frames between \<open>start\<close> and
  \<open>avail\<close> having been handed out once and \<open>fl\<close> having been given back since.
  \<open>owned\<close> are the frames that callers hold, \<open>frames_left\<close> the number of allocations that
  will still succeed.
\<close>

fun frame_list :: "(u32 \<Rightarrow> u32) \<Rightarrow> u32 \<Rightarrow> u32 list \<Rightarrow> bool" where
  "frame_list m p [] = (p = 0)"
| "frame_list m p (x # xs) = (p = x \<and> x \<noteq> 0 \<and> frame_list m (m x) xs)"

definition touched :: "u32 \<Rightarrow> pmem \<Rightarrow> u32 set" where
  "touched start s = {p. offset p = 0 \<and> start \<le> p \<and> p < pavail s}"

definition pm_inv :: "u32 \<Rightarrow> pmem \<Rightarrow> u32 list \<Rightarrow> bool" where
  "pm_inv start s fl \<longleftrightarrow>
     0 < start \<and> offset start = 0 \<and> offset (pavail s) = 0 \<and> offset (plimit s) = 0 \<and>
     start \<le> pavail s \<and> pavail s \<le> plimit s \<and>
     distinct fl \<and> set fl \<subseteq> touched start s \<and> frame_list (mem s) (firstFree s) fl"

definition owns :: "u32 \<Rightarrow> pmem \<Rightarrow> u32 set \<Rightarrow> nat \<Rightarrow> bool" where
  "owns start s A n \<longleftrightarrow>
     (\<exists>fl. pm_inv start s fl \<and> A = touched start s - set fl \<and>
           n = length fl + unat (plimit s - pavail s) div 4096)"

lemma frame_list_cong:
  "frame_list m p fl \<Longrightarrow> (\<And>x. x \<in> set fl \<Longrightarrow> m' x = m x) \<Longrightarrow> frame_list m' p fl"
  by (induction fl arbitrary: p) auto

lemma aligned_step:
  assumes "offset p = 0" "offset q = 0" "p < q"
  shows "offset (p + 4096) = 0" "p + 4096 \<le> q" "p < p + 4096"
    "unat (q - (p + 4096)) div 4096 + 1 = unat (q - p) div 4096"
    "offset x = 0 \<Longrightarrow> x < p + 4096 \<longleftrightarrow> x < p \<or> x = p"
proof -
  obtain i where i: "unat p = 4096 * i"
    using assms(1) by (auto simp: offset_0_iff mod_eq_0_iff_dvd elim: dvdE)
  obtain j where j: "unat q = 4096 * j"
    using assms(2) by (auto simp: offset_0_iff mod_eq_0_iff_dvd elim: dvdE)
  have ij: "i < j" using assms(3) by (simp add: word_less_nat_alt i j)
  have "unat p + unat (4096 :: u32) < 2 ^ LENGTH(32)"
    using ij unat_bound [of q] by (simp add: i j)
  then have p: "unat (p + 4096) = 4096 * (i + 1)"
    by (simp add: unat_add_lem [THEN iffD1] i)
  show "offset (p + 4096) = 0" unfolding offset_0_iff p by simp
  show le: "p + 4096 \<le> q" unfolding word_le_nat_alt p j using ij by simp
  show "p < p + 4096" unfolding word_less_nat_alt p i by simp
  have "unat (q - (p + 4096)) = 4096 * (j - (i + 1))"
    using le unfolding word_le_nat_alt unat_sub_if_size by (simp only: if_True p j diff_mult_distrib2)
  moreover have "unat (q - p) = 4096 * (j - i)"
    using assms(3) by (simp add: unat_sub_if_size word_less_nat_alt i j diff_mult_distrib2)
  ultimately show "unat (q - (p + 4096)) div 4096 + 1 = unat (q - p) div 4096"
    using ij by simp
  show "offset x = 0 \<Longrightarrow> x < p + 4096 \<longleftrightarrow> x < p \<or> x = p"
  proof -
    assume "offset x = 0"
    then obtain k where k: "unat x = 4096 * k"
      by (auto simp: offset_0_iff mod_eq_0_iff_dvd elim: dvdE)
    have "x = p \<longleftrightarrow> k = i" unfolding word_unat_eq_iff k i by simp
    then show ?thesis unfolding word_less_nat_alt k i p by auto
  qed
qed

lemma alloc_frame_reused:
  assumes inv: "pm_inv start s (p # fl)"
  shows "alloc_frame s = Inr (p, bzero (s\<lparr>firstFree := mem s p\<rparr>) p FRAME_SIZE)"
    and "pm_inv start (bzero (s\<lparr>firstFree := mem s p\<rparr>) p FRAME_SIZE) fl"
proof -
  have p: "firstFree s = p" "p \<noteq> 0" "offset p = 0" "p \<notin> set fl"
    using inv by (auto simp: pm_inv_def touched_def)
  then show "alloc_frame s = Inr (p, bzero (s\<lparr>firstFree := mem s p\<rparr>) p FRAME_SIZE)"
    by (simp add: alloc_frame_def)
  have "frame_list (mem s) (mem s p) fl" using inv by (simp add: pm_inv_def)
  moreover have "\<not> x - p < 4096" if "x \<in> set fl" for x
    using inv that p by (auto simp: in_frame_iff pm_inv_def touched_def)
  ultimately have "frame_list (\<lambda>a. if a - p < 4096 then 0 else mem s a) (mem s p) fl"
    by (auto intro: frame_list_cong)
  then show "pm_inv start (bzero (s\<lparr>firstFree := mem s p\<rparr>) p FRAME_SIZE) fl"
    using inv by (simp add: pm_inv_def bzero_def touched_def cong: if_cong)
qed

lemma alloc_frame_fresh:
  assumes inv: "pm_inv start s []" and room: "pavail s \<noteq> plimit s"
  shows "alloc_frame s
      = Inr (pavail s, bzero (s\<lparr>pavail := pavail s + 4096\<rparr>) (pavail s) FRAME_SIZE)"
    and "pm_inv start (bzero (s\<lparr>pavail := pavail s + 4096\<rparr>) (pavail s) FRAME_SIZE) []"
    and "touched start (s\<lparr>pavail := pavail s + 4096\<rparr>) = insert (pavail s) (touched start s)"
proof -
  have *: "offset (pavail s) = 0" "offset (plimit s) = 0" "pavail s < plimit s" "start \<le> pavail s"
    using inv room by (auto simp: pm_inv_def)
  note step = aligned_step [OF *(1-3)]
  show "alloc_frame s
      = Inr (pavail s, bzero (s\<lparr>pavail := pavail s + 4096\<rparr>) (pavail s) FRAME_SIZE)"
    using inv room by (simp add: alloc_frame_def pm_inv_def)
  show "pm_inv start (bzero (s\<lparr>pavail := pavail s + 4096\<rparr>) (pavail s) FRAME_SIZE) []"
    using inv step(1-3) *(4) by (auto simp: pm_inv_def bzero_def)
  show "touched start (s\<lparr>pavail := pavail s + 4096\<rparr>) = insert (pavail s) (touched start s)"
    using step(5) * by (auto simp: touched_def)
qed

lemma touched_bzero [simp]: "touched start (bzero s p n) = touched start s"
  by (simp add: touched_def bzero_def)

lemma touched_firstFree [simp]: "touched start (s\<lparr>firstFree := p\<rparr>) = touched start s"
  by (simp add: touched_def)

lemma bzero_frame:
  "offset p = 0 \<Longrightarrow> mem (bzero s p 4096) a = (if framedown a = p then 0 else mem s a)"
  by (simp add: bzero_def in_frame_iff)

lemma bzero_sel [simp]:
  "pavail (bzero s p n) = pavail s" "plimit (bzero s p n) = plimit s"
  "firstFree (bzero s p n) = firstFree s"
  by (simp_all add: bzero_def)

lemma owns_alloc:
  assumes "owns start s A (Suc n)"
  shows "\<exists>p s'. alloc_frame s = Inr (p, s') \<and> p \<notin> A \<and> p \<noteq> 0 \<and> offset p = 0 \<and>
    owns start s' (insert p A) n \<and> (\<forall>a. framedown a = p \<longrightarrow> mem s' a = 0) \<and>
    (\<forall>a. framedown a \<noteq> p \<longrightarrow> mem s' a = mem s a)"
proof -
  obtain fl where inv: "pm_inv start s fl" and A: "A = touched start s - set fl"
    and n: "Suc n = length fl + unat (plimit s - pavail s) div 4096"
    using assms by (auto simp: owns_def)
  show ?thesis
  proof (cases fl)
    case (Cons p fl')
    let ?s' = "bzero (s\<lparr>firstFree := mem s p\<rparr>) p FRAME_SIZE"
    note al = alloc_frame_reused [OF inv [unfolded Cons]]
    have p: "p \<noteq> 0" "offset p = 0" "p \<notin> set fl'" "p \<in> touched start s"
      using inv by (auto simp: Cons pm_inv_def touched_def)
    have "owns start ?s' (insert p A) n"
      unfolding owns_def using al(2) p n by (intro exI [of _ fl']) (auto simp: A Cons)
    then show ?thesis using al(1) p by (auto simp: A Cons bzero_frame)
  next
    case Nil
    have room: "pavail s \<noteq> plimit s" using n by (auto simp: Nil)
    let ?p = "pavail s"
    let ?s' = "bzero (s\<lparr>pavail := pavail s + 4096\<rparr>) ?p FRAME_SIZE"
    note al = alloc_frame_fresh [OF inv [unfolded Nil] room]
    have p: "offset ?p = 0" "offset (plimit s) = 0" "?p < plimit s" "?p \<noteq> 0"
      using inv room by (auto simp: pm_inv_def)
    have "n = unat (plimit s - (?p + 4096)) div 4096"
      using aligned_step(4) [OF p(1-3)] n by (simp add: Nil)
    then have "owns start ?s' (insert ?p A) n"
      unfolding owns_def using al(2,3) by (intro exI [of _ "[]"]) (auto simp: A Nil)
    moreover have "?p \<notin> A" by (auto simp: A touched_def)
    ultimately show ?thesis using al(1) p by (auto simp: bzero_frame)
  qed
qed

lemma owns_exhausted:
  assumes "owns start s A 0" shows "alloc_frame s = Inl (Panic ''no more frames'')"
proof -
  have "pm_inv start s []" and u: "unat (plimit s - pavail s) div 4096 = 0"
    using assms by (auto simp: owns_def)
  then have ff: "firstFree s = 0" and al: "offset (pavail s) = 0" "offset (plimit s) = 0"
    "pavail s \<le> plimit s" by (auto simp: pm_inv_def)
  have "\<not> pavail s < plimit s" using aligned_step(4) [OF al(1,2)] u by fastforce
  then have "pavail s = plimit s" using al(3) by simp
  then show ?thesis by (simp add: alloc_frame_def ff)
qed

lemma owns_dealloc:
  assumes "owns start s A n" and p: "p \<in> A"
  shows "\<exists>s'. dealloc_frame s p = Inr s' \<and> owns start s' (A - {p}) (Suc n) \<and>
    (\<forall>a. framedown a \<noteq> p \<longrightarrow> mem s' a = mem s a)"
proof -
  obtain fl where inv: "pm_inv start s fl" and A: "A = touched start s - set fl"
    and n: "n = length fl + unat (plimit s - pavail s) div 4096"
    using assms by (auto simp: owns_def)
  have o: "offset p = 0" and nz: "p \<noteq> 0" using p inv by (auto simp: A touched_def pm_inv_def)
  let ?s' = "(store s p (firstFree s))\<lparr>firstFree := p\<rparr>"
  have "frame_list ((mem s)(p := firstFree s)) (firstFree s) fl"
    using inv p by (auto simp: pm_inv_def A intro: frame_list_cong)
  then have "pm_inv start ?s' (p # fl)"
    using inv p nz by (auto simp: pm_inv_def A store_def touched_def)
  then have "owns start ?s' (A - {p}) (Suc n)"
    unfolding owns_def
    by (intro exI [of _ "p # fl"]) (auto simp: A n store_def touched_def)
  then show ?thesis using o by (auto simp: dealloc_frame_def store_def)
qed

lemma owns_store:
  assumes "owns start s A n" and a: "framedown a \<in> A"
  shows "owns start (store s a v) A n"
proof -
  obtain fl where inv: "pm_inv start s fl" and A: "A = touched start s - set fl"
    and n: "n = length fl + unat (plimit s - pavail s) div 4096"
    using assms by (auto simp: owns_def)
  have "x \<noteq> a" if "x \<in> set fl" for x
    using that a inv by (auto simp: A pm_inv_def touched_def)
  then have "pm_inv start (store s a v) fl"
    using inv by (auto simp: pm_inv_def store_def touched_def intro: frame_list_cong)
  then show ?thesis
    unfolding owns_def by (intro exI [of _ fl]) (auto simp: A n store_def touched_def)
qed

lemma owns_mem:
  assumes "owns start s A n" and m: "\<forall>a. framedown a \<notin> A \<longrightarrow> m a = mem s a"
  shows "owns start (s\<lparr>mem := m\<rparr>) A n"
proof -
  obtain fl where inv: "pm_inv start s fl" and A: "A = touched start s - set fl"
    and n: "n = length fl + unat (plimit s - pavail s) div 4096"
    using assms by (auto simp: owns_def)
  have "m x = mem s x" if "x \<in> set fl" for x
    using that m inv by (auto simp: A pm_inv_def touched_def)
  then have "pm_inv start (s\<lparr>mem := m\<rparr>) fl"
    using inv by (auto simp: pm_inv_def touched_def intro: frame_list_cong)
  then show ?thesis
    unfolding owns_def by (intro exI [of _ fl]) (auto simp: A n touched_def)
qed

section \<open>The interface to the page tables\<close>

text \<open>
  What the page-table code relies on. \<open>held s A n\<close>: in state \<open>s\<close> the callers hold exactly
  the frames \<open>A\<close>, and \<open>n\<close> more can be had.
\<close>

fun alloc_many :: "('s \<Rightarrow> (u32 \<times> 's) result) \<Rightarrow> nat \<Rightarrow> 's \<Rightarrow> (u32 list \<times> 's) result" where
  "alloc_many alloc 0 s = Inr ([], s)"
| "alloc_many alloc (Suc k) s =
     bindR (alloc s) (\<lambda>(p, s1). bindR (alloc_many alloc k s1) (\<lambda>(ps, s2). Inr (p # ps, s2)))"

fun dealloc_many :: "('s \<Rightarrow> u32 \<Rightarrow> 's result) \<Rightarrow> u32 list \<Rightarrow> 's \<Rightarrow> 's result" where
  "dealloc_many dealloc [] s = Inr s"
| "dealloc_many dealloc (p # ps) s = bindR (dealloc s p) (dealloc_many dealloc ps)"

locale frame_allocator =
  fixes alloc :: "'s \<Rightarrow> (u32 \<times> 's) result"
    and dealloc :: "'s \<Rightarrow> u32 \<Rightarrow> 's result"
    and word :: "'s \<Rightarrow> u32 \<Rightarrow> u32"
    and put :: "'s \<Rightarrow> u32 \<Rightarrow> u32 \<Rightarrow> 's"
    and held :: "'s \<Rightarrow> u32 set \<Rightarrow> nat \<Rightarrow> bool"
  assumes alloc_ok: "held s A (Suc n) \<Longrightarrow>
      \<exists>p s'. alloc s = Inr (p, s') \<and> p \<notin> A \<and> p \<noteq> 0 \<and> offset p = 0 \<and> held s' (insert p A) n \<and>
             (\<forall>a. framedown a = p \<longrightarrow> word s' a = 0) \<and>
             (\<forall>a. framedown a \<noteq> p \<longrightarrow> word s' a = word s a)"
    and alloc_none: "held s A 0 \<Longrightarrow> alloc s = Inl (Panic ''no more frames'')"
    and dealloc_ok: "held s A n \<Longrightarrow> p \<in> A \<Longrightarrow>
      \<exists>s'. dealloc s p = Inr s' \<and> held s' (A - {p}) (Suc n) \<and>
           (\<forall>a. framedown a \<noteq> p \<longrightarrow> word s' a = word s a)"
    and put_held: "held s A n \<Longrightarrow> framedown a \<in> A \<Longrightarrow> held (put s a v) A n"
    and word_put: "word (put s a v) b = (if b = a then v else word s b)"
    and held_aligned: "held s A n \<Longrightarrow> p \<in> A \<Longrightarrow> offset p = 0 \<and> p \<noteq> 0"
begin

lemma alloc_okE:
  assumes "held s A n" "0 < n"
  obtains p s' where "alloc s = Inr (p, s')" "p \<notin> A" "p \<noteq> 0" "offset p = 0"
    "held s' (insert p A) (n - 1)" "\<forall>a. framedown a = p \<longrightarrow> word s' a = 0"
    "\<forall>a. framedown a \<noteq> p \<longrightarrow> word s' a = word s a"
  using alloc_ok [of s A "n - 1"] assms by auto

lemma alloc_Inr:
  assumes "held s A n" "alloc s = Inr (p, s')"
  shows "0 < n" "p \<notin> A" "p \<noteq> 0" "offset p = 0" "held s' (insert p A) (n - 1)"
    "framedown a = p \<Longrightarrow> word s' a = 0" "framedown a \<noteq> p \<Longrightarrow> word s' a = word s a"
proof -
  show n: "0 < n" using alloc_none [of s A] assms by (cases n) auto
  obtain q t where q: "alloc s = Inr (q, t)" "q \<notin> A" "q \<noteq> 0" "offset q = 0"
    "held t (insert q A) (n - 1)" "\<forall>a. framedown a = q \<longrightarrow> word t a = 0"
    "\<forall>a. framedown a \<noteq> q \<longrightarrow> word t a = word s a"
    by (rule alloc_okE [OF assms(1) n])
  have "q = p" "t = s'" using q(1) assms(2) by simp_all
  with q show "p \<notin> A" "p \<noteq> 0" "offset p = 0" "held s' (insert p A) (n - 1)"
    "framedown a = p \<Longrightarrow> word s' a = 0" "framedown a \<noteq> p \<Longrightarrow> word s' a = word s a"
    by blast+
qed

lemma alloc_many_ok:
  "held s A (k + n) \<Longrightarrow>
     \<exists>ps s'. alloc_many alloc k s = Inr (ps, s') \<and> length ps = k \<and> distinct ps \<and>
            set ps \<inter> A = {} \<and> held s' (set ps \<union> A) n \<and>
            (\<forall>a. framedown a \<in> A \<longrightarrow> word s' a = word s a)"
proof (induction k arbitrary: s A)
  case (Suc k)
  from Suc.prems obtain p s1 where 1: "alloc s = Inr (p, s1)" "p \<notin> A" "held s1 (insert p A) (k + n)"
      "\<forall>a. framedown a \<noteq> p \<longrightarrow> word s1 a = word s a"
    using alloc_ok [of s A "k + n"] by auto
  from Suc.IH [OF 1(3)] obtain ps s2 where 2: "alloc_many alloc k s1 = Inr (ps, s2)"
      "length ps = k" "distinct ps" "set ps \<inter> insert p A = {}" "held s2 (set ps \<union> insert p A) n"
      "\<forall>a. framedown a \<in> insert p A \<longrightarrow> word s2 a = word s1 a" by blast
  have "\<forall>a. framedown a \<in> A \<longrightarrow> word s2 a = word s a"
    using 1(2,4) 2(6) by (metis insertCI)
  then show ?case using 1 2 by auto
qed simp

lemma dealloc_many_ok:
  "held s (set ps \<union> A) n \<Longrightarrow> distinct ps \<Longrightarrow> set ps \<inter> A = {} \<Longrightarrow>
     \<exists>s'. dealloc_many dealloc ps s = Inr s' \<and> held s' A (n + length ps) \<and>
          (\<forall>a. framedown a \<notin> set ps \<longrightarrow> word s' a = word s a)"
proof (induction ps arbitrary: s n)
  case (Cons p ps)
  from dealloc_ok [OF Cons.prems(1), of p] obtain s1 where 1: "dealloc s p = Inr s1"
      "held s1 (set (p # ps) \<union> A - {p}) (Suc n)" "\<forall>a. framedown a \<noteq> p \<longrightarrow> word s1 a = word s a"
    by auto
  have "set (p # ps) \<union> A - {p} = set ps \<union> A" using Cons.prems by auto
  with Cons.IH [of s1 "Suc n"] Cons.prems 1 obtain s2 where 2:
      "dealloc_many dealloc ps s1 = Inr s2" "held s2 A (Suc n + length ps)"
      "\<forall>a. framedown a \<notin> set ps \<longrightarrow> word s2 a = word s1 a" by auto
  then show ?case using 1 by auto
qed simp

end

interpretation pm: frame_allocator alloc_frame dealloc_frame mem store "owns start" for start
proof unfold_locales
  show "owns start s A n \<Longrightarrow> p \<in> A \<Longrightarrow> offset p = 0 \<and> p \<noteq> 0" for s A n p
    by (auto simp: owns_def touched_def pm_inv_def)
qed (auto simp: owns_alloc owns_exhausted owns_dealloc owns_store, simp_all add: store_def)

section \<open>Properties\<close>

text \<open>
  C4. While frames are left, \<^verbatim>\<open>alloc_frame\<close> returns an aligned, zeroed frame that nobody
  holds and leaves every other frame as it was; when none is left it panics.
\<close>
theorem alloc_frame_correct:
  assumes "owns start s A n"
  shows "if n = 0 then alloc_frame s = Inl (Panic ''no more frames'')
    else \<exists>p s'. alloc_frame s = Inr (p, s') \<and> p \<notin> A \<and> p \<noteq> 0 \<and> offset p = 0 \<and>
           owns start s' (insert p A) (n - 1) \<and> (\<forall>a. framedown a = p \<longrightarrow> mem s' a = 0) \<and>
           (\<forall>a. framedown a \<noteq> p \<longrightarrow> mem s' a = mem s a)"
  using assms pm.alloc_none [of start s A] pm.alloc_ok [of start s A "n - 1"] by (cases n) auto

lemma owns_example:
  "owns 0x1000 \<lparr>mem = (\<lambda>a. a), firstFree = 0, pavail = 0x1000, plimit = 0x3000\<rparr> {} 2"
proof -
  have "touched 0x1000 \<lparr>mem = (\<lambda>a. a), firstFree = 0, pavail = 0x1000, plimit = 0x3000\<rparr> = {}"
    by (auto simp: touched_def)
  then show ?thesis
    unfolding owns_def by (intro exI [of _ "[]"]) (simp add: pm_inv_def offset_def)
qed

theorem alloc_frame_correct_witness:
  "\<exists>p s'. alloc_frame \<lparr>mem = (\<lambda>a. a), firstFree = 0, pavail = 0x1000, plimit = 0x3000\<rparr>
     = Inr (p, s') \<and> owns 0x1000 s' {p} 1 \<and> mem s' p = 0"
  using alloc_frame_correct [OF owns_example] by auto

text \<open>
  Allocating any number of frames that are left, and giving them back in any order,
  succeeds and leaves the allocator with the same frames held and the same number left;
  the frames obtained are pairwise different and the frames held before keep their contents.
\<close>
theorem alloc_dealloc_roundtrip:
  assumes "owns start s A (k + n)"
  shows "\<exists>ps s1. alloc_many alloc_frame k s = Inr (ps, s1) \<and> length ps = k \<and> distinct ps \<and>
           set ps \<inter> A = {} \<and>
           (\<forall>qs. set qs = set ps \<and> distinct qs \<longrightarrow>
              (\<exists>s2. dealloc_many dealloc_frame qs s1 = Inr s2 \<and> owns start s2 A (k + n) \<and>
                    (\<forall>a. framedown a \<in> A \<longrightarrow> mem s2 a = mem s a)))"
proof -
  obtain ps s1 where 1: "alloc_many alloc_frame k s = Inr (ps, s1)" "length ps = k" "distinct ps"
      "set ps \<inter> A = {}" "owns start s1 (set ps \<union> A) n"
      "\<forall>a. framedown a \<in> A \<longrightarrow> mem s1 a = mem s a"
    using pm.alloc_many_ok [OF assms] by blast
  have "\<exists>s2. dealloc_many dealloc_frame qs s1 = Inr s2 \<and> owns start s2 A (k + n) \<and>
             (\<forall>a. framedown a \<in> A \<longrightarrow> mem s2 a = mem s a)"
    if q: "set qs = set ps" "distinct qs" for qs
  proof -
    have "length qs = k" using q 1(2,3) by (metis distinct_card)
    then show ?thesis
      using pm.dealloc_many_ok [of start s1 qs A n] q 1(4-6) by (fastforce simp: add.commute)
  qed
  then show ?thesis using 1(1-4) by blast
qed

theorem alloc_dealloc_roundtrip_witness:
  "\<exists>ps s1. alloc_many alloc_frame 2
     \<lparr>mem = (\<lambda>a. a), firstFree = 0, pavail = 0x1000, plimit = 0x3000\<rparr> = Inr (ps, s1) \<and> distinct ps"
  using alloc_dealloc_roundtrip [of "0x1000" _ "{}" 2 0] owns_example by (simp only: add_0_right) blast

text \<open>
  \<^verbatim>\<open>PhysMem::init\<close> on an aligned, non-null range that does not wrap around leaves an
  allocator that holds nothing out and can serve exactly one frame per 4096 bytes.
\<close>
theorem pm_init_correct:
  assumes "offset start = 0" "offset bytes = 0" "0 < start" "start \<le> start + bytes"
  shows "\<exists>s. pm_init m start bytes = Inr s \<and> owns start s {} (unat bytes div 4096) \<and> mem s = m"
proof -
  let ?s = "\<lparr>mem = m, firstFree = 0, pavail = start, plimit = start + bytes\<rparr>"
  have "unat (start + bytes) = unat start + unat bytes"
    using assms(4) unat_bound [of bytes]
    by (auto simp: unat_plus_if_size word_le_nat_alt word_size split: if_splits)
  then have "offset (start + bytes) = 0"
    using assms(1,2) by (auto simp: offset_0_iff)
  then have "pm_inv start ?s []" using assms by (simp add: pm_inv_def)
  moreover have "touched start ?s = {}" by (auto simp: touched_def)
  ultimately have "owns start ?s {} (unat bytes div 4096)"
    unfolding owns_def by (intro exI [of _ "[]"]) simp
  then show ?thesis using assms by (simp add: pm_init_def)
qed

theorem pm_init_correct_witness:
  "\<exists>s. pm_init (\<lambda>_. 0) 0x100000 0x7F00000 = Inr s \<and> owns 0x100000 s {} 32512"
  using pm_init_correct [of "0x100000" "0x7F00000"] by (auto simp: offset_def)

end
