(* ===== verification/Config.thy ===== *)
theory Config
  imports Prelude
begin

text \<open>
  The machine configuration of \<^verbatim>\<open>src/kernel/config.h\<close>.
\<close>

record apic_info =
  processorId :: u8
  apicId :: u8
  apicFlags :: u32

record config =
  memSize :: u32
  nOtherProcs :: u32
  totalProcs :: u32
  localAPIC :: u32
  madtFlags :: u32
  ioAPIC :: u32
  apicInfo :: "apic_info list"
  oemid :: "u8 list"

end
