(* ===== verification/Vmm.thy ===== *)
theory Vmm
  imports PhysMem Config
begin

unbundle bit_operations_syntax

text \<open>
  The page tables of \<^verbatim>\<open>src/kernel/vmm.cc\<close>: two-level tables of 1024 entries each, held in
  frames of the frame allocator. An entry with bit 0 set points to the frame in its upper
  twenty bits. Addresses below \<^verbatim>\<open>0x80000000\<close> belong to the kernel and are mapped by tables all
  address spaces share; the others are private to a process, except for the pages of the
  two interrupt controllers.
\<close>

section \<open>State\<close>

text \<open>
  Physical memory with its allocator, the shared page directory, the machine's
  configuration, the page-directory register \<^verbatim>\<open>cr3\<close>, and the addresses whose cached
  translations have been dropped by \<^verbatim>\<open>invlpg\<close>, most recent first.
\<close>

record vmm =
  phys :: pmem
  shared :: u32
  kConfig :: config
  cr3 :: u32
  invlpgs :: "u32 list"

text \<open>Entry \<open>i\<close> of the table in frame \<open>p\<close>.\<close>

definition rd :: "vmm \<Rightarrow> u32 \<Rightarrow> nat \<Rightarrow> u32" where
  "rd v p i = mem (phys v) (p + of_nat (4 * i))"

definition wr :: "vmm \<Rightarrow> u32 \<Rightarrow> nat \<Rightarrow> u32 \<Rightarrow> vmm" where
  "wr v p i x = v\<lparr>phys := store (phys v) (p + of_nat (4 * i)) x\<rparr>"

definition valloc :: "vmm \<Rightarrow> (u32 \<times> vmm) result" where
  "valloc v = bindR (alloc_frame (phys v)) (\<lambda>(p, s). Inr (p, v\<lparr>phys := s\<rparr>))"

definition vdealloc :: "vmm \<Rightarrow> u32 \<Rightarrow> vmm result" where
  "vdealloc v p = bindR (dealloc_frame (phys v) p) (\<lambda>s. Inr (v\<lparr>phys := s\<rparr>))"

definition invlpg :: "vmm \<Rightarrow> u32 \<Rightarrow> vmm" where
  "invlpg v va = v\<lparr>invlpgs := va # invlpgs v\<rparr>"

text \<open>
  \<^verbatim>\<open>memcpy\<close> of \<^verbatim>\<open>machine.S\<close> between two areas that do not overlap; like \<^verbatim>\<open>bzero\<close> it copies
  nothing when the length is negative as a signed number.
\<close>

definition memcpy :: "vmm \<Rightarrow> u32 \<Rightarrow> u32 \<Rightarrow> u32 \<Rightarrow> vmm" where
  "memcpy v d s n =
     (if sint n \<le> 0 then v
      else v\<lparr>phys := (phys v)\<lparr>mem :=
             (\<lambda>a. if a - d < n then mem (phys v) (s + (a - d)) else mem (phys v) a)\<rparr>\<rparr>)"

section \<open>Mapping and unmapping a page\<close>

definition is_special :: "vmm \<Rightarrow> u32 \<Rightarrow> bool" where
  "is_special v va \<longleftrightarrow> va < 0x80000000 \<or> va = ioAPIC (kConfig v) \<or> va = localAPIC (kConfig v)"

definition pdi_of :: "u32 \<Rightarrow> nat" where
  "pdi_of va = unat (drop_bit 22 va)"

definition pti_of :: "u32 \<Rightarrow> nat" where
  "pti_of va = unat (drop_bit 12 va AND 0x3FF)"

definition va_of :: "nat \<Rightarrow> nat \<Rightarrow> u32" where
  "va_of pdi pti = push_bit 22 (of_nat pdi) OR push_bit 12 (of_nat pti)"

definition map_page :: "vmm \<Rightarrow> u32 \<Rightarrow> u32 \<Rightarrow> u32 \<Rightarrow> vmm result" where
  "map_page v pd va pa =
     (let num = (if is_special v va then 3 else 7);
          pdi = pdi_of va;
          pti = pti_of va;
          pde = rd v pd pdi
      in bindR (if pde AND 1 = 0
                then bindR (valloc v) (\<lambda>(p, v1). Inr (p OR num, wr v1 pd pdi (p OR num)))
                else Inr (pde, v)) (\<lambda>(pde, v1).
         Inr (wr v1 (pde AND 0xFFFFF000) pti (pa OR num))))"

definition unmap :: "vmm \<Rightarrow> u32 \<Rightarrow> u32 \<Rightarrow> vmm result" where
  "unmap v pd va =
     (if is_special v va then Inr v
      else if rd v pd (pdi_of va) AND 1 = 0 then Inr v
      else (let pt = rd v pd (pdi_of va) AND 0xFFFFF000;
                pte = rd v pt (pti_of va)
            in if pte AND 1 = 0 then Inr v
               else bindR (vdealloc (wr v pt (pti_of va) 0) (pte AND 0xFFFFF000)) (\<lambda>v1.
                    Inr (invlpg v1 va))))"

section \<open>Address spaces\<close>

definition make_pd :: "vmm \<Rightarrow> (u32 \<times> vmm) result" where
  "make_pd v =
     bindR (valloc v) (\<lambda>(pd, v1).
     let m4 = 4 * 1024 * 1024;
         shared_size = 4 * ((memSize (kConfig v1) + m4 - 1) div m4);
         v2 = memcpy v1 pd (shared v1) shared_size
     in bindR (map_page v2 pd (ioAPIC (kConfig v2)) (ioAPIC (kConfig v2))) (\<lambda>v3.
        bindR (map_page v3 pd (localAPIC (kConfig v3)) (localAPIC (kConfig v3))) (\<lambda>v4.
        Inr (pd, v4))))"

text \<open>The body of the inner loop of \<^verbatim>\<open>delete_private\<close>, its outer loop, and the function.\<close>

definition clear_entry :: "u32 \<Rightarrow> nat \<Rightarrow> nat \<Rightarrow> bool \<times> vmm \<Rightarrow> (bool \<times> vmm) result" where
  "clear_entry pt pdi pti =
     (\<lambda>(contains_special, v).
      let va = va_of pdi pti in
      if is_special v va then Inr (True, v)
      else (let pte = rd v pt pti in
        if pte AND 1 = 0 then Inr (contains_special, v)
        else bindR (vdealloc (wr v pt pti 0) (pte AND 0xFFFFF000)) (\<lambda>v1.
             Inr (contains_special, invlpg v1 va))))"

definition clear_table :: "u32 \<Rightarrow> nat \<Rightarrow> vmm \<Rightarrow> vmm result" where
  "clear_table pd pdi v =
     (let pde = rd v pd pdi in
      if pde AND 1 = 0 then Inr v
      else (let pt = pde AND 0xFFFFF000
        in bindR (foldM (clear_entry pt pdi) [0..<1024] (False, v)) (\<lambda>(contains_special, v1).
           if \<not> contains_special then vdealloc (wr v1 pd pdi 0) pt else Inr v1)))"

definition delete_private :: "vmm \<Rightarrow> u32 \<Rightarrow> vmm result" where
  "delete_private v pd =
     bindR (assertR (pd = cr3 v) ''uint32_t(pd) == getCR3()'') (\<lambda>_.
     foldM (clear_table pd) [512..<1024] v)"

definition free_entry :: "u32 \<Rightarrow> nat \<Rightarrow> nat \<Rightarrow> vmm \<Rightarrow> vmm result" where
  "free_entry pt pdi pti v =
     (let va = va_of pdi pti;
          pte = rd v pt pti
      in if pte AND 1 = 0 then Inr v
         else if \<not> is_special v va then vdealloc v (pte AND 0xFFFFF000) else Inr v)"

definition free_table :: "u32 \<Rightarrow> nat \<Rightarrow> vmm \<Rightarrow> vmm result" where
  "free_table pd pdi v =
     (let pde = rd v pd pdi in
      if pde AND 1 = 0 then Inr v
      else (let pt = pde AND 0xFFFFF000 in
        bindR (foldM (free_entry pt pdi) [0..<1024] v) (\<lambda>v1. vdealloc v1 pt)))"

definition delete_pd :: "vmm \<Rightarrow> u32 \<Rightarrow> vmm result" where
  "delete_pd v pd =
     bindR (assertR (pd \<noteq> cr3 v) ''uint32_t(pd) != getCR3()'') (\<lambda>_.
     bindR (foldM (free_table pd) [512..<1024] v) (\<lambda>v1. vdealloc v1 pd))"

section \<open>Initialisation and page faults\<close>

text \<open>
  The loop of \<^verbatim>\<open>global_init\<close> with fuel: its 32-bit counter wraps when \<^verbatim>\<open>memSize\<close> exceeds
  \<^verbatim>\<open>0xFFFFF000\<close>, and the loop then never ends.
\<close>

fun map_low :: "nat \<Rightarrow> u32 \<Rightarrow> vmm \<Rightarrow> vmm result" where
  "map_low 0 va v = Inl Diverges"
| "map_low (Suc fuel) va v =
     (if va < memSize (kConfig v)
      then bindR (map_page v (shared v) va va) (map_low fuel (va + FRAME_SIZE))
      else Inr v)"

definition global_init :: "nat \<Rightarrow> vmm \<Rightarrow> vmm result" where
  "global_init fuel v =
     bindR (valloc v) (\<lambda>(p, v1). map_low fuel FRAME_SIZE (v1\<lparr>shared := p\<rparr>))"

definition per_core_init :: "vmm \<Rightarrow> u32 \<Rightarrow> vmm" where
  "per_core_init v pd = v\<lparr>cr3 := pd\<rparr>"

text \<open>
  What a page fault does to the faulting thread: it continues, or its process exits (with
  the thread's id as its value) and the thread stops.
\<close>

datatype fault_outcome = Resume | Exit

definition vmm_pageFault :: "vmm \<Rightarrow> u32 \<Rightarrow> u32 \<Rightarrow> u32 \<Rightarrow> (fault_outcome \<times> vmm) result" where
  "vmm_pageFault v process_pd saved_cr3 addr =
     bindR (assertR (process_pd = cr3 v) ''me->process->pd == getCR3()'') (\<lambda>_.
     bindR (assertR (saved_cr3 = cr3 v) ''me->saveArea.cr3 == getCR3()'') (\<lambda>_.
     let va = framedown addr in
     if va \<ge> 0x80000000
     then bindR (valloc v) (\<lambda>(pa, v1).
          bindR (map_page v1 process_pd va pa) (\<lambda>v2. Inr (Resume, v2)))
     else Inr (Exit, v)))"

end
