(* ===== verification/Process.thy ===== *)
theory Process
  imports Files Vmm
begin

unbundle bit_operations_syntax

text \<open>
  Processes: \<^verbatim>\<open>src/kernel/process.h\<close> and \<^verbatim>\<open>process.cc\<close>, with the futures of \<^verbatim>\<open>future.h\<close>. A process
  has three tables of ten handles and a page directory. The objects the handles point to live in
  the kernel's state, so that a forked child shares them with its parent. Each operation is
  one step, as the lock of the process makes it.
\<close>

section \<open>Futures\<close>

text \<open>An operation that may have to wait returns \<open>Blocks\<close> when it does.\<close>

datatype 'a waiting = Done 'a | Blocks

record fut =
  isReady :: bool
  fut_t :: u32
  go :: nat

definition new_fut :: fut where
  "new_fut = \<lparr>isReady = False, fut_t = 0, go = 0\<rparr>"

definition fut_set :: "u32 \<Rightarrow> fut \<Rightarrow> fut result" where
  "fut_set v f = bindR (assertR (\<not> isReady f) ''!isReady'') (\<lambda>_. Inr (f\<lparr>fut_t := v, isReady := True, go := go f + 1\<rparr>))"

text \<open>A reader that waits goes through the semaphore, taking it and giving it back.\<close>

definition fut_get :: "fut \<Rightarrow> u32 waiting" where
  "fut_get f = (if \<not> isReady f \<and> go f = 0 then Blocks else Done (fut_t f))"

section \<open>State\<close>

definition NSEM :: nat where "NSEM = 10"
definition NCHILD :: nat where "NCHILD = 10"
definition NFILE :: nat where "NFILE = 10"

text \<open>Objects are known by number; a handle is a number or null.\<close>

record process =
  files :: "nat option list"
  sems :: "nat option list"
  children :: "nat option list"
  p_output :: nat
  pd :: u32

record kernel =
  k_vm :: vmm
  procs :: "nat \<rightharpoonup> process"
  file_objs :: "nat \<Rightarrow> kfile"
  sem_objs :: "nat \<Rightarrow> u64"
  futs :: "nat \<Rightarrow> fut"
  next_obj :: nat
  k_con :: console

definition new_obj :: "kernel \<Rightarrow> nat \<times> kernel" where
  "new_obj k = (next_obj k, k\<lparr>next_obj := next_obj k + 1\<rparr>)"

definition FL :: u32 where "FL = 0x00000000"
definition PROC :: u32 where "PROC = 0x10000000"
definition SEM :: u32 where "SEM = 0x20000000"
definition INDEX_MASK :: u32 where "INDEX_MASK = 0x0FFFFFFF"

text \<open>The constructor; the first process starts with the console as its first three files.\<close>

definition new_process :: "bool \<Rightarrow> kernel \<Rightarrow> (nat \<times> kernel) result" where
  "new_process isInit k =
     (let (out, k) = new_obj k; k = k\<lparr>futs := (futs k)(out := new_fut)\<rparr>
      in bindR (make_pd (k_vm k)) (\<lambda>(d, v).
         let k = k\<lparr>k_vm := v\<rparr>;
             (f, k) = (if isInit then let (f, k) = new_obj k in (Some f, k\<lparr>file_objs := (file_objs k)(f := U8250File)\<rparr>) else (None, k));
             (p, k) = new_obj k
         in Inr (p, k\<lparr>procs := (procs k)(p \<mapsto>
              \<lparr>files = [f, f, f] @ replicate (NFILE - 3) None, sems = replicate NSEM None,
                children = replicate NCHILD None, p_output = out, pd = d\<rparr>)\<rparr>)))"

definition destroy_process :: "nat \<Rightarrow> kernel \<Rightarrow> kernel result" where
  "destroy_process p k =
     (case procs k p of None \<Rightarrow> Inl OutOfRange
      | Some pr \<Rightarrow> bindR (delete_pd (k_vm k) (pd pr)) (\<lambda>v. Inr (k\<lparr>k_vm := v, procs := (procs k)(p := None)\<rparr>)))"

section \<open>Descriptors\<close>

definition descriptor_index :: "u32 \<Rightarrow> nat \<Rightarrow> u32 \<Rightarrow> int" where
  "descriptor_index k bound ident =
     (let kind = ident AND 0xF0000000; index = ident AND INDEX_MASK
      in if kind \<noteq> k then -1
         else if unat index \<ge> bound then -1
         else uint index)"

definition getSemaphoreIndex :: "u32 \<Rightarrow> int" where
  "getSemaphoreIndex = descriptor_index SEM NSEM"

definition getChildIndex :: "u32 \<Rightarrow> int" where
  "getChildIndex = descriptor_index PROC NCHILD"

definition getFileIndex :: "u32 \<Rightarrow> int" where
  "getFileIndex = descriptor_index FL NFILE"

text \<open>The loops that look for the first null handle of a table.\<close>

fun first_null :: "nat \<Rightarrow> 'a option list \<Rightarrow> nat option" where
  "first_null i [] = None"
| "first_null i (x # xs) = (if x = None then Some i else first_null (i + 1) xs)"

section \<open>Files and semaphores\<close>

definition getFile :: "process \<Rightarrow> u32 \<Rightarrow> nat option" where
  "getFile pr fd = (if getFileIndex fd < 0 then None else files pr ! unat fd)"

definition setFile :: "process \<Rightarrow> nat option \<Rightarrow> int \<times> process" where
  "setFile pr f =
     (case first_null 0 (files pr) of
        None \<Rightarrow> (-1, pr)
      | Some i \<Rightarrow> (int i, pr\<lparr>files := (files pr)[i := f]\<rparr>))"

definition newSemaphore :: "process \<Rightarrow> u32 \<Rightarrow> kernel \<Rightarrow> int \<times> process \<times> kernel" where
  "newSemaphore pr init k =
     (case first_null 0 (sems pr) of
        None \<Rightarrow> (-1, pr, k)
      | Some i \<Rightarrow>
          (let (s, k) = new_obj k
           in (sint (SEM OR (of_nat i AND INDEX_MASK)), pr\<lparr>sems := (sems pr)[i := Some s]\<rparr>,
               k\<lparr>sem_objs := (sem_objs k)(s := ucast init)\<rparr>)))"

definition getSemaphore :: "process \<Rightarrow> u32 \<Rightarrow> nat option" where
  "getSemaphore pr ident =
     (let idx = ident AND INDEX_MASK
      in if unat idx \<ge> NSEM \<or> ident AND 0xF0000000 \<noteq> SEM then None else sems pr ! unat idx)"

definition close :: "process \<Rightarrow> u32 \<Rightarrow> int \<times> process" where
  "close pr ident =
     (let index = getSemaphoreIndex ident
      in if index \<noteq> -1 then
           (if sems pr ! nat index = None then (-1, pr) else (0, pr\<lparr>sems := (sems pr)[nat index := None]\<rparr>))
         else
           let index = getChildIndex ident
           in if index \<noteq> -1 then
                (if children pr ! nat index = None then (-1, pr) else (0, pr\<lparr>children := (children pr)[nat index := None]\<rparr>))
              else
                let index = getFileIndex ident
                in if index \<noteq> -1 then
                     (if files pr ! nat index = None then (-1, pr) else (0, pr\<lparr>files := (files pr)[nat index := None]\<rparr>))
                   else (-1, pr))"

section \<open>Exit and wait\<close>

definition process_exit :: "process \<Rightarrow> u32 \<Rightarrow> kernel \<Rightarrow> kernel result" where
  "process_exit pr v k =
     bindR (fut_set v (futs k (p_output pr))) (\<lambda>f. Inr (k\<lparr>futs := (futs k)(p_output pr := f)\<rparr>))"

text \<open>\<^verbatim>\<open>wait\<close> returns its result and what it stores at \<^verbatim>\<open>ptr\<close>.\<close>

definition wait :: "process \<Rightarrow> u32 \<Rightarrow> kernel \<Rightarrow> (int \<times> u32 option \<times> process) waiting" where
  "wait pr ident k =
     (let index = getChildIndex ident
      in if index < 0 then Done (index, None, pr)
         else case children pr ! nat index of
             None \<Rightarrow> Done (-1, None, pr)
           | Some e \<Rightarrow>
               (case fut_get (futs k e) of
                  Blocks \<Rightarrow> Blocks
                | Done v \<Rightarrow> Done (0, Some v, pr\<lparr>children := (children pr)[nat index := None]\<rparr>)))"

section \<open>Fork\<close>

text \<open>
  The copy of the private half of an address space: the body of the loop over a page table, the
  body of the loop over the page directory, and both loops.
\<close>

definition copy_entry :: "u32 \<Rightarrow> u32 \<Rightarrow> nat \<Rightarrow> vmm \<Rightarrow> vmm result" where
  "copy_entry parent_pt child_pt pti v =
     (let child_pte = rd v child_pt pti in
      if child_pte AND 1 = 1 then Inr v
      else
        let parent_pte = rd v parent_pt pti in
        if parent_pte AND 1 = 0 then Inr v
        else
          let parent_frame = parent_pte AND 0xFFFFF000 in
          bindR (valloc v) (\<lambda>(child_frame, v1).
          let v2 = memcpy v1 child_frame parent_frame FRAME_SIZE in
          Inr (wr v2 child_pt pti (child_frame OR 7))))"

definition copy_table :: "u32 \<Rightarrow> u32 \<Rightarrow> nat \<Rightarrow> vmm \<Rightarrow> vmm result" where
  "copy_table parent_pd child_pd pdi v =
     (let parent_pde = rd v parent_pd pdi in
      if parent_pde AND 1 = 0 then Inr v
      else
        let parent_pt = parent_pde AND 0xFFFFF000; child_pde = rd v child_pd pdi in
        bindR (if child_pde AND 1 = 0
               then bindR (valloc v) (\<lambda>(child_pt, v1). Inr (child_pt, wr v1 child_pd pdi (child_pt OR 7)))
               else Inr (child_pde AND 0xFFFFF000, v)) (\<lambda>(child_pt, v1).
        foldM (copy_entry parent_pt child_pt) [0..<1024] v1))"

definition copy_space :: "u32 \<Rightarrow> u32 \<Rightarrow> vmm \<Rightarrow> vmm result" where
  "copy_space parent_pd child_pd v = foldM (copy_table parent_pd child_pd) [512..<1024] v"

definition proc_fork :: "nat \<Rightarrow> kernel \<Rightarrow> (int \<times> nat option \<times> kernel) result" where
  "proc_fork p k =
     (case procs k p of None \<Rightarrow> Inl OutOfRange
      | Some pr \<Rightarrow>
          (case first_null 0 (children pr) of
             None \<Rightarrow> Inr (-1, None, k)
           | Some index \<Rightarrow>
               bindR (new_process False k) (\<lambda>(child, k1).
               case procs k1 child of None \<Rightarrow> Inl OutOfRange
               | Some ch \<Rightarrow>
                   bindR (copy_space (pd pr) (pd ch) (k_vm k1)) (\<lambda>v.
                   let ch' = ch\<lparr>sems := map2 (\<lambda>s c. if s \<noteq> None then s else c) (sems pr) (sems ch), files := files pr\<rparr>;
                       pr' = pr\<lparr>children := (children pr)[index := Some (p_output ch)]\<rparr>
                   in Inr (sint (PROC OR of_nat index), Some child,
                           k1\<lparr>k_vm := v, procs := (procs k1)(child \<mapsto> ch', p \<mapsto> pr')\<rparr>)))))"

definition clear_private :: "process \<Rightarrow> kernel \<Rightarrow> kernel result" where
  "clear_private pr k = bindR (delete_private (k_vm k) (pd pr)) (\<lambda>v. Inr (k\<lparr>k_vm := v\<rparr>))"

end
