(* ===== verification/Vmm_Correct.thy ===== *)
theory Vmm_Correct
  imports Vmm
begin

unbundle bit_operations_syntax

text \<open>
  Correctness of the page-table operations: what each operation does to the translation of
  every address, and to the set of frames that are held.
\<close>

section \<open>Entries and addresses\<close>

lemma absent_iff: "a AND 1 = 0 \<longleftrightarrow> even a" for a :: u32
  by (simp add: and_one_eq even_iff_mod_2_eq_zero)

lemma present_or [simp]: "odd (a OR 3 :: u32)" "odd (a OR 7 :: u32)"
  by (simp_all add: even_or_iff)

lemma framedown_or [frame_simps]: "framedown (a OR 3) = framedown a" "framedown (a OR 7) = framedown a"
proof -
  have m: "(0xFFFFF000 :: u32) = NOT (mask 12)" "(3 :: u32) = mask 2" "(7 :: u32) = mask 3"
    by (simp_all add: mask_eq_exp_minus_1)
  show "framedown (a OR 3) = framedown a" "framedown (a OR 7) = framedown a"
    unfolding framedown_alt [symmetric] m
    by (rule bit_word_eqI, auto simp: bit_simps)+
qed

lemma pdi_of_eq: "pdi_of va = unat va div 4194304"
  by (simp add: pdi_of_def drop_bit_eq_div unat_div)

lemma pti_of_eq: "pti_of va = unat va div 4096 mod 1024"
proof -
  have "drop_bit 12 va AND 0x3FF = take_bit 10 (drop_bit 12 va)"
    by (simp add: take_bit_eq_mask mask_eq_exp_minus_1)
  then show ?thesis
    by (simp add: pti_of_def unsigned_take_bit_eq drop_bit_eq_div unat_div take_bit_nat_def)
qed

lemma pdi_lt [simp]: "pdi_of va < 1024"
  using unat_bound [of va] by (simp add: pdi_of_eq)

lemma pti_lt [simp]: "pti_of va < 1024"
  by (simp add: pti_of_eq)

lemma same_page_iff:
  "framedown va = framedown va' \<longleftrightarrow> pdi_of va = pdi_of va' \<and> pti_of va = pti_of va'"
proof -
  have *: "unat a div 4096 = (unat a div 4194304) * 1024 + unat a div 4096 mod 1024" for a :: u32
    using div_mult2_eq [of "unat a" 4096 1024] div_mult_mod_eq [of "unat a div 4096" 1024] by simp
  show ?thesis
    unfolding word_unat_eq_iff framedown_unat pdi_of_eq pti_of_eq
    using * [of va] * [of va'] by auto
qed

lemma va_of_unat:
  assumes "i < 1024" "j < 1024"
  shows "unat (va_of i j) = i * 4194304 + j * 4096"
proof -
  have i: "unat (of_nat i :: u32) = i" and j: "unat (of_nat j :: u32) = j"
    using assms by (simp_all add: unat_of_nat take_bit_nat_def)
  have "bit (of_nat j :: u32) n \<Longrightarrow> n < 10" for n
  proof -
    have "of_nat j = (take_bit 10 (of_nat j) :: u32)"
      using assms by (simp add: word_unat_eq_iff unsigned_take_bit_eq j take_bit_nat_def)
    then show "bit (of_nat j :: u32) n \<Longrightarrow> n < 10" by (metis bit_take_bit_iff)
  qed
  then have "push_bit 22 (of_nat i) AND push_bit 12 (of_nat j) = (0 :: u32)"
    by (intro bit_word_eqI) (auto simp: bit_simps, fastforce)
  then have "va_of i j = of_nat i * 4194304 + of_nat j * 4096"
    by (simp add: va_of_def disjunctive_add_eq_or [symmetric] push_bit_eq_mult)
  moreover have "unat (of_nat i * 4194304 + of_nat j * 4096 :: u32) = i * 4194304 + j * 4096"
    using assms by (simp add: unat_word_ariths i j)
  ultimately show ?thesis by simp
qed

lemma pdi_va_of [simp]: "i < 1024 \<Longrightarrow> j < 1024 \<Longrightarrow> pdi_of (va_of i j) = i"
  by (simp add: pdi_of_eq va_of_unat)

lemma pti_va_of [simp]: "i < 1024 \<Longrightarrow> j < 1024 \<Longrightarrow> pti_of (va_of i j) = j"
  by (simp add: pti_of_eq va_of_unat)

lemma offset_va_of [simp]: "i < 1024 \<Longrightarrow> j < 1024 \<Longrightarrow> offset (va_of i j) = 0"
  by (simp add: offset_0_iff va_of_unat)

lemma va_of_framedown: "va_of (pdi_of va) (pti_of va) = framedown va"
proof -
  have "framedown (va_of (pdi_of va) (pti_of va)) = framedown va"
    unfolding same_page_iff by simp
  then show ?thesis by simp
qed

lemma upper_half: "0x80000000 \<le> va \<longleftrightarrow> 512 \<le> pdi_of va"
  unfolding word_le_nat_alt pdi_of_eq using less_eq_div_iff_mult_less_eq [of 4194304 512 "unat va"] by simp

section \<open>Frames held and frames changed\<close>

text \<open>
  \<open>vheld start T v A\<close>: of the \<open>T\<close> frames of the machine exactly those in \<open>A\<close> are held.
  \<open>keeps X v w\<close>: memory outside the frames \<open>X\<close> has not changed between \<open>v\<close> and \<open>w\<close>.
\<close>

definition vheld :: "u32 \<Rightarrow> nat \<Rightarrow> vmm \<Rightarrow> u32 set \<Rightarrow> bool" where
  "vheld start T v A \<longleftrightarrow> finite A \<and> card A \<le> T \<and> owns start (phys v) A (T - card A)"

definition keeps :: "u32 set \<Rightarrow> vmm \<Rightarrow> vmm \<Rightarrow> bool" where
  "keeps X v w \<longleftrightarrow> (\<forall>a. framedown a \<notin> X \<longrightarrow> mem (phys w) a = mem (phys v) a)"

lemma keeps_refl [simp]: "keeps X v v"
  by (simp add: keeps_def)

lemma keeps_trans: "keeps X u v \<Longrightarrow> keeps Y v w \<Longrightarrow> X \<subseteq> Z \<Longrightarrow> Y \<subseteq> Z \<Longrightarrow> keeps Z u w"
  unfolding keeps_def by (metis subsetD)

lemma keeps_trans1 [trans]: "keeps X u v \<Longrightarrow> keeps X v w \<Longrightarrow> keeps X u w"
  by (simp add: keeps_def)

lemma keeps_mono: "keeps X v w \<Longrightarrow> X \<subseteq> Y \<Longrightarrow> keeps Y v w"
  unfolding keeps_def by blast

lemma rd_keeps:
  "keeps X v w \<Longrightarrow> offset p = 0 \<Longrightarrow> p \<notin> X \<Longrightarrow> i < 1024 \<Longrightarrow> rd w p i = rd v p i"
  unfolding keeps_def rd_def using framedown_entry by metis

lemma rd_wr:
  assumes "offset p = 0" "offset q = 0" "i < 1024" "j < 1024"
  shows "rd (wr v p i x) q j = (if p = q \<and> i = j then x else rd v q j)"
  unfolding rd_def wr_def using entry_inj [OF assms]
  by (auto simp: pm.word_put simp del: of_nat_mult)

lemma keeps_wr: "offset p = 0 \<Longrightarrow> i < 1024 \<Longrightarrow> keeps {p} v (wr v p i x)"
  unfolding keeps_def wr_def
  by (auto simp: pm.word_put framedown_entry simp del: of_nat_mult)

lemma wr_sel [simp]: "shared (wr v p i x) = shared v" "kConfig (wr v p i x) = kConfig v"
  "cr3 (wr v p i x) = cr3 v" "invlpgs (wr v p i x) = invlpgs v"
  by (simp_all add: wr_def)

lemma is_special_cong: "kConfig v = kConfig w \<Longrightarrow> is_special v va = is_special w va"
  by (simp add: is_special_def)

lemma is_special_wr [simp]: "is_special (wr v p i x) va = is_special v va"
  by (simp add: is_special_def)

lemma vheld_aligned: "vheld start T v A \<Longrightarrow> p \<in> A \<Longrightarrow> offset p = 0"
  unfolding vheld_def using pm.held_aligned by blast

lemma vheld_wr: "vheld start T v A \<Longrightarrow> p \<in> A \<Longrightarrow> i < 1024 \<Longrightarrow> vheld start T (wr v p i x) A"
  unfolding vheld_def wr_def
  using pm.held_aligned [of start "phys v" A] pm.put_held [of start "phys v" A]
  by (auto simp: framedown_entry simp del: of_nat_mult)

lemma vheld_cong: "vheld start T v A \<Longrightarrow> phys w = phys v \<Longrightarrow> vheld start T w A"
  by (simp add: vheld_def)

definition same_env :: "vmm \<Rightarrow> vmm \<Rightarrow> bool" where
  "same_env v w \<longleftrightarrow> shared w = shared v \<and> kConfig w = kConfig v \<and> cr3 w = cr3 v"

lemma same_env_simps [simp]: "same_env v v" "same_env v (wr w p i x) = same_env v w"
  "same_env v (invlpg w va) = same_env v w" "same_env v (w\<lparr>phys := s\<rparr>) = same_env v w"
  by (simp_all add: same_env_def invlpg_def)

lemma same_env_trans: "same_env u v \<Longrightarrow> same_env v w \<Longrightarrow> same_env u w"
  by (simp add: same_env_def)

lemma same_env_special: "same_env v w \<Longrightarrow> is_special w va = is_special v va"
  by (simp add: same_env_def is_special_def)

lemma valloc_ok:
  assumes "vheld start T v A" "card A < T"
  shows "\<exists>p w. valloc v = Inr (p, w) \<and> p \<notin> A \<and> p \<noteq> 0 \<and> offset p = 0 \<and> vheld start T w (insert p A) \<and>
    (\<forall>i < 1024. rd w p i = 0) \<and> (\<forall>a. framedown a = p \<longrightarrow> mem (phys w) a = 0) \<and>
    keeps {p} v w \<and> same_env v w \<and> invlpgs w = invlpgs v"
proof -
  have o: "owns start (phys v) A (Suc (T - Suc (card A)))" and f: "finite A"
    using assms by (auto simp: vheld_def Suc_diff_Suc)
  obtain p s where ps: "alloc_frame (phys v) = Inr (p, s)" "p \<notin> A" "p \<noteq> 0" "offset p = 0"
      "owns start s (insert p A) (T - Suc (card A))" "\<forall>a. framedown a = p \<longrightarrow> mem s a = 0"
      "\<forall>a. framedown a \<noteq> p \<longrightarrow> mem s a = mem (phys v) a"
    using pm.alloc_ok [OF o] by blast
  then show ?thesis using assms f
    by (intro exI [of _ p] exI [of _ "v\<lparr>phys := s\<rparr>"])
      (auto simp: valloc_def vheld_def keeps_def rd_def framedown_entry simp del: of_nat_mult)
qed

lemma valloc_none:
  assumes "vheld start T v A" "card A = T"
  shows "valloc v = Inl (Panic ''no more frames'')"
  using assms pm.alloc_none [of start "phys v" A] by (simp add: vheld_def valloc_def)

lemma vdealloc_ok:
  assumes "vheld start T v A" "p \<in> A"
  shows "\<exists>w. vdealloc v p = Inr w \<and> vheld start T w (A - {p}) \<and> keeps {p} v w \<and>
    same_env v w \<and> invlpgs w = invlpgs v"
proof -
  have o: "owns start (phys v) A (T - card A)" and f: "finite A" "card A \<le> T" "0 < card A"
    using assms by (auto simp: vheld_def card_gt_0_iff)
  have c: "Suc (T - card A) = T - card (A - {p})" using f assms(2) by simp
  obtain s where "dealloc_frame (phys v) p = Inr s" "owns start s (A - {p}) (T - card (A - {p}))"
      "\<forall>a. framedown a \<noteq> p \<longrightarrow> mem s a = mem (phys v) a"
    using pm.dealloc_ok [OF o assms(2)] unfolding c by blast
  then show ?thesis using assms f
    by (intro exI [of _ "v\<lparr>phys := s\<rparr>"]) (simp add: vdealloc_def vheld_def keeps_def)
qed

section \<open>Translation\<close>

text \<open>
  \<open>tbl v p i\<close>: the frame entry \<open>i\<close> of the table in frame \<open>p\<close> points to, if it is present.
  \<open>lookup\<close> is the processor's translation of an address to a frame.
\<close>

definition tbl :: "vmm \<Rightarrow> u32 \<Rightarrow> nat \<Rightarrow> u32 option" where
  "tbl v p i = (if rd v p i AND 1 = 0 then None else Some (framedown (rd v p i)))"

definition lookup :: "vmm \<Rightarrow> u32 \<Rightarrow> u32 \<Rightarrow> u32 option" where
  "lookup v pd va =
     (case tbl v pd (pdi_of va) of None \<Rightarrow> None | Some t \<Rightarrow> tbl v t (pti_of va))"

text \<open>A page directory whose tables are held, and used by one of its entries only.\<close>

definition pd_wf :: "vmm \<Rightarrow> u32 set \<Rightarrow> u32 \<Rightarrow> bool" where
  "pd_wf v A pd \<longleftrightarrow> pd \<in> A \<and>
     (\<forall>i < 1024. \<forall>t. tbl v pd i = Some t \<longrightarrow> t \<in> A \<and> t \<noteq> pd \<and>
        (\<forall>j < 1024. tbl v pd j = Some t \<longrightarrow> j = i))"

lemma tbl_keeps:
  "keeps X v w \<Longrightarrow> offset p = 0 \<Longrightarrow> p \<notin> X \<Longrightarrow> i < 1024 \<Longrightarrow> tbl w p i = tbl v p i"
  by (simp add: tbl_def rd_keeps)

lemma tbl_wr:
  assumes "offset p = 0" "offset q = 0" "i < 1024" "j < 1024"
  shows "tbl (wr v p i x) q j =
    (if p = q \<and> i = j then (if x AND 1 = 0 then None else Some (framedown x)) else tbl v q j)"
  by (auto simp: tbl_def rd_wr assms)

lemma tbl_aligned: "tbl v p i = Some t \<Longrightarrow> offset t = 0"
  by (auto simp: tbl_def split: if_splits)

section \<open>Mapping\<close>

lemma pd_wfD:
  assumes "pd_wf v A pd"
  shows "pd \<in> A" "i < 1024 \<Longrightarrow> tbl v pd i = Some t \<Longrightarrow> t \<in> A"
    "i < 1024 \<Longrightarrow> tbl v pd i = Some t \<Longrightarrow> t \<noteq> pd"
    "i < 1024 \<Longrightarrow> j < 1024 \<Longrightarrow> tbl v pd i = Some t \<Longrightarrow> tbl v pd j = Some t \<Longrightarrow> i = j"
  using assms unfolding pd_wf_def by blast+

definition leaf_num :: "vmm \<Rightarrow> u32 \<Rightarrow> u32" where
  "leaf_num v va = (if is_special v va then 3 else 7)"

lemma leaf_num_simps [simp]: "odd (a OR leaf_num v va)" "framedown (a OR leaf_num v va) = framedown a"
  by (simp_all add: leaf_num_def framedown_or)

lemma map_present:
  assumes h: "vheld start T v A" and wf: "pd_wf v A pd" and t: "tbl v pd (pdi_of va) = Some t"
  shows "map_page v pd va pa = Inr (wr v t (pti_of va) (pa OR leaf_num v va))"
    and "vheld start T (wr v t (pti_of va) (pa OR leaf_num v va)) A"
    and "pd_wf (wr v t (pti_of va) (pa OR leaf_num v va)) A pd"
    and "i < 1024 \<Longrightarrow> tbl (wr v t (pti_of va) (pa OR leaf_num v va)) pd i = tbl v pd i"
proof -
  note D = pd_wfD [OF wf]
  have t': "t \<in> A" "t \<noteq> pd" using D(2,3) [OF _ t] by simp_all
  have o: "offset t = 0" "offset pd = 0" using vheld_aligned [OF h] t' D(1) by blast+
  have rd: "rd v pd (pdi_of va) AND 1 \<noteq> 0" "framedown (rd v pd (pdi_of va)) = t"
    using t by (auto simp: tbl_def split: if_splits)
  show "map_page v pd va pa = Inr (wr v t (pti_of va) (pa OR leaf_num v va))"
    unfolding map_page_def Let_def using rd by (simp add: framedown_alt leaf_num_def del: and_one_eq)
  show "vheld start T (wr v t (pti_of va) (pa OR leaf_num v va)) A"
    using h t' by (simp add: vheld_wr)
  have *: "i < 1024 \<Longrightarrow> tbl (wr v t (pti_of va) (pa OR leaf_num v va)) pd i = tbl v pd i" for i
    using o t' by (simp add: tbl_wr)
  then show "i < 1024 \<Longrightarrow> tbl (wr v t (pti_of va) (pa OR leaf_num v va)) pd i = tbl v pd i" .
  show "pd_wf (wr v t (pti_of va) (pa OR leaf_num v va)) A pd"
    using wf unfolding pd_wf_def by (simp add: *)
qed

lemma map_absent:
  assumes h: "vheld start T v A" and wf: "pd_wf v A pd" and t: "tbl v pd (pdi_of va) = None"
    and room: "card A < T"
  shows "\<exists>t w. map_page v pd va pa = Inr w \<and> t \<notin> A \<and> offset t = 0 \<and> vheld start T w (insert t A) \<and>
    pd_wf w (insert t A) pd \<and> same_env v w \<and> invlpgs w = invlpgs v \<and> keeps {pd, t} v w \<and>
    rd w pd (pdi_of va) = t OR leaf_num v va \<and>
    (\<forall>i < 1024. i \<noteq> pdi_of va \<longrightarrow> rd w pd i = rd v pd i) \<and>
    (\<forall>j < 1024. rd w t j = (if j = pti_of va then pa OR leaf_num v va else 0))"
proof -
  note D = pd_wfD [OF wf]
  obtain t v1 where a: "valloc v = Inr (t, v1)" "t \<notin> A" "offset t = 0" "vheld start T v1 (insert t A)"
      "\<forall>i < 1024. rd v1 t i = 0" "keeps {t} v v1" "same_env v v1" "invlpgs v1 = invlpgs v"
    using valloc_ok [OF h room] by blast
  let ?n = "leaf_num v va"
  let ?v2 = "wr v1 pd (pdi_of va) (t OR ?n)"
  let ?w = "wr ?v2 t (pti_of va) (pa OR ?n)"
  have o: "offset pd = 0" "pd \<noteq> t" using vheld_aligned [OF h] D(1) a(2) by blast+
  have rd0: "rd v pd (pdi_of va) AND 1 = 0" using t by (auto simp: tbl_def split: if_splits)
  have eq: "map_page v pd va pa = Inr ?w"
    unfolding map_page_def Let_def leaf_num_def [symmetric]
    using rd0 a(1,3) by (simp add: framedown_alt)
  have hw: "vheld start T ?w (insert t A)"
    using a(4) D(1) by (simp add: vheld_wr)
  have rdpd: "i < 1024 \<Longrightarrow> rd ?w pd i = (if i = pdi_of va then t OR ?n else rd v pd i)" for i
    using o a(3) rd_keeps [OF a(6) o(1), of i] by (auto simp: rd_wr)
  have rdt: "j < 1024 \<Longrightarrow> rd ?w t j = (if j = pti_of va then pa OR ?n else 0)" for j
    using o a(3,5) by (auto simp: rd_wr)
  have tpd: "i < 1024 \<Longrightarrow> tbl ?w pd i = (if i = pdi_of va then Some t else tbl v pd i)" for i
    using a(3) by (auto simp: tbl_def rdpd absent_iff)
  have "pd_wf ?w (insert t A) pd"
    using D a(2) o unfolding pd_wf_def by (auto simp: tpd split: if_splits)
  moreover have "keeps {pd, t} v ?w"
  proof (rule keeps_trans1 [OF keeps_trans1])
    show "keeps {pd, t} v v1" using a(6) by (rule keeps_mono) auto
    show "keeps {pd, t} v1 ?v2" using keeps_wr [OF o(1) pdi_lt] by (rule keeps_mono) auto
    show "keeps {pd, t} ?v2 ?w" using keeps_wr [OF a(3) pti_lt] by (rule keeps_mono) auto
  qed
  ultimately show ?thesis
    using eq a hw rdpd rdt by (intro exI [of _ t] exI [of _ ?w]) auto
qed

lemma lookup_none_pd: "tbl v pd (pdi_of va) = None \<Longrightarrow> lookup v pd va = None"
  by (simp add: lookup_def)

text \<open>The effect of \<^verbatim>\<open>map\<close>, whether or not the table was there before.\<close>

lemma map_ok:
  assumes h: "vheld start T v A" and wf: "pd_wf v A pd" and pa: "offset pa = 0"
    and room: "tbl v pd (pdi_of va) = None \<longrightarrow> card A < T"
  shows "\<exists>t w B. map_page v pd va pa = Inr w \<and> vheld start T w B \<and> pd_wf w B pd \<and>
    B = insert t A \<and> (tbl v pd (pdi_of va) = Some t \<or> tbl v pd (pdi_of va) = None \<and> t \<notin> A) \<and> t \<noteq> pd \<and>
    tbl w pd (pdi_of va) = Some t \<and> (\<forall>i < 1024. i \<noteq> pdi_of va \<longrightarrow> tbl w pd i = tbl v pd i) \<and>
    (\<forall>j < 1024. tbl w t j = (if j = pti_of va then Some pa
                          else if tbl v pd (pdi_of va) = None then None else tbl v t j)) \<and>
    keeps {pd, t} v w \<and> same_env v w \<and> invlpgs w = invlpgs v"
proof (cases "tbl v pd (pdi_of va)")
  case (Some t)
  note M = map_present [OF h wf Some, where pa = pa]
  have t: "t \<in> A" "t \<noteq> pd" "offset t = 0"
    using pd_wfD(2,3) [OF wf _ Some] vheld_aligned [OF h] by auto
  let ?w = "wr v t (pti_of va) (pa OR leaf_num v va)"
  have "keeps {pd, t} v ?w" using keeps_wr [OF t(3) pti_lt] by (rule keeps_mono) auto
  then show ?thesis
    using M t Some pa
    by (intro exI [of _ t] exI [of _ ?w] exI [of _ A]) (auto simp: tbl_wr absent_iff)
next
  case None
  then have room': "card A < T" using room by simp
  obtain t w where M: "map_page v pd va pa = Inr w" "t \<notin> A" "offset t = 0" "vheld start T w (insert t A)"
    "pd_wf w (insert t A) pd" "same_env v w" "invlpgs w = invlpgs v" "keeps {pd, t} v w"
    "rd w pd (pdi_of va) = t OR leaf_num v va"
    "\<forall>i < 1024. i \<noteq> pdi_of va \<longrightarrow> rd w pd i = rd v pd i"
    "\<forall>j < 1024. rd w t j = (if j = pti_of va then pa OR leaf_num v va else 0)"
    using map_absent [OF h wf None room'] by blast
  have "t \<noteq> pd" using M(2) pd_wfD(1) [OF wf] by auto
  then show ?thesis
    using M None pa
    by (intro exI [of _ t] exI [of _ w] exI [of _ "insert t A"]) (auto simp: tbl_def absent_iff)
qed

section \<open>Address spaces\<close>

text \<open>
  \<open>leaf v pd i j\<close> is the private frame mapped by entry \<open>j\<close> of table \<open>i\<close>. An address
  space is a page directory whose private leaf frames are held, and used once only.
  \<open>priv\<close> are the frames that belong to it: the directory, the tables of the upper half
  and the private leaf frames.
\<close>

definition leaf :: "vmm \<Rightarrow> u32 \<Rightarrow> nat \<Rightarrow> nat \<Rightarrow> u32 option" where
  "leaf v pd i j =
     (case tbl v pd i of None \<Rightarrow> None
      | Some t \<Rightarrow> if is_special v (va_of i j) then None else tbl v t j)"

definition leaves :: "vmm \<Rightarrow> u32 \<Rightarrow> nat \<Rightarrow> nat \<Rightarrow> u32 set" where
  "leaves v pd i n = {f. \<exists>j < n. leaf v pd i j = Some f}"

definition rows :: "vmm \<Rightarrow> u32 \<Rightarrow> nat \<Rightarrow> u32 set" where
  "rows v pd n = {f. \<exists>i. 512 \<le> i \<and> i < n \<and> (f \<in> leaves v pd i 1024 \<or> tbl v pd i = Some f)}"

definition priv :: "vmm \<Rightarrow> u32 \<Rightarrow> u32 set" where
  "priv v pd = insert pd (rows v pd 1024)"

definition aspace :: "vmm \<Rightarrow> u32 set \<Rightarrow> u32 \<Rightarrow> bool" where
  "aspace v A pd \<longleftrightarrow> pd_wf v A pd \<and>
     (\<forall>i < 1024. 512 \<le> i \<longrightarrow> (\<forall>j < 1024. \<forall>f. leaf v pd i j = Some f \<longrightarrow>
        f \<in> A \<and> f \<noteq> pd \<and> (\<forall>i' < 1024. tbl v pd i' \<noteq> Some f) \<and>
        (\<forall>i' < 1024. 512 \<le> i' \<longrightarrow> (\<forall>j' < 1024. leaf v pd i' j' = Some f \<longrightarrow> i' = i \<and> j' = j))))"

lemma aspaceD:
  assumes "aspace v A pd"
  shows "pd_wf v A pd"
    "512 \<le> i \<Longrightarrow> i < 1024 \<Longrightarrow> j < 1024 \<Longrightarrow> leaf v pd i j = Some f \<Longrightarrow> f \<in> A"
    "512 \<le> i \<Longrightarrow> i < 1024 \<Longrightarrow> j < 1024 \<Longrightarrow> leaf v pd i j = Some f \<Longrightarrow> f \<noteq> pd"
    "512 \<le> i \<Longrightarrow> i < 1024 \<Longrightarrow> j < 1024 \<Longrightarrow> leaf v pd i j = Some f \<Longrightarrow> i' < 1024 \<Longrightarrow>
       tbl v pd i' = Some f \<Longrightarrow> False"
    "512 \<le> i \<Longrightarrow> i < 1024 \<Longrightarrow> j < 1024 \<Longrightarrow> leaf v pd i j = Some f \<Longrightarrow> 512 \<le> i' \<Longrightarrow> i' < 1024 \<Longrightarrow>
       j' < 1024 \<Longrightarrow> leaf v pd i' j' = Some f \<Longrightarrow> i' = i \<and> j' = j"
  using assms unfolding aspace_def by blast+

lemma aspaceI:
  assumes "pd_wf v A pd"
    and "\<And>i j f. 512 \<le> i \<Longrightarrow> i < 1024 \<Longrightarrow> j < 1024 \<Longrightarrow> leaf v pd i j = Some f \<Longrightarrow>
      f \<in> A \<and> f \<noteq> pd \<and> (\<forall>i' < 1024. tbl v pd i' \<noteq> Some f)"
    and "\<And>i j i' j' f. 512 \<le> i \<Longrightarrow> i < 1024 \<Longrightarrow> j < 1024 \<Longrightarrow> leaf v pd i j = Some f \<Longrightarrow>
      512 \<le> i' \<Longrightarrow> i' < 1024 \<Longrightarrow> j' < 1024 \<Longrightarrow> leaf v pd i' j' = Some f \<Longrightarrow> i' = i \<and> j' = j"
  shows "aspace v A pd"
  using assms unfolding aspace_def by blast

lemma leaves_Suc:
  "leaves v pd i (Suc n) = leaves v pd i n \<union> set_option (leaf v pd i n)"
  by (auto simp: leaves_def less_Suc_eq)

lemma rows_Suc:
  "512 \<le> n \<Longrightarrow> rows v pd (Suc n) = rows v pd n \<union> leaves v pd n 1024 \<union> set_option (tbl v pd n)"
  by (auto simp: rows_def less_Suc_eq)

lemma leaves_0 [simp]: "leaves v pd i 0 = {}"
  by (simp add: leaves_def)

lemma rows_512 [simp]: "rows v pd 512 = {}"
  by (auto simp: rows_def)

lemma leaves_subset: "n \<le> 1024 \<Longrightarrow> leaves v pd i n \<subseteq> leaves v pd i 1024"
  by (auto simp: leaves_def intro: less_le_trans)

lemma aspace_disjoint:
  assumes as: "aspace v A pd" and i: "512 \<le> i" "i < 1024"
  shows "pd \<notin> leaves v pd i 1024" "i' < 1024 \<Longrightarrow> tbl v pd i' = Some t \<Longrightarrow> t \<notin> leaves v pd i 1024"
    "pd \<notin> rows v pd i" "tbl v pd i = Some t \<Longrightarrow> t \<notin> rows v pd i"
    "j < 1024 \<Longrightarrow> leaf v pd i j = Some f \<Longrightarrow> f \<notin> rows v pd i"
    "leaves v pd i 1024 \<inter> rows v pd i = {}"
proof -
  note A = aspaceD [OF as] and D = pd_wfD [OF aspaceD(1) [OF as]]
  show "pd \<notin> leaves v pd i 1024" using A(3) i by (auto simp: leaves_def)
  show "i' < 1024 \<Longrightarrow> tbl v pd i' = Some t \<Longrightarrow> t \<notin> leaves v pd i 1024"
    using A(4) i by (auto simp: leaves_def)
  show "pd \<notin> rows v pd i"
  proof
    assume "pd \<in> rows v pd i"
    then obtain i' where i': "512 \<le> i'" "i' < i" "pd \<in> leaves v pd i' 1024 \<or> tbl v pd i' = Some pd"
      by (auto simp: rows_def)
    then show False using A(3) [of i' _ pd] D(3) [of i' pd] i by (auto simp: leaves_def)
  qed
  show "tbl v pd i = Some t \<Longrightarrow> t \<notin> rows v pd i"
  proof
    assume t: "tbl v pd i = Some t" and "t \<in> rows v pd i"
    then obtain i' where i': "512 \<le> i'" "i' < i" "t \<in> leaves v pd i' 1024 \<or> tbl v pd i' = Some t"
      by (auto simp: rows_def)
    then show False using A(4) [of i' _ t i] D(4) [of i i' t] t i by (auto simp: leaves_def)
  qed
  show *: "j < 1024 \<Longrightarrow> leaf v pd i j = Some f \<Longrightarrow> f \<notin> rows v pd i" for j f
  proof
    assume f: "j < 1024" "leaf v pd i j = Some f" and "f \<in> rows v pd i"
    then obtain i' where i': "512 \<le> i'" "i' < i" "f \<in> leaves v pd i' 1024 \<or> tbl v pd i' = Some f"
      by (auto simp: rows_def)
    then show False using A(4) [OF i f, of i'] A(5) [OF i f, of i'] i by (auto simp: leaves_def)
  qed
  show "leaves v pd i 1024 \<inter> rows v pd i = {}"
    using * by (auto simp: leaves_def)
qed

section \<open>Deleting an address space\<close>

lemma leaf_rd:
  "tbl v pd i = Some t \<Longrightarrow> leaf v pd i j =
    (if rd v t j AND 1 = 0 \<or> is_special v (va_of i j) then None else Some (framedown (rd v t j)))"
  by (simp add: leaf_def tbl_def)

lemma free_entries:
  assumes as: "aspace v A pd" and i: "512 \<le> i" "i < 1024" and t: "tbl v pd i = Some t"
    and h: "vheld start T w B" and sub: "leaves v pd i 1024 \<subseteq> B" and t0: "t \<in> B"
    and row: "\<forall>j < 1024. rd w t j = rd v t j" and env: "same_env v w"
  shows "\<exists>w'. foldM (free_entry t i) [0..<1024] w = Inr w' \<and>
    vheld start T w' (B - leaves v pd i 1024) \<and> keeps (leaves v pd i 1024) w w' \<and> same_env v w' \<and>
    invlpgs w' = invlpgs w"
proof (rule foldM_upt_inv [where P = "\<lambda>k w'. vheld start T w' (B - leaves v pd i k) \<and>
    keeps (leaves v pd i k) w w' \<and> same_env v w' \<and> invlpgs w' = invlpgs w"])
  fix k w' assume k: "k < 1024" and inv: "vheld start T w' (B - leaves v pd i k) \<and>
    keeps (leaves v pd i k) w w' \<and> same_env v w' \<and> invlpgs w' = invlpgs w"
  have tn: "t \<notin> leaves v pd i k"
    using aspace_disjoint(2) [OF as i i(2) t] leaves_subset [of k v pd i] k by auto
  have o: "offset t = 0" using vheld_aligned [OF h t0] .
  have rd: "rd w' t k = rd v t k"
    using rd_keeps [of "leaves v pd i k" w w' t k] inv o tn k row by simp
  have sp: "is_special w' va = is_special v va" for va using inv same_env_special by blast
  show "\<exists>s'. free_entry t i k w' = Inr s' \<and> vheld start T s' (B - leaves v pd i (Suc k)) \<and>
    keeps (leaves v pd i (Suc k)) w s' \<and> same_env v s' \<and> invlpgs s' = invlpgs w"
  proof (cases "leaf v pd i k")
    case None
    then have "free_entry t i k w' = Inr w'"
      unfolding free_entry_def Let_def rd sp leaf_rd [OF t] by (auto split: if_splits)
    then show ?thesis using inv None by (simp add: leaves_Suc)
  next
    case (Some f)
    then have fe: "free_entry t i k w' = vdealloc w' f"
      unfolding free_entry_def Let_def rd sp leaf_rd [OF t] framedown_alt by (auto split: if_splits)
    have "f \<in> leaves v pd i 1024" using Some k by (auto simp: leaves_def)
    moreover have "f \<notin> leaves v pd i k"
      using aspaceD(5) [OF as i k Some i] k by (auto simp: leaves_def dest: less_trans)
    ultimately have f: "f \<in> B - leaves v pd i k" using sub by auto
    obtain s' where s': "vdealloc w' f = Inr s'" "vheld start T s' (B - leaves v pd i k - {f})"
      "keeps {f} w' s'" "same_env w' s'" "invlpgs s' = invlpgs w'"
      using vdealloc_ok [OF conjunct1 [OF inv] f] by blast
    have eq: "B - leaves v pd i k - {f} = B - leaves v pd i (Suc k)"
      by (auto simp: leaves_Suc Some)
    have "keeps (leaves v pd i (Suc k)) w s'"
      by (rule keeps_trans [OF conjunct1 [OF conjunct2 [OF inv]] s'(3)]) (auto simp: leaves_Suc Some)
    then show ?thesis using fe s' inv same_env_trans [of v w' s'] unfolding eq by simp
  qed
qed (use h env in auto)

lemma leaves_sub: "aspace v A pd \<Longrightarrow> 512 \<le> i \<Longrightarrow> i < 1024 \<Longrightarrow> leaves v pd i 1024 \<subseteq> A"
  using aspaceD(2) by (fastforce simp: leaves_def)

lemma leaves_None: "tbl v pd i = None \<Longrightarrow> leaves v pd i n = {}"
  by (simp add: leaves_def leaf_def)

lemma free_tables:
  assumes as: "aspace v A pd" and h: "vheld start T v A"
  shows "\<exists>w. foldM (free_table pd) [512..<1024] v = Inr w \<and>
    vheld start T w (A - rows v pd 1024) \<and> keeps (rows v pd 1024) v w \<and> same_env v w \<and>
    invlpgs w = invlpgs v"
proof (rule foldM_upt_inv [where P = "\<lambda>n w. vheld start T w (A - rows v pd n) \<and>
    keeps (rows v pd n) v w \<and> same_env v w \<and> invlpgs w = invlpgs v"])
  fix n w assume n: "512 \<le> n" "n < 1024" and inv: "vheld start T w (A - rows v pd n) \<and>
    keeps (rows v pd n) v w \<and> same_env v w \<and> invlpgs w = invlpgs v"
  note dis = aspace_disjoint [OF as n] and D = pd_wfD [OF aspaceD(1) [OF as]]
  have o: "offset pd = 0" using vheld_aligned [OF h D(1)] .
  have rdpd: "rd w pd n = rd v pd n"
    using rd_keeps [of "rows v pd n" v w pd n] inv o dis(3) n by simp
  show "\<exists>s'. free_table pd n w = Inr s' \<and> vheld start T s' (A - rows v pd (Suc n)) \<and>
    keeps (rows v pd (Suc n)) v s' \<and> same_env v s' \<and> invlpgs s' = invlpgs v"
  proof (cases "tbl v pd n")
    case None
    then have "free_table pd n w = Inr w"
      unfolding free_table_def Let_def rdpd by (auto simp: tbl_def split: if_splits)
    then show ?thesis using inv None n by (simp add: rows_Suc leaves_None)
  next
    case (Some t)
    have ot: "offset t = 0" using tbl_aligned Some .
    have t: "t \<in> A - rows v pd n" using D(2) [OF n(2) Some] dis(4) [OF Some] by simp
    have row: "\<forall>j < 1024. rd w t j = rd v t j"
      using rd_keeps [of "rows v pd n" v w t] inv ot t by simp
    have sub: "leaves v pd n 1024 \<subseteq> A - rows v pd n"
      using leaves_sub [OF as n] dis(6) by auto
    obtain w1 where w1: "foldM (free_entry t n) [0..<1024] w = Inr w1"
      "vheld start T w1 (A - rows v pd n - leaves v pd n 1024)" "keeps (leaves v pd n 1024) w w1"
      "same_env v w1" "invlpgs w1 = invlpgs w"
      using free_entries [OF as n Some conjunct1 [OF inv] sub t row] inv by blast
    have t1: "t \<in> A - rows v pd n - leaves v pd n 1024" using t dis(2) [OF n(2) Some] by simp
    obtain w2 where w2: "vdealloc w1 t = Inr w2"
      "vheld start T w2 (A - rows v pd n - leaves v pd n 1024 - {t})" "keeps {t} w1 w2"
      "same_env w1 w2" "invlpgs w2 = invlpgs w1"
      using vdealloc_ok [OF w1(2) t1] by blast
    have eq: "A - rows v pd n - leaves v pd n 1024 - {t} = A - rows v pd (Suc n)"
      using n by (auto simp: rows_Suc Some)
    have "free_table pd n w = Inr w2"
      unfolding free_table_def Let_def rdpd using Some w1(1) w2(1)
      by (auto simp: tbl_def framedown_alt split: if_splits)
    moreover have "keeps (rows v pd (Suc n)) v w2"
    proof (rule keeps_trans1 [OF keeps_trans1])
      show "keeps (rows v pd (Suc n)) v w"
        using conjunct1 [OF conjunct2 [OF inv]] by (rule keeps_mono) (use n in \<open>auto simp: rows_Suc\<close>)
      show "keeps (rows v pd (Suc n)) w w1"
        using w1(3) by (rule keeps_mono) (use n in \<open>auto simp: rows_Suc\<close>)
      show "keeps (rows v pd (Suc n)) w1 w2"
        using w2(3) by (rule keeps_mono) (use n Some in \<open>auto simp: rows_Suc\<close>)
    qed
    ultimately show ?thesis
      using w1(5) w2(2,5) inv same_env_trans [OF w1(4) w2(4)] unfolding eq by simp
  qed
qed (use h in auto)

lemma pd_notin_rows: "aspace v A pd \<Longrightarrow> pd \<notin> rows v pd 1024"
  using aspace_disjoint(1,3) [of v A pd 1023] pd_wfD(3) [OF aspaceD(1), of v A pd 1023 pd]
  using rows_Suc [of 1023 v pd] by auto

lemma delete_pd_ok:
  assumes as: "aspace v A pd" and h: "vheld start T v A" and c: "pd \<noteq> cr3 v"
  shows "\<exists>w. delete_pd v pd = Inr w \<and> vheld start T w (A - priv v pd) \<and> keeps (priv v pd) v w \<and>
    same_env v w \<and> invlpgs w = invlpgs v"
proof -
  obtain w1 where w1: "foldM (free_table pd) [512..<1024] v = Inr w1"
    "vheld start T w1 (A - rows v pd 1024)" "keeps (rows v pd 1024) v w1" "same_env v w1"
    "invlpgs w1 = invlpgs v"
    using free_tables [OF as h] by blast
  have "pd \<in> A - rows v pd 1024"
    using pd_wfD(1) [OF aspaceD(1) [OF as]] pd_notin_rows [OF as] by simp
  then obtain w2 where w2: "vdealloc w1 pd = Inr w2" "vheld start T w2 (A - rows v pd 1024 - {pd})"
    "keeps {pd} w1 w2" "same_env w1 w2" "invlpgs w2 = invlpgs w1"
    using vdealloc_ok [OF w1(2)] by blast
  have "A - rows v pd 1024 - {pd} = A - priv v pd" by (auto simp: priv_def)
  moreover have "keeps (priv v pd) v w2"
    by (rule keeps_trans [OF w1(3) w2(3)]) (auto simp: priv_def)
  ultimately show ?thesis using w1(1,4,5) w2 c same_env_trans [OF w1(4) w2(4)]
    by (simp add: delete_pd_def)
qed

end
