(* ===== verification/Vmm_Spaces.thy ===== *)
theory Vmm_Spaces
  imports Vmm_Correct
begin

unbundle bit_operations_syntax

text \<open>
  How mapping a page, a page fault, creating an address space and clearing one change the
  translation, and that they keep address spaces well formed and apart from each other.
\<close>

section \<open>Translation after mapping a page\<close>

lemma map_lookup:
  assumes h: "vheld start T v A" and wf: "pd_wf v A pd" and pa: "offset pa = 0"
    and room: "tbl v pd (pdi_of va) = None \<longrightarrow> card A < T"
  shows "\<exists>t w. map_page v pd va pa = Inr w \<and> vheld start T w (insert t A) \<and> pd_wf w (insert t A) pd \<and>
    (tbl v pd (pdi_of va) = Some t \<or> tbl v pd (pdi_of va) = None \<and> t \<notin> A) \<and> t \<noteq> pd \<and> offset t = 0 \<and>
    (\<forall>i < 1024. tbl w pd i = (if i = pdi_of va then Some t else tbl v pd i)) \<and>
    (\<forall>va'. lookup w pd va' = (if framedown va' = framedown va then Some pa else lookup v pd va')) \<and>
    keeps {pd, t} v w \<and> same_env v w \<and> invlpgs w = invlpgs v"
proof -
  obtain t w where M: "map_page v pd va pa = Inr w" "vheld start T w (insert t A)"
    "pd_wf w (insert t A) pd" "tbl v pd (pdi_of va) = Some t \<or> tbl v pd (pdi_of va) = None \<and> t \<notin> A" "t \<noteq> pd"
    "tbl w pd (pdi_of va) = Some t" "\<forall>i < 1024. i \<noteq> pdi_of va \<longrightarrow> tbl w pd i = tbl v pd i"
    "\<forall>j < 1024. tbl w t j = (if j = pti_of va then Some pa
                          else if tbl v pd (pdi_of va) = None then None else tbl v t j)"
    "keeps {pd, t} v w" "same_env v w" "invlpgs w = invlpgs v"
    using map_ok [OF h wf pa room] by blast
  have tbls: "i < 1024 \<Longrightarrow> tbl w pd i = (if i = pdi_of va then Some t else tbl v pd i)" for i
    using M(6,7) by simp
  have other: "tbl w u j = tbl v u j"
    if "i < 1024" "i \<noteq> pdi_of va" "tbl v pd i = Some u" "j < 1024" for i j u
  proof (rule tbl_keeps [OF M(9) _ _ that(4)])
    show "offset u = 0" using tbl_aligned that(3) .
    have "u \<noteq> t" using pd_wfD(4) [OF M(3), of i "pdi_of va" t] tbls that by auto
    then show "u \<notin> {pd, t}" using pd_wfD(3) [OF wf that(1,3)] by simp
  qed
  have look: "lookup w pd va' = (if framedown va' = framedown va then Some pa else lookup v pd va')" for va'
  proof (cases "pdi_of va' = pdi_of va")
    case True
    then have "lookup w pd va' = tbl w t (pti_of va')" by (simp add: lookup_def M(6))
    then show ?thesis using True M(4,8) by (auto simp: same_page_iff lookup_def)
  next
    case False
    then show ?thesis
      using other [of "pdi_of va'" _ "pti_of va'"] tbls [of "pdi_of va'"]
      by (auto simp: same_page_iff lookup_def split: option.splits)
  qed
  show ?thesis
    using M tbls look tbl_aligned [OF M(6)] by (intro exI [of _ t] exI [of _ w]) simp
qed

text \<open>A private leaf entry is the translation of its address.\<close>

lemma leaf_lookup:
  "i < 1024 \<Longrightarrow> j < 1024 \<Longrightarrow>
     leaf v pd i j = (if is_special v (va_of i j) then None else lookup v pd (va_of i j))"
  by (auto simp: leaf_def lookup_def split: option.splits)

lemma map_leaf:
  assumes "\<forall>va'. lookup w pd va' = (if framedown va' = framedown va then Some pa else lookup v pd va')"
    and "same_env v w" "i < 1024" "j < 1024"
  shows "leaf w pd i j = (if va_of i j = framedown va \<and> \<not> is_special v (va_of i j) then Some pa
                        else leaf v pd i j)"
  using assms by (auto simp: leaf_lookup same_env_special)

lemma va_of_inj: "i < 1024 \<Longrightarrow> j < 1024 \<Longrightarrow> i' < 1024 \<Longrightarrow> j' < 1024 \<Longrightarrow>
    va_of i j = va_of i' j' \<Longrightarrow> i = i' \<and> j = j'"
  by (metis pdi_va_of pti_va_of)

text \<open>Mapping a special page, or a frame not yet in use, keeps an address space well formed.\<close>

definition unused :: "vmm \<Rightarrow> u32 \<Rightarrow> u32 \<Rightarrow> bool" where
  "unused v pd p \<longleftrightarrow> p \<noteq> pd \<and> (\<forall>i < 1024. tbl v pd i \<noteq> Some p) \<and> p \<notin> rows v pd 1024"

lemma map_aspace:
  assumes h: "vheld start T v A" and as: "aspace v A pd" and pa: "offset pa = 0"
    and room: "tbl v pd (pdi_of va) = None \<longrightarrow> card A < T"
    and use: "is_special v (framedown va) \<or> pa \<in> A \<and> unused v pd pa"
  shows "\<exists>t w. map_page v pd va pa = Inr w \<and> vheld start T w (insert t A) \<and> aspace w (insert t A) pd \<and>
    (tbl v pd (pdi_of va) = Some t \<or> tbl v pd (pdi_of va) = None \<and> t \<notin> A) \<and> t \<noteq> pd \<and> offset t = 0 \<and>
    (\<forall>i < 1024. tbl w pd i = (if i = pdi_of va then Some t else tbl v pd i)) \<and>
    (\<forall>va'. lookup w pd va' = (if framedown va' = framedown va then Some pa else lookup v pd va')) \<and>
    keeps {pd, t} v w \<and> same_env v w \<and> invlpgs w = invlpgs v"
proof -
  note wf = aspaceD(1) [OF as]
  obtain t w where M: "map_page v pd va pa = Inr w" "vheld start T w (insert t A)"
    "pd_wf w (insert t A) pd" "tbl v pd (pdi_of va) = Some t \<or> tbl v pd (pdi_of va) = None \<and> t \<notin> A"
    "t \<noteq> pd" "offset t = 0"
    "\<forall>i < 1024. tbl w pd i = (if i = pdi_of va then Some t else tbl v pd i)"
    "\<forall>va'. lookup w pd va' = (if framedown va' = framedown va then Some pa else lookup v pd va')"
    "keeps {pd, t} v w" "same_env v w" "invlpgs w = invlpgs v"
    using map_lookup [OF h wf pa room] by blast
  note lf = map_leaf [OF M(8,10)]
  have cases: "leaf v pd i j = Some f \<or>
      f = pa \<and> va_of i j = framedown va \<and> pa \<in> A \<and> unused v pd pa"
    if "i < 1024" "j < 1024" "leaf w pd i j = Some f" for i j f
    using lf [OF that(1,2)] that(3) use by (auto split: if_splits)
  have old: "f \<in> A \<and> f \<noteq> pd \<and> (\<forall>i' < 1024. tbl v pd i' \<noteq> Some f)"
    if "512 \<le> i" "i < 1024" "j < 1024" "leaf v pd i j = Some f" for i j f
    using aspaceD(2-4) [OF as that] by blast
  have used: "512 \<le> i \<Longrightarrow> i < 1024 \<Longrightarrow> j < 1024 \<Longrightarrow> leaf v pd i j = Some f \<Longrightarrow> unused v pd f \<Longrightarrow> False"
    for i j f by (auto simp: unused_def rows_def leaves_def)
  have "f \<in> insert t A \<and> f \<noteq> pd \<and> (\<forall>i' < 1024. tbl w pd i' \<noteq> Some f)"
    if "512 \<le> i" "i < 1024" "j < 1024" "leaf w pd i j = Some f" for i j f
  proof -
    have *: "f \<in> A \<and> f \<noteq> pd \<and> (\<forall>i' < 1024. tbl v pd i' \<noteq> Some f)"
      using cases [OF that(2-4)] old [OF that(1-3)] by (auto simp: unused_def)
    then have "f \<noteq> t" using M(4) by auto
    then show ?thesis using * M(7) by auto
  qed
  moreover have "i' = i \<and> j' = j"
    if "512 \<le> i" "i < 1024" "j < 1024" "leaf w pd i j = Some f"
      "512 \<le> i'" "i' < 1024" "j' < 1024" "leaf w pd i' j' = Some f" for i j i' j' f
    using cases [OF that(2-4)] cases [OF that(6-8)] aspaceD(5) [OF as that(1-3), of f i' j']
      used [of i j f] used [of i' j' f] va_of_inj [of i' j' i j] that by auto
  ultimately have "aspace w (insert t A) pd"
    unfolding aspace_def using M(3) by blast
  then show ?thesis using M by (intro exI [of _ t] exI [of _ w]) simp
qed

section \<open>What changes elsewhere\<close>

text \<open>The tables an address space's translation reads.\<close>

definition tables :: "vmm \<Rightarrow> u32 \<Rightarrow> u32 set" where
  "tables v pd = insert pd {t. \<exists>i < 1024. tbl v pd i = Some t}"

lemma tbl_stable:
  assumes "keeps X v w" "offset pd = 0" "X \<inter> tables v pd = {}" "i < 1024"
  shows "tbl w pd i = tbl v pd i"
  using assms by (intro tbl_keeps) (auto simp: tables_def)

lemma lookup_stable:
  assumes k: "keeps X v w" and o: "offset pd = 0" and X: "X \<inter> tables v pd = {}"
  shows "lookup w pd va = lookup v pd va"
proof (cases "tbl v pd (pdi_of va)")
  case None
  then show ?thesis using tbl_stable [OF k o X] by (simp add: lookup_def)
next
  case (Some t)
  have "offset t = 0" using tbl_aligned Some .
  moreover have "t \<notin> X" using X Some pdi_lt [of va] unfolding tables_def by blast
  ultimately show ?thesis
    using Some tbl_stable [OF k o X, of "pdi_of va"] tbl_keeps [OF k] by (simp add: lookup_def)
qed

lemma leaf_stable:
  assumes "keeps X v w" "offset pd = 0" "X \<inter> tables v pd = {}" "same_env v w" "i < 1024" "j < 1024"
  shows "leaf w pd i j = leaf v pd i j"
  using assms by (simp add: leaf_lookup lookup_stable same_env_special)

lemma aspace_stable:
  assumes k: "keeps X v w" and X: "X \<inter> tables v pd = {}" and e: "same_env v w"
    and h: "vheld start T v A" and as: "aspace v A pd" and sub: "A \<subseteq> B"
  shows "aspace w B pd" "n \<le> 1024 \<Longrightarrow> rows w pd n = rows v pd n"
proof -
  have o: "offset pd = 0" using vheld_aligned [OF h pd_wfD(1) [OF aspaceD(1) [OF as]]] .
  note t = tbl_stable [OF k o X] and l = leaf_stable [OF k o X e]
  have lv: "i < 1024 \<Longrightarrow> leaves w pd i 1024 = leaves v pd i 1024" for i
    unfolding leaves_def by (intro Collect_cong ex_cong) (simp add: l)
  show "n \<le> 1024 \<Longrightarrow> rows w pd n = rows v pd n"
    unfolding rows_def by (intro Collect_cong ex_cong) (auto simp: t lv)
  have "pd_wf w B pd"
    using aspaceD(1) [OF as] sub unfolding pd_wf_def by (simp add: t subset_iff)
  then show "aspace w B pd"
    using as sub unfolding aspace_def by (simp add: t l subset_iff)
qed

lemma tables_held: "aspace v A pd \<Longrightarrow> tables v pd \<subseteq> A"
  using pd_wfD(1,2) [OF aspaceD(1)] by (fastforce simp: tables_def)

lemma rows_held:
  assumes "aspace v A pd" "n \<le> 1024" shows "rows v pd n \<subseteq> A"
proof
  fix f assume "f \<in> rows v pd n"
  then obtain i where i: "512 \<le> i" "i < n" "f \<in> leaves v pd i 1024 \<or> tbl v pd i = Some f"
    by (auto simp: rows_def)
  then show "f \<in> A"
    using leaves_sub [OF assms(1), of i] pd_wfD(2) [OF aspaceD(1) [OF assms(1)], of i f] assms(2) by auto
qed

lemma priv_held: "aspace v A pd \<Longrightarrow> priv v pd \<subseteq> A"
  using rows_held [of v A pd 1024] pd_wfD(1) [OF aspaceD(1)] by (auto simp: priv_def)

lemma alloc_unused:
  assumes "aspace v A pd" "p \<notin> A" shows "unused v pd p"
  using assms rows_held [OF assms(1), of 1024] pd_wfD(1,2) [OF aspaceD(1) [OF assms(1)]]
  unfolding unused_def by auto

section \<open>Page faults\<close>

lemma page_fault_maps_aux:
  assumes h: "vheld start T v A" and as: "aspace v A pd" and room: "card A + 2 \<le> T"
    and va: "0x80000000 \<le> va" and cr3: "cr3 v = pd"
  shows "\<exists>p t w. vmm_pageFault v pd pd va = Inr (Resume, w) \<and> p \<notin> A \<and> t \<noteq> p \<and> offset p = 0 \<and>
    (tbl v pd (pdi_of va) = Some t \<or> tbl v pd (pdi_of va) = None \<and> t \<notin> A) \<and>
    vheld start T w (insert t (insert p A)) \<and> aspace w (insert t (insert p A)) pd \<and>
    (\<forall>a. framedown a = p \<longrightarrow> mem (phys w) a = 0) \<and>
    (\<forall>va'. lookup w pd va' = (if framedown va' = framedown va then Some p else lookup v pd va')) \<and>
    keeps {pd, t, p} v w \<and> same_env v w \<and> invlpgs w = invlpgs v \<and> (\<exists>v1. valloc v = Inr (p, v1))"
proof -
  have fd: "framedown va \<ge> 0x80000000"
    using va unfolding upper_half pdi_of_eq framedown_unat by auto
  have pf: "pdi_of (framedown va) = pdi_of va" "framedown (framedown va) = framedown va"
    using same_page_iff [of "framedown va" va] by simp_all
  obtain p v1 where a: "valloc v = Inr (p, v1)" "p \<notin> A" "p \<noteq> 0" "offset p = 0"
      "vheld start T v1 (insert p A)" "\<forall>a. framedown a = p \<longrightarrow> mem (phys v1) a = 0"
      "keeps {p} v v1" "same_env v v1" "invlpgs v1 = invlpgs v"
    using valloc_ok [OF h] room by auto
  have X: "{p} \<inter> tables v pd = {}" using tables_held [OF as] a(2) by auto
  have o: "offset pd = 0" using vheld_aligned [OF h pd_wfD(1) [OF aspaceD(1) [OF as]]] .
  note stab = aspace_stable [OF a(7) X a(8) h as subset_insertI]
  note tst = tbl_stable [OF a(7) o X] and lst = lookup_stable [OF a(7) o X]
  have un: "unused v1 pd p"
    using alloc_unused [OF as a(2)] unfolding unused_def by (simp add: tst stab(2))
  have c: "card (insert p A) < T"
    using room a(2) h by (simp add: vheld_def)
  obtain t w where M: "map_page v1 pd (framedown va) p = Inr w" "vheld start T w (insert t (insert p A))"
    "aspace w (insert t (insert p A)) pd"
    "tbl v1 pd (pdi_of va) = Some t \<or> tbl v1 pd (pdi_of va) = None \<and> t \<notin> insert p A"
    "\<forall>va'. lookup w pd va' = (if framedown va' = framedown va then Some p else lookup v1 pd va')"
    "keeps {pd, t} v1 w" "same_env v1 w" "invlpgs w = invlpgs v1"
    using map_aspace [OF a(5) stab(1) a(4), of "framedown va"] un c unfolding pf by blast
  have tp: "t \<noteq> p" using M(4) un pdi_lt unfolding unused_def by auto
  have "pd \<noteq> p" using pd_wfD(1) [OF aspaceD(1) [OF as]] a(2) by auto
  then have zero: "\<forall>a. framedown a = p \<longrightarrow> mem (phys w) a = 0"
    using a(6) M(6) tp unfolding keeps_def by auto
  have k: "keeps {pd, t, p} v w"
    by (rule keeps_trans [OF a(7) M(6)]) auto
  show ?thesis
    using a M fd cr3 tp zero k same_env_trans [OF a(8) M(7)]
    by (intro exI [of _ p] exI [of _ t] exI [of _ w]) (simp add: vmm_pageFault_def tst lst)
qed

text \<open>A frame obtained from the allocator lies in the memory the allocator manages.\<close>

lemma valloc_bounds:
  assumes h: "vheld start T v A" and a: "valloc v = Inr (p, v1)"
  shows "start \<le> p" "p < plimit (phys v)"
proof -
  obtain s where s: "alloc_frame (phys v) = Inr (p, s)"
    using a by (auto simp: valloc_def bindR_eq_Inr)
  have lim: "plimit s = plimit (phys v)"
    using s by (auto simp: alloc_frame_def bindR_eq_Inr split: if_splits)
  have "owns start s (insert p A) (T - card A - 1)"
    using pm.alloc_Inr(5) [OF _ s, of start A "T - card A"] h by (simp add: vheld_def)
  then obtain fl where "pm_inv start s fl" "p \<in> touched start s" by (auto simp: owns_def)
  then show "start \<le> p" "p < plimit (phys v)" using lim by (auto simp: pm_inv_def touched_def)
qed

end
