(* ===== verification/Vmm_Clear.thy ===== *)
theory Vmm_Clear
  imports Vmm_Spaces
begin

unbundle bit_operations_syntax

text \<open>
  Unmapping a page and clearing the private part of an address space.
\<close>

section \<open>Clearing one entry\<close>

lemma lookup_rd_tables:
  assumes tb: "\<And>i. i < 1024 \<Longrightarrow> tbl w pd i = tbl v pd i"
    and en: "\<And>i t j. i < 1024 \<Longrightarrow> j < 1024 \<Longrightarrow> tbl v pd i = Some t \<Longrightarrow>
      tbl w t j = (if i = i0 \<and> j = j0 then x else tbl v t j)"
    and t0: "tbl v pd i0 = Some t" and ij: "i0 < 1024" "j0 < 1024"
  shows "lookup w pd va = (if framedown va = va_of i0 j0 then x else lookup v pd va)"
proof -
  have "framedown va = va_of i0 j0 \<longleftrightarrow> pdi_of va = i0 \<and> pti_of va = j0"
    using same_page_iff [of va "va_of i0 j0"] ij by simp
  then show ?thesis
    using tb [of "pdi_of va"] en [of "pdi_of va" "pti_of va"] t0
    by (auto simp: lookup_def split: option.splits)
qed

lemma aspace_remove:
  assumes as: "aspace v A pd" and e: "same_env v w" and ij: "512 \<le> i" "i < 1024" "j < 1024"
    and f: "leaf v pd i j = Some f"
    and tb: "\<forall>i < 1024. tbl w pd i = tbl v pd i"
    and lk: "\<forall>va. lookup w pd va = (if framedown va = va_of i j then None else lookup v pd va)"
  shows "aspace w (A - {f}) pd"
proof -
  have lf: "leaf w pd i' j' = (if i' = i \<and> j' = j then None else leaf v pd i' j')"
    if "i' < 1024" "j' < 1024" for i' j'
  proof -
    have "va_of i' j' = va_of i j \<longleftrightarrow> i' = i \<and> j' = j"
      using va_of_inj [OF that, of i j] ij by blast
    then show ?thesis using that ij lk by (simp add: leaf_lookup same_env_special [OF e])
  qed
  have nf: "g \<noteq> f" if "\<not> (i' = i \<and> j' = j)" "512 \<le> i'" "i' < 1024" "j' < 1024" "leaf v pd i' j' = Some g"
    for i' j' g using aspaceD(5) [OF as ij f that(2-4)] that(1,5) by blast
  have "f \<noteq> pd" "\<forall>i < 1024. tbl v pd i \<noteq> Some f"
    using aspaceD(3,4) [OF as ij f] by auto
  then have wf: "pd_wf w (A - {f}) pd"
    using aspaceD(1) [OF as] tb unfolding pd_wf_def by auto
  have old: "\<not> (i' = i \<and> j' = j) \<and> leaf v pd i' j' = Some g"
    if "i' < 1024" "j' < 1024" "leaf w pd i' j' = Some g" for i' j' g
    using lf [OF that(1,2)] that(3) by (simp split: if_splits)
  have "g \<in> A - {f} \<and> g \<noteq> pd \<and> (\<forall>i' < 1024. tbl w pd i' \<noteq> Some g)"
    if "512 \<le> i'" "i' < 1024" "j' < 1024" "leaf w pd i' j' = Some g" for i' j' g
  proof -
    have o: "\<not> (i' = i \<and> j' = j)" "leaf v pd i' j' = Some g" using old [OF that(2-4)] by blast+
    show ?thesis
      using nf [OF o(1) that(1-3) o(2)] aspaceD(2,3) [OF as that(1-3) o(2)]
        aspaceD(4) [OF as that(1-3) o(2)] tb by auto
  qed
  moreover have "b = a \<and> d = c"
    if "512 \<le> a" "a < 1024" "c < 1024" "leaf w pd a c = Some g"
      "512 \<le> b" "b < 1024" "d < 1024" "leaf w pd b d = Some g" for a b c d g
    using aspaceD(5) [OF as that(1-3) _ that(5-7)] old [OF that(2-4)] old [OF that(6-8)] by blast
  ultimately show ?thesis by (rule aspaceI [OF wf])
qed

lemma clear_leaf:
  assumes h: "vheld start T v A" and as: "aspace v A pd" and ij: "512 \<le> i" "i < 1024" "j < 1024"
    and t: "tbl v pd i = Some t" and f: "leaf v pd i j = Some f"
  shows "\<exists>w. vdealloc (wr v t j 0) f = Inr w \<and> vheld start T w (A - {f}) \<and> aspace w (A - {f}) pd \<and>
    (\<forall>i < 1024. tbl w pd i = tbl v pd i) \<and>
    (\<forall>va. lookup w pd va = (if framedown va = va_of i j then None else lookup v pd va)) \<and>
    keeps {t, f} v w \<and> same_env v w \<and> invlpgs w = invlpgs v"
proof -
  note D = pd_wfD [OF aspaceD(1) [OF as]]
  have tA: "t \<in> A" "t \<noteq> pd" and ot: "offset t = 0" "offset pd = 0"
    using D(1-3) ij t tbl_aligned [OF t] vheld_aligned [OF h D(1)] by auto
  have f': "f \<in> A" "f \<noteq> pd" "\<And>i'. i' < 1024 \<Longrightarrow> tbl v pd i' \<noteq> Some f"
    using aspaceD(2-4) [OF as ij f] by auto
  then have ft: "f \<noteq> t" using t ij by auto
  let ?v1 = "wr v t j 0"
  have "vheld start T ?v1 A" using h tA ij by (simp add: vheld_wr)
  then obtain w where w: "vdealloc ?v1 f = Inr w" "vheld start T w (A - {f})" "keeps {f} ?v1 w"
    "same_env ?v1 w" "invlpgs w = invlpgs ?v1"
    using vdealloc_ok f'(1) by blast
  have tb: "i' < 1024 \<Longrightarrow> tbl w pd i' = tbl v pd i'" for i'
    using tbl_keeps [OF w(3) ot(2), of i'] f'(2) tA ot ij by (simp add: tbl_wr)
  have en: "tbl w u j' = (if i' = i \<and> j' = j then None else tbl v u j')"
    if "i' < 1024" "j' < 1024" "tbl v pd i' = Some u" for i' u j'
  proof -
    have "offset u = 0" using tbl_aligned that(3) .
    moreover have "u = t \<longleftrightarrow> i' = i" using D(4) [OF that(1) ij(2)] t that(3) by auto
    moreover have "u \<noteq> f" using f'(3) that by auto
    ultimately show ?thesis
      using tbl_keeps [OF w(3), of u j'] ot ij that by (auto simp: tbl_wr)
  qed
  have lk: "lookup w pd va = (if framedown va = va_of i j then None else lookup v pd va)" for va
    using tb en by (rule lookup_rd_tables [OF _ _ t ij(2,3)])
  have k: "keeps {t, f} v w"
    by (rule keeps_trans [OF keeps_wr [OF ot(1) ij(3)] w(3)]) auto
  have e: "same_env v w" using w(4) by (simp add: same_env_def)
  have "aspace w (A - {f}) pd" using aspace_remove [OF as e ij f] tb lk by blast
  then show ?thesis using w tb lk k e by auto
qed

section \<open>Unmapping a page\<close>

lemma invlpg_view [simp]:
  "rd (invlpg w va) = rd w" "tbl (invlpg w va) = tbl w" "lookup (invlpg w va) = lookup w"
  "leaf (invlpg w va) = leaf w" "aspace (invlpg w va) = aspace w"
  "vheld start T (invlpg w va) A = vheld start T w A" "invlpgs (invlpg w va) = va # invlpgs w"
  "keeps X v (invlpg w va) = keeps X v w"
proof -
  show rd: "rd (invlpg w va) = rd w" by (simp add: rd_def invlpg_def fun_eq_iff)
  then show tb: "tbl (invlpg w va) = tbl w" by (simp add: tbl_def fun_eq_iff)
  then show "lookup (invlpg w va) = lookup w"
    by (simp add: lookup_def fun_eq_iff split: option.splits)
  have "is_special (invlpg w va) = is_special w" by (simp add: is_special_def invlpg_def fun_eq_iff)
  then show lf: "leaf (invlpg w va) = leaf w" using tb
    by (simp add: leaf_def fun_eq_iff split: option.splits)
  show "aspace (invlpg w va) = aspace w" by (simp add: aspace_def pd_wf_def tb lf fun_eq_iff)
qed (simp_all add: vheld_def invlpg_def keeps_def)

lemma unmap_mapped:
  assumes h: "vheld start T v A" and as: "aspace v A pd" and va: "offset va = 0" "\<not> is_special v va"
    and f: "lookup v pd va = Some f"
  shows "\<exists>w. unmap v pd va = Inr w \<and> f \<in> A \<and> vheld start T w (A - {f}) \<and> aspace w (A - {f}) pd \<and>
    (\<forall>va'. lookup w pd va' = (if framedown va' = va then None else lookup v pd va')) \<and>
    same_env v w \<and> invlpgs w = va # invlpgs v"
proof -
  let ?i = "pdi_of va" and ?j = "pti_of va"
  have up: "512 \<le> ?i" using va(2) by (auto simp: is_special_def upper_half [symmetric])
  have vv: "va_of ?i ?j = va" using va by (simp add: va_of_framedown)
  obtain t where t: "tbl v pd ?i = Some t" "tbl v t ?j = Some f"
    using f by (auto simp: lookup_def split: option.splits)
  have lf: "leaf v pd ?i ?j = Some f" using va f by (simp add: leaf_lookup vv)
  obtain w where w: "vdealloc (wr v t ?j 0) f = Inr w" "vheld start T w (A - {f})"
    "aspace w (A - {f}) pd"
    "\<forall>va'. lookup w pd va' = (if framedown va' = va then None else lookup v pd va')"
    "same_env v w" "invlpgs w = invlpgs v"
    using clear_leaf [OF h as up pdi_lt pti_lt t(1) lf] unfolding vv by blast
  have "unmap v pd va = Inr (invlpg w va)"
    unfolding unmap_def Let_def using va t w(1)
    by (auto simp: tbl_def framedown_alt split: if_splits)
  then show ?thesis
    using w aspaceD(2) [OF as up pdi_lt pti_lt lf] by (intro exI [of _ "invlpg w va"]) simp
qed

lemma unmap_unmapped: "is_special v va \<or> lookup v pd va = None \<Longrightarrow> unmap v pd va = Inr v"
  unfolding unmap_def Let_def framedown_alt lookup_def
  by (auto simp: tbl_def split: if_splits option.splits)

section \<open>Clearing the private part of an address space\<close>

definition has_special :: "vmm \<Rightarrow> nat \<Rightarrow> nat \<Rightarrow> bool" where
  "has_special v i n \<longleftrightarrow> (\<exists>j < n. is_special v (va_of i j))"

lemma has_special_Suc:
  "has_special v i (Suc n) \<longleftrightarrow> has_special v i n \<or> is_special v (va_of i n)"
  by (auto simp: has_special_def less_Suc_eq)

lemma cleared_step:
  assumes "i < 1024" "k < 1024"
  shows "(pdi_of va = i \<and> pti_of va < Suc k) \<longleftrightarrow>
    (pdi_of va = i \<and> pti_of va < k \<or> framedown va = va_of i k)"
  using assms same_page_iff [of va "va_of i k"] by (auto simp: less_Suc_eq)

text \<open>What the inner loop has done after \<open>k\<close> entries of row \<open>i\<close>, from state \<open>v\<close> to \<open>w\<close>.\<close>

definition cleared :: "u32 \<Rightarrow> nat \<Rightarrow> u32 set \<Rightarrow> u32 \<Rightarrow> nat \<Rightarrow> vmm \<Rightarrow> nat \<Rightarrow> bool \<times> vmm \<Rightarrow> bool" where
  "cleared start T A pd i v k = (\<lambda>(cs, w). cs = has_special v i k \<and>
     vheld start T w (A - leaves v pd i k) \<and> aspace w (A - leaves v pd i k) pd \<and>
     (\<forall>i < 1024. tbl w pd i = tbl v pd i) \<and>
     (\<forall>va. lookup w pd va = (if pdi_of va = i \<and> pti_of va < k \<and> \<not> is_special v (framedown va)
                           then None else lookup v pd va)) \<and>
     keeps (leaves v pd i k \<union> set_option (tbl v pd i)) v w \<and> same_env v w \<and>
     set (invlpgs v) \<subseteq> set (invlpgs w) \<and>
     (\<forall>j < k. leaf v pd i j \<noteq> None \<longrightarrow> va_of i j \<in> set (invlpgs w)))"

lemma clear_entry_step:
  assumes i: "512 \<le> i" "i < 1024" and k: "k < 1024" and t: "tbl v pd i = Some t"
    and inv: "cleared start T A pd i v k (cs, w)"
  shows "\<exists>s'. clear_entry t i k (cs, w) = Inr s' \<and> cleared start T A pd i v (Suc k) s'"
proof -
  have I: "cs = has_special v i k" "vheld start T w (A - leaves v pd i k)"
     "aspace w (A - leaves v pd i k) pd" "\<forall>i < 1024. tbl w pd i = tbl v pd i"
     "\<forall>va. lookup w pd va = (if pdi_of va = i \<and> pti_of va < k \<and> \<not> is_special v (framedown va)
                           then None else lookup v pd va)"
     "keeps (leaves v pd i k \<union> set_option (tbl v pd i)) v w" "same_env v w"
     "set (invlpgs v) \<subseteq> set (invlpgs w)"
     "\<forall>j < k. leaf v pd i j \<noteq> None \<longrightarrow> va_of i j \<in> set (invlpgs w)"
    using inv by (simp_all add: cleared_def)
  have tw: "tbl w pd i = Some t" using I(4) i t by simp
  have sp: "is_special w va = is_special v va" for va using I(7) by (rule same_env_special)
  have lk: "lookup w pd (va_of i k) = lookup v pd (va_of i k)" using I(5) i k by simp
  have lf: "leaf w pd i k = leaf v pd i k" using lk i k by (simp add: leaf_lookup sp)
  show ?thesis
  proof (cases "leaf v pd i k")
    case None
    have ce: "clear_entry t i k (cs, w) = Inr (cs \<or> is_special v (va_of i k), w)"
      using None lf leaf_rd [OF tw, of k, unfolded sp]
      unfolding clear_entry_def Let_def by (auto simp: sp split: if_splits)
    have none: "lookup v pd va = None" if "framedown va = va_of i k" "\<not> is_special v (va_of i k)" for va
      using None that i k leaf_lookup [of i k v pd] same_page_iff [of va "va_of i k"]
      by (simp add: lookup_def split: option.splits)
    have lk': "lookup w pd va =
        (if pdi_of va = i \<and> pti_of va < Suc k \<and> \<not> is_special v (framedown va)
         then None else lookup v pd va)" for va
      using I(5) none [of va] cleared_step [OF i(2) k, of va] by auto
    have "cleared start T A pd i v (Suc k) (cs \<or> is_special v (va_of i k), w)"
      using I None lk' unfolding cleared_def
      by (simp add: leaves_Suc has_special_Suc) (auto simp: less_Suc_eq)
    then show ?thesis using ce by blast
  next
    case (Some f)
    obtain w' where w': "vdealloc (wr w t k 0) f = Inr w'"
      "vheld start T w' (A - leaves v pd i k - {f})" "aspace w' (A - leaves v pd i k - {f}) pd"
      "\<forall>i < 1024. tbl w' pd i = tbl w pd i"
      "\<forall>va. lookup w' pd va = (if framedown va = va_of i k then None else lookup w pd va)"
      "keeps {t, f} w w'" "same_env w w'" "invlpgs w' = invlpgs w"
      using clear_leaf [OF I(2,3) i k tw] Some lf by auto
    have ns: "\<not> is_special v (va_of i k)" using Some i k by (auto simp: leaf_lookup split: if_splits)
    have ce: "clear_entry t i k (cs, w) = Inr (cs, invlpg w' (va_of i k))"
      using Some lf leaf_rd [OF tw, of k, unfolded sp] ns w'(1)
      unfolding clear_entry_def Let_def framedown_alt by (auto simp: sp split: if_splits)
    have eq: "A - leaves v pd i k - {f} = A - leaves v pd i (Suc k)"
      by (auto simp: leaves_Suc Some)
    have kp: "keeps (leaves v pd i (Suc k) \<union> set_option (tbl v pd i)) v w'"
      by (rule keeps_trans [OF I(6) w'(6)]) (auto simp: leaves_Suc Some t)
    have lk': "lookup w' pd va =
        (if pdi_of va = i \<and> pti_of va < Suc k \<and> \<not> is_special v (framedown va)
         then None else lookup v pd va)" for va
      using I(5) w'(5) ns cleared_step [OF i(2) k, of va] by auto
    have "cleared start T A pd i v (Suc k) (cs, invlpg w' (va_of i k))"
      using I w' kp lk' ns same_env_trans [OF I(7) w'(7)]
      unfolding cleared_def eq by (auto simp: has_special_Suc less_Suc_eq)
    then show ?thesis using ce by blast
  qed
qed

lemma clear_entries:
  assumes h: "vheld start T v A" and as: "aspace v A pd" and i: "512 \<le> i" "i < 1024"
    and t: "tbl v pd i = Some t"
  shows "\<exists>s'. foldM (clear_entry t i) [0..<1024] (False, v) = Inr s' \<and> cleared start T A pd i v 1024 s'"
proof (rule foldM_upt_inv)
  show "cleared start T A pd i v 0 (False, v)"
    using h as by (simp add: cleared_def has_special_def)
  show "\<And>k s. cleared start T A pd i v k s \<Longrightarrow> 0 \<le> k \<Longrightarrow> k < 1024 \<Longrightarrow>
      \<exists>s'. clear_entry t i k s = Inr s' \<and> cleared start T A pd i v (Suc k) s'"
    using clear_entry_step [OF i _ t] by (metis surj_pair)
qed simp

text \<open>Dropping a table none of whose entries is present.\<close>

lemma drop_table:
  assumes h: "vheld start T v A" and as: "aspace v A pd" and i: "512 \<le> i" "i < 1024"
    and t: "tbl v pd i = Some t" and none: "\<forall>va. pdi_of va = i \<longrightarrow> lookup v pd va = None"
  shows "\<exists>w. vdealloc (wr v pd i 0) t = Inr w \<and> vheld start T w (A - {t}) \<and> aspace w (A - {t}) pd \<and>
    (\<forall>i' < 1024. tbl w pd i' = (if i' = i then None else tbl v pd i')) \<and>
    (\<forall>va. lookup w pd va = lookup v pd va) \<and>
    keeps {pd, t} v w \<and> same_env v w \<and> invlpgs w = invlpgs v"
proof -
  note D = pd_wfD [OF aspaceD(1) [OF as]]
  have tA: "t \<in> A" "t \<noteq> pd" and ot: "offset t = 0" "offset pd = 0"
    using D(1-3) i t tbl_aligned [OF t] vheld_aligned [OF h D(1)] by auto
  let ?v1 = "wr v pd i 0"
  have "vheld start T ?v1 A" using h D(1) i by (simp add: vheld_wr)
  then obtain w where w: "vdealloc ?v1 t = Inr w" "vheld start T w (A - {t})" "keeps {t} ?v1 w"
    "same_env ?v1 w" "invlpgs w = invlpgs ?v1"
    using vdealloc_ok tA(1) by blast
  have tb: "tbl w pd i' = (if i' = i then None else tbl v pd i')" if "i' < 1024" for i'
    using tbl_keeps [OF w(3) ot(2), of i'] tA ot i that by (auto simp: tbl_wr)
  have en: "tbl w u j = tbl v u j"
    if "i' < 1024" "i' \<noteq> i" "tbl v pd i' = Some u" "j < 1024" for i' u j
  proof -
    have "u \<noteq> t" using D(4) [OF that(1) i(2) that(3)] t that(2) by auto
    moreover have "u \<noteq> pd" using D(3) that by blast
    ultimately show ?thesis
      using tbl_keeps [OF w(3) tbl_aligned [OF that(3)], of j] tbl_aligned [OF that(3)] ot i that
      by (auto simp: tbl_wr)
  qed
  have lk: "lookup w pd va = lookup v pd va" for va
  proof (cases "pdi_of va = i")
    case True
    then show ?thesis using none tb [of i] i by (simp add: lookup_def)
  next
    case False
    then show ?thesis
      using tb [of "pdi_of va"] en [of "pdi_of va" _ "pti_of va"]
      by (auto simp: lookup_def split: option.splits)
  qed
  have k: "keeps {pd, t} v w"
    by (rule keeps_trans [OF keeps_wr [OF ot(2) i(2)] w(3)]) auto
  have e: "same_env v w" using w(4) by (simp add: same_env_def)
  have lf: "leaf w pd a c = leaf v pd a c" if "a < 1024" "c < 1024" for a c
    using that by (simp add: leaf_lookup lk same_env_special [OF e])
  have "pd_wf w (A - {t}) pd"
    using D t i tA tb unfolding pd_wf_def by (auto split: if_splits)
  moreover have "f \<in> A - {t} \<and> f \<noteq> pd \<and> (\<forall>a' < 1024. tbl w pd a' \<noteq> Some f)"
    if "512 \<le> a" "a < 1024" "c < 1024" "leaf w pd a c = Some f" for a c f
  proof -
    have l: "leaf v pd a c = Some f" using that lf by simp
    show ?thesis
      using aspaceD(2,3) [OF as that(1-3) l] aspaceD(4) [OF as that(1-3) l] t i tb by auto
  qed
  moreover have "b = a \<and> d = c"
    if "512 \<le> a" "a < 1024" "c < 1024" "leaf w pd a c = Some g"
      "512 \<le> b" "b < 1024" "d < 1024" "leaf w pd b d = Some g" for a b c d g
    using aspaceD(5) [OF as that(1-3) _ that(5-7)] that lf by simp
  ultimately have "aspace w (A - {t}) pd" by (rule aspaceI)
  then show ?thesis using w tb lk k e by auto
qed

text \<open>
  \<open>dropped v pd n\<close>: the frames given back for the rows below \<open>n\<close> of the upper half, all of
  them but the tables that contain the page of an interrupt controller.
\<close>

definition dropped :: "vmm \<Rightarrow> u32 \<Rightarrow> nat \<Rightarrow> u32 set" where
  "dropped v pd n = {f. \<exists>i. 512 \<le> i \<and> i < n \<and>
     (f \<in> leaves v pd i 1024 \<or> tbl v pd i = Some f \<and> \<not> has_special v i 1024)}"

lemma dropped_Suc:
  "512 \<le> n \<Longrightarrow> dropped v pd (Suc n) = dropped v pd n \<union> leaves v pd n 1024 \<union>
     (if has_special v n 1024 then {} else set_option (tbl v pd n))"
  by (auto simp: dropped_def less_Suc_eq)

lemma dropped_512 [simp]: "dropped v pd 512 = {}"
  by (auto simp: dropped_def)

definition rows_cleared :: "u32 \<Rightarrow> nat \<Rightarrow> u32 set \<Rightarrow> u32 \<Rightarrow> vmm \<Rightarrow> nat \<Rightarrow> vmm \<Rightarrow> bool" where
  "rows_cleared start T A pd v n w \<longleftrightarrow>
     vheld start T w (A - dropped v pd n) \<and> aspace w (A - dropped v pd n) pd \<and>
     (\<forall>i < 1024. tbl w pd i = (if 512 \<le> i \<and> i < n \<and> \<not> has_special v i 1024 then None else tbl v pd i)) \<and>
     (\<forall>va. lookup w pd va = (if 512 \<le> pdi_of va \<and> pdi_of va < n \<and> \<not> is_special v (framedown va)
                           then None else lookup v pd va)) \<and>
     keeps (priv v pd) v w \<and> same_env v w \<and> set (invlpgs v) \<subseteq> set (invlpgs w) \<and>
     (\<forall>i j. 512 \<le> i \<and> i < n \<and> j < 1024 \<and> leaf v pd i j \<noteq> None \<longrightarrow> va_of i j \<in> set (invlpgs w))"

lemma keeps_priv:
  assumes "keeps X v w" "X \<subseteq> priv v pd" shows "keeps (priv v pd) v w"
  using assms by (rule keeps_mono)

lemma leaves_priv: "512 \<le> n \<Longrightarrow> n < 1024 \<Longrightarrow> leaves v pd n 1024 \<subseteq> priv v pd"
  by (auto simp: priv_def rows_def)

lemma table_priv: "512 \<le> n \<Longrightarrow> n < 1024 \<Longrightarrow> tbl v pd n = Some t \<Longrightarrow> t \<in> priv v pd"
  by (auto simp: priv_def rows_def)

lemma clear_table_step:
  assumes n: "512 \<le> n" "n < 1024" and inv: "rows_cleared start T A pd v n w"
  shows "\<exists>w'. clear_table pd n w = Inr w' \<and> rows_cleared start T A pd v (Suc n) w'"
proof -
  let ?A = "A - dropped v pd n"
  have I: "vheld start T w ?A" "aspace w ?A pd"
    "\<forall>i < 1024. tbl w pd i = (if 512 \<le> i \<and> i < n \<and> \<not> has_special v i 1024 then None else tbl v pd i)"
    "\<forall>va. lookup w pd va = (if 512 \<le> pdi_of va \<and> pdi_of va < n \<and> \<not> is_special v (framedown va)
                           then None else lookup v pd va)"
    "keeps (priv v pd) v w" "same_env v w" "set (invlpgs v) \<subseteq> set (invlpgs w)"
    "\<forall>i j. 512 \<le> i \<and> i < n \<and> j < 1024 \<and> leaf v pd i j \<noteq> None \<longrightarrow> va_of i j \<in> set (invlpgs w)"
    using inv by (simp_all add: rows_cleared_def)
  have sp: "is_special w va = is_special v va" for va using I(6) by (rule same_env_special)
  have hs: "has_special w n 1024 = has_special v n 1024" by (simp add: has_special_def sp)
  have tn: "tbl w pd n = tbl v pd n" using I(3) n by simp
  have lf: "leaf w pd n j = leaf v pd n j" if "j < 1024" for j
    using I(4) n that by (simp add: leaf_lookup sp)
  then have lv: "leaves w pd n 1024 = leaves v pd n 1024" by (auto simp: leaves_def)
  have below: "i < Suc n \<longleftrightarrow> i < n \<or> i = n" for i by auto
  show ?thesis
  proof (cases "tbl v pd n")
    case None
    have ct: "clear_table pd n w = Inr w"
      using None tn unfolding clear_table_def Let_def by (auto simp: tbl_def split: if_splits)
    have lk: "lookup v pd va = None" if "pdi_of va = n" for va
      using None that by (simp add: lookup_def)
    have "\<forall>va. lookup w pd va = (if 512 \<le> pdi_of va \<and> pdi_of va < Suc n \<and> \<not> is_special v (framedown va)
                           then None else lookup v pd va)"
      using I(4) lk by (auto simp: below)
    moreover have "leaf v pd n j = None" for j using None by (simp add: leaf_def)
    ultimately have "rows_cleared start T A pd v (Suc n) w"
      using I None n unfolding rows_cleared_def
      by (auto simp: dropped_Suc leaves_None below)
    then show ?thesis using ct by blast
  next
    case (Some t)
    then have tw: "tbl w pd n = Some t" using tn by simp
    obtain cs w1 where 1: "foldM (clear_entry t n) [0..<1024] (False, w) = Inr (cs, w1)"
      "cleared start T ?A pd n w 1024 (cs, w1)"
      using clear_entries [OF I(1,2) n tw] by (metis surj_pair)
    have C: "cs = has_special v n 1024" "vheld start T w1 (?A - leaves v pd n 1024)"
     "aspace w1 (?A - leaves v pd n 1024) pd" "\<forall>i < 1024. tbl w1 pd i = tbl w pd i"
     "\<forall>va. lookup w1 pd va = (if pdi_of va = n \<and> \<not> is_special v (framedown va)
                           then None else lookup w pd va)"
     "keeps (leaves v pd n 1024 \<union> {t}) w w1" "same_env w w1" "set (invlpgs w) \<subseteq> set (invlpgs w1)"
     "\<forall>j < 1024. leaf v pd n j \<noteq> None \<longrightarrow> va_of n j \<in> set (invlpgs w1)"
      using 1(2) by (auto simp: cleared_def lv hs sp tn Some lf)
    have lk: "\<forall>va. lookup w1 pd va = (if 512 \<le> pdi_of va \<and> pdi_of va < Suc n \<and> \<not> is_special v (framedown va)
                           then None else lookup v pd va)"
      using C(5) I(4) n by (auto simp: below)
    have k1: "keeps (priv v pd) v w1"
      by (rule keeps_trans [OF I(5) C(6)]) (use leaves_priv [OF n] table_priv [OF n Some] in auto)
    have e1: "same_env v w1" using same_env_trans [OF I(6) C(7)] .
    have tlb: "\<forall>i j. 512 \<le> i \<and> i < Suc n \<and> j < 1024 \<and> leaf v pd i j \<noteq> None \<longrightarrow> va_of i j \<in> set (invlpgs w1)"
      using I(8) C(8,9) by (auto simp: below)
    have tlb0: "set (invlpgs v) \<subseteq> set (invlpgs w1)" using I(7) C(8) by blast
    have rdw: "rd w pd n AND 1 \<noteq> 0" "rd w pd n AND 0xFFFFF000 = t"
      using tw by (auto simp: tbl_def framedown_alt split: if_splits)
    show ?thesis
    proof (cases "has_special v n 1024")
      case True
      have "clear_table pd n w = Inr w1"
        using 1(1) C(1) True rdw unfolding clear_table_def Let_def by simp
      moreover have "?A - leaves v pd n 1024 = A - dropped v pd (Suc n)"
        using n True by (auto simp: dropped_Suc)
      moreover have "\<forall>i < 1024. tbl w1 pd i =
          (if 512 \<le> i \<and> i < Suc n \<and> \<not> has_special v i 1024 then None else tbl v pd i)"
        using C(4) I(3) True by (auto simp: below)
      ultimately show ?thesis
        using C(2,3) lk k1 e1 tlb tlb0 by (intro exI [of _ w1]) (simp add: rows_cleared_def)
    next
      case False
      have t1: "tbl w1 pd n = Some t" using C(4) tw n by simp
      have none: "\<forall>va. pdi_of va = n \<longrightarrow> lookup w1 pd va = None"
      proof (intro allI impI)
        fix va assume va: "pdi_of va = n"
        then have "framedown va = va_of n (pti_of va)" using va_of_framedown [of va] by simp
        then have "\<not> is_special v (framedown va)" using False pti_lt [of va] by (auto simp: has_special_def)
        then show "lookup w1 pd va = None" using C(5) va by simp
      qed
      obtain w2 where w2: "vdealloc (wr w1 pd n 0) t = Inr w2"
        "vheld start T w2 (?A - leaves v pd n 1024 - {t})" "aspace w2 (?A - leaves v pd n 1024 - {t}) pd"
        "\<forall>i < 1024. tbl w2 pd i = (if i = n then None else tbl w1 pd i)"
        "\<forall>va. lookup w2 pd va = lookup w1 pd va" "keeps {pd, t} w1 w2" "same_env w1 w2"
        "invlpgs w2 = invlpgs w1"
        using drop_table [OF C(2,3) n t1 none] by blast
      have "clear_table pd n w = Inr w2"
        using 1(1) C(1) False rdw w2(1) unfolding clear_table_def Let_def by simp
      moreover have "?A - leaves v pd n 1024 - {t} = A - dropped v pd (Suc n)"
        using n False Some by (auto simp: dropped_Suc)
      moreover have "\<forall>i < 1024. tbl w2 pd i =
          (if 512 \<le> i \<and> i < Suc n \<and> \<not> has_special v i 1024 then None else tbl v pd i)"
        using w2(4) C(4) I(3) False n by (auto simp: below)
      moreover have "keeps (priv v pd) v w2"
        by (rule keeps_trans [OF k1 w2(6)]) (use table_priv [OF n Some] in \<open>auto simp: priv_def\<close>)
      ultimately show ?thesis
        using w2 lk same_env_trans [OF e1 w2(7)] tlb tlb0
        by (intro exI [of _ w2]) (simp add: rows_cleared_def)
    qed
  qed
qed

lemma delete_private_ok:
  assumes h: "vheld start T v A" and as: "aspace v A pd" and c: "cr3 v = pd"
  shows "\<exists>w. delete_private v pd = Inr w \<and> rows_cleared start T A pd v 1024 w"
proof -
  have "\<exists>w. foldM (clear_table pd) [512..<1024] v = Inr w \<and> rows_cleared start T A pd v 1024 w"
  proof (rule foldM_upt_inv)
    show "rows_cleared start T A pd v 512 v"
      using h as by (auto simp: rows_cleared_def)
    show "\<And>n w. rows_cleared start T A pd v n w \<Longrightarrow> 512 \<le> n \<Longrightarrow> n < 1024 \<Longrightarrow>
        \<exists>w'. clear_table pd n w = Inr w' \<and> rows_cleared start T A pd v (Suc n) w'"
      using clear_table_step by blast
  qed simp
  then show ?thesis using c by (simp add: delete_private_def)
qed

end
