(* ===== verification/Vmm_Init.thy ===== *)
theory Vmm_Init
  imports Vmm_Clear
begin

unbundle bit_operations_syntax

text \<open>
  Creating an address space, and the identity mapping \<^verbatim>\<open>global_init\<close> sets up.
\<close>

declare of_nat_mult [simp del]

section \<open>Copying the shared entries\<close>

lemma memcpy_rd:
  assumes o: "offset d = 0" "offset s = 0" and i: "i < 1024" and k: "k \<le> 1024"
  shows "rd (memcpy v d s (of_nat (4 * k))) d i = (if i < k then rd v s i else rd v d i)"
proof -
  have uk: "unat (of_nat (4 * k) :: u32) = 4 * k"
    using k by (simp add: unat_of_nat take_bit_nat_def)
  have ui: "unat (of_nat (4 * i) :: u32) = 4 * i"
    using i by (simp add: unat_of_nat take_bit_nat_def)
  have si: "sint (of_nat (4 * k) :: u32) = 4 * int k"
    using k unfolding sint_uint uint_nat uk by (simp add: signed_take_bit_int_eq_self)
  have "(of_nat (4 * i) :: u32) < of_nat (4 * k) \<longleftrightarrow> i < k"
    unfolding word_less_nat_alt uk ui by simp
  then show ?thesis
    unfolding rd_def memcpy_def si by (simp)
qed

lemma memcpy_keeps:
  assumes o: "offset d = 0" and k: "k \<le> 1024"
  shows "keeps {d} v (memcpy v d s (of_nat (4 * k)))"
proof -
  have uk: "unat (of_nat (4 * k) :: u32) = 4 * k"
    using k by (simp add: unat_of_nat take_bit_nat_def)
  have "framedown a = d" if "a - d < of_nat (4 * k)" for a
  proof -
    have "a - d < 4096" using that k unfolding word_less_nat_alt uk by simp
    then show ?thesis using in_frame_iff [OF o] by simp
  qed
  then show ?thesis unfolding keeps_def memcpy_def by auto
qed

lemma memcpy_sel [simp]: "shared (memcpy v d s n) = shared v" "kConfig (memcpy v d s n) = kConfig v"
  "cr3 (memcpy v d s n) = cr3 v" "invlpgs (memcpy v d s n) = invlpgs v"
  by (simp_all add: memcpy_def)

lemma vheld_keeps:
  assumes h: "vheld start T v A" and k: "keeps X v w" and X: "X \<subseteq> A"
    and p: "phys w = (phys v)\<lparr>mem := mem (phys w)\<rparr>"
  shows "vheld start T w A"
proof -
  have "owns start ((phys v)\<lparr>mem := mem (phys w)\<rparr>) A (T - card A)"
    using h k X unfolding vheld_def keeps_def by (intro owns_mem) auto
  then show ?thesis using h p unfolding vheld_def by simp
qed

lemma memcpy_phys: "phys (memcpy v d s n) = (phys v)\<lparr>mem := mem (phys (memcpy v d s n))\<rparr>"
  by (simp add: memcpy_def)

section \<open>Creating an address space\<close>

text \<open>The number of entries \<^verbatim>\<open>make_pd\<close> copies, and the size in bytes it computes.\<close>

definition low_tables :: "u32 \<Rightarrow> nat" where
  "low_tables m = (unat m + 4194303) div 4194304"

lemma shared_size:
  assumes "m \<le> 0x80000000"
  shows "4 * ((m + 4194304 - 1) div 4194304) = of_nat (4 * low_tables m)" "low_tables m \<le> 512"
proof -
  have b: "unat m \<le> 2147483648" using assms by (simp add: word_le_nat_alt)
  then have u: "unat (m + 4194303) = unat m + 4194303"
    by (subst unat_add_lem [THEN iffD1]) simp_all
  show lt: "low_tables m \<le> 512" using b unfolding low_tables_def by linarith
  have "unat ((m + 4194303) div 4194304) = low_tables m"
    by (simp add: unat_div u low_tables_def)
  then have "(m + 4194303) div 4194304 = of_nat (low_tables m)"
    using lt by (simp add: word_unat_eq_iff unat_of_nat take_bit_nat_def)
  then show "4 * ((m + 4194304 - 1) div 4194304) = of_nat (4 * low_tables m)"
    by (simp add: add.commute of_nat_mult)
qed

lemma empty_upper:
  assumes "pd_wf v A pd" "\<forall>i < 1024. 512 \<le> i \<longrightarrow> tbl v pd i = None"
  shows "aspace v A pd" "rows v pd 1024 = {}"
  using assms by (auto intro!: aspaceI simp: leaf_def rows_def leaves_def)

lemma copied_directory:
  assumes h: "vheld start T v A" and sh: "pd_wf v A (shared v)"
    and k: "low_tables (memSize (kConfig v)) \<le> 512" and room: "card A < T"
    and m: "memSize (kConfig v) \<le> 0x80000000"
  shows "\<exists>pd v1 v2. valloc v = Inr (pd, v1) \<and>
    v2 = memcpy v1 pd (shared v1) (4 * ((memSize (kConfig v1) + 4194304 - 1) div 4194304)) \<and>
    pd \<notin> A \<and> offset pd = 0 \<and> vheld start T v2 (insert pd A) \<and> aspace v2 (insert pd A) pd \<and>
    (\<forall>i < 1024. tbl v2 pd i = (if i < low_tables (memSize (kConfig v)) then tbl v (shared v) i else None)) \<and>
    (\<forall>va. lookup v2 pd va = (if pdi_of va < low_tables (memSize (kConfig v)) then lookup v (shared v) va
                           else None)) \<and>
    keeps {pd} v v2 \<and> same_env v v2 \<and> invlpgs v2 = invlpgs v"
proof -
  let ?k = "low_tables (memSize (kConfig v))" and ?sh = "shared v"
  note D = pd_wfD [OF sh]
  obtain pd v1 where a: "valloc v = Inr (pd, v1)" "pd \<notin> A" "pd \<noteq> 0" "offset pd = 0"
      "vheld start T v1 (insert pd A)" "\<forall>i < 1024. rd v1 pd i = 0" "keeps {pd} v v1" "same_env v v1"
      "invlpgs v1 = invlpgs v"
    using valloc_ok [OF h room] by blast
  have e1: "kConfig v1 = kConfig v" "shared v1 = ?sh" using a(8) by (auto simp: same_env_def)
  let ?v2 = "memcpy v1 pd ?sh (of_nat (4 * ?k))"
  have osh: "offset ?sh = 0" using vheld_aligned [OF h D(1)] .
  have npd: "?sh \<noteq> pd" using D(1) a(2) by auto
  have rd2: "rd ?v2 pd i = (if i < ?k then rd v ?sh i else 0)" if "i < 1024" for i
    using that k a(6) rd_keeps [OF a(7) osh, of i] npd
    by (simp add: memcpy_rd [OF a(4) osh that])
  have tb2: "tbl ?v2 pd i = (if i < ?k then tbl v ?sh i else None)" if "i < 1024" for i
    using that by (simp add: tbl_def rd2)
  have k12: "keeps {pd} v1 ?v2" using memcpy_keeps [OF a(4), of ?k v1 ?sh] k by simp
  have kp: "keeps {pd} v ?v2" using keeps_trans1 [OF a(7) k12] .
  have h2: "vheld start T ?v2 (insert pd A)"
    by (rule vheld_keeps [OF a(5) k12 _ memcpy_phys]) simp
  have wf2: "pd_wf ?v2 (insert pd A) pd"
    using D a(2) unfolding pd_wf_def by (auto simp: tb2)
  have as2: "aspace ?v2 (insert pd A) pd"
    using wf2 by (rule empty_upper) (use k in \<open>auto simp: tb2\<close>)
  have lk2: "lookup ?v2 pd va = (if pdi_of va < ?k then lookup v ?sh va else None)" for va
  proof (cases "pdi_of va < ?k")
    case True
    have "tbl ?v2 t (pti_of va) = tbl v t (pti_of va)" if "tbl v ?sh (pdi_of va) = Some t" for t
      using tbl_keeps [OF kp tbl_aligned [OF that], of "pti_of va"] D(2) [OF pdi_lt that] a(2) by auto
    then show ?thesis using True tb2 [OF pdi_lt, of va] by (auto simp: lookup_def split: option.splits)
  next
    case False
    then show ?thesis using tb2 [OF pdi_lt, of va] by (simp add: lookup_def)
  qed
  have "same_env v ?v2" using a(8) by (simp add: same_env_def)
  then show ?thesis
    using a h2 as2 tb2 lk2 kp shared_size(1) [OF m] e1
    by (intro exI [of _ pd] exI [of _ v1] exI [of _ ?v2]) simp
qed

lemma special_aligned: "offset va = 0 \<Longrightarrow> va = ioAPIC (kConfig v) \<or> va = localAPIC (kConfig v) \<Longrightarrow>
    is_special v (framedown va)"
  by (auto simp: is_special_def)

lemma make_pd_aux:
  assumes h: "vheld start T v A" and sh: "pd_wf v A (shared v)" and room: "card A + 3 \<le> T"
    and m: "memSize (kConfig v) \<le> 0x80000000"
    and io: "offset (ioAPIC (kConfig v)) = 0" "0x80000000 \<le> ioAPIC (kConfig v)"
    and lo: "offset (localAPIC (kConfig v)) = 0" "0x80000000 \<le> localAPIC (kConfig v)"
  shows "\<exists>pd w. make_pd v = Inr (pd, w) \<and> vheld start T w (A \<union> priv w pd) \<and> aspace w (A \<union> priv w pd) pd \<and>
    A \<inter> priv w pd = {} \<and>
    (\<forall>va. lookup w pd va =
       (if framedown va = localAPIC (kConfig v) then Some (localAPIC (kConfig v))
        else if framedown va = ioAPIC (kConfig v) then Some (ioAPIC (kConfig v))
        else if pdi_of va < low_tables (memSize (kConfig v)) then lookup v (shared v) va else None)) \<and>
    keeps (priv w pd) v w \<and> same_env v w \<and> invlpgs w = invlpgs v \<and> card (priv w pd) \<le> 3"
proof -
  let ?io = "ioAPIC (kConfig v)" and ?lo = "localAPIC (kConfig v)"
  have k: "low_tables (memSize (kConfig v)) \<le> 512" using shared_size(2) [OF m] .
  obtain pd v1 v2 where c: "valloc v = Inr (pd, v1)"
    "v2 = memcpy v1 pd (shared v1) (4 * ((memSize (kConfig v1) + 4194304 - 1) div 4194304))"
    "pd \<notin> A" "offset pd = 0" "vheld start T v2 (insert pd A)" "aspace v2 (insert pd A) pd"
    "\<forall>i < 1024. tbl v2 pd i = (if i < low_tables (memSize (kConfig v)) then tbl v (shared v) i else None)"
    "\<forall>va. lookup v2 pd va = (if pdi_of va < low_tables (memSize (kConfig v)) then lookup v (shared v) va
                           else None)"
    "keeps {pd} v v2" "same_env v v2" "invlpgs v2 = invlpgs v"
    using copied_directory [OF h sh k _ m] room by fastforce
  have fin: "finite A" using h by (simp add: vheld_def)
  have up: "512 \<le> pdi_of ?io" "512 \<le> pdi_of ?lo" using io(2) lo(2) upper_half by simp_all
  have cf: "kConfig v2 = kConfig v" using c(10) by (simp add: same_env_def)
  have r2: "card (insert pd A) < T" using room c(3) fin by simp
  obtain t3 v3 where m3: "map_page v2 pd ?io ?io = Inr v3" "vheld start T v3 (insert t3 (insert pd A))"
    "aspace v3 (insert t3 (insert pd A)) pd"
    "tbl v2 pd (pdi_of ?io) = Some t3 \<or> tbl v2 pd (pdi_of ?io) = None \<and> t3 \<notin> insert pd A"
    "\<forall>i < 1024. tbl v3 pd i = (if i = pdi_of ?io then Some t3 else tbl v2 pd i)"
    "\<forall>va'. lookup v3 pd va' = (if framedown va' = framedown ?io then Some ?io else lookup v2 pd va')"
    "keeps {pd, t3} v2 v3" "same_env v2 v3" "invlpgs v3 = invlpgs v2"
    using map_aspace [OF c(5,6) io(1), of ?io] r2 special_aligned [OF io(1), of v2] cf by auto
  have t3: "t3 \<notin> insert pd A" using m3(4) c(7) up k pdi_lt by auto
  have cf3: "kConfig v3 = kConfig v" using m3(8) cf by (simp add: same_env_def)
  have r3: "card (insert t3 (insert pd A)) < T" using room c(3) fin t3 by simp
  obtain t4 w where m4: "map_page v3 pd ?lo ?lo = Inr w" "vheld start T w (insert t4 (insert t3 (insert pd A)))"
    "aspace w (insert t4 (insert t3 (insert pd A))) pd"
    "tbl v3 pd (pdi_of ?lo) = Some t4 \<or> tbl v3 pd (pdi_of ?lo) = None \<and> t4 \<notin> insert t3 (insert pd A)"
    "\<forall>i < 1024. tbl w pd i = (if i = pdi_of ?lo then Some t4 else tbl v3 pd i)"
    "\<forall>va'. lookup w pd va' = (if framedown va' = framedown ?lo then Some ?lo else lookup v3 pd va')"
    "keeps {pd, t4} v3 w" "same_env v3 w" "invlpgs w = invlpgs v3"
    using map_aspace [OF m3(2,3) lo(1), of ?lo] r3 special_aligned [OF lo(1), of v3] cf3 by auto
  have t4: "t4 \<notin> A" using m4(4) m3(5) c(7) up k pdi_lt t3 by (auto split: if_splits)
  have lf: "leaf w pd i j = None" if "512 \<le> i" "i < 1024" "j < 1024" for i j
  proof -
    have "leaf v2 pd i j = None" using c(7) that k by (simp add: leaf_def)
    then have "leaf v3 pd i j = None"
      using map_leaf [OF m3(6,8) that(2,3)] special_aligned [OF io(1), of v2] cf by auto
    then show ?thesis
      using map_leaf [OF m4(6,8) that(2,3)] special_aligned [OF lo(1), of v3] cf3 by auto
  qed
  have tw: "tbl w pd i = (if i = pdi_of ?lo then Some t4 else if i = pdi_of ?io then Some t3 else None)"
    if "512 \<le> i" "i < 1024" for i
    using that m4(5) m3(5) c(7) k by simp
  have "leaves w pd i 1024 = {}" if "512 \<le> i" "i < 1024" for i
    using lf that by (auto simp: leaves_def)
  then have "rows w pd 1024 = {t. \<exists>i. 512 \<le> i \<and> i < 1024 \<and> tbl w pd i = Some t}"
    by (auto simp: rows_def)
  also have "\<dots> = {t3, t4}"
  proof (cases "pdi_of ?io = pdi_of ?lo")
    case True
    then have "t4 = t3" using m4(4) m3(5) pdi_lt by auto
    then show ?thesis using tw up True pdi_lt by (auto split: if_splits)
  next
    case False
    have "tbl w pd (pdi_of ?io) = Some t3" "tbl w pd (pdi_of ?lo) = Some t4"
      using tw up pdi_lt False by auto
    then show ?thesis using tw up pdi_lt by (auto split: if_splits)
  qed
  finally have pr: "priv w pd = {pd, t3, t4}" by (auto simp: priv_def)
  have un: "A \<union> priv w pd = insert t4 (insert t3 (insert pd A))" unfolding pr by auto
  have c3: "card (priv w pd) \<le> 3" unfolding pr by (simp add: card_insert_if)
  have kp: "keeps (priv w pd) v w"
    unfolding pr
    by (rule keeps_trans1 [OF keeps_trans1 [OF keeps_mono [OF c(9)] keeps_mono [OF m3(7)]] keeps_mono [OF m4(7)]])
      auto
  have "make_pd v = Inr (pd, w)"
    unfolding make_pd_def Let_def using c(1,2) m3(1) m4(1) cf cf3 by simp
  moreover have "A \<inter> priv w pd = {}" unfolding pr using c(3) t3 t4 by auto
  moreover have "same_env v w" using c(10) m3(8) m4(8) same_env_trans by blast
  moreover have "invlpgs w = invlpgs v" using c(11) m3(9) m4(9) by simp
  moreover have "vheld start T w (A \<union> priv w pd)" "aspace w (A \<union> priv w pd) pd"
    using m4(2,3) unfolding un .
  ultimately show ?thesis
    using m4(6) m3(6) c(8) kp c3 io(1) lo(1) by (intro exI [of _ pd] exI [of _ w]) simp
qed

section \<open>The identity mapping\<close>

text \<open>
  After \<open>n\<close> rounds of \<^verbatim>\<open>global_init\<close> the pages 1 to \<open>n\<close> are mapped to themselves, and
  a table exists for every started group of 1024 pages.
\<close>

definition identity :: "u32 \<Rightarrow> nat \<Rightarrow> nat \<Rightarrow> vmm \<Rightarrow> nat \<Rightarrow> vmm \<Rightarrow> bool" where
  "identity start T c v n w \<longleftrightarrow>
     (\<exists>A. vheld start T w A \<and> pd_wf w A (shared w) \<and> kConfig w = kConfig v \<and>
        card A \<le> c + (if n = 0 then 0 else Suc (n div 1024)) \<and>
        (\<forall>i < 1024. tbl w (shared w) i \<noteq> None \<longleftrightarrow> 0 < n \<and> i \<le> n div 1024) \<and>
        (\<forall>va. lookup w (shared w) va =
           (if 4096 \<le> unat va \<and> unat va < 4096 * (n + 1) then Some (framedown va) else None)))"

lemma page_bounds:
  assumes "unat p = 4096 * k"
  shows "framedown va = p \<longleftrightarrow> 4096 * k \<le> unat va \<and> unat va < 4096 * k + 4096"
proof -
  have "offset p = 0" by (simp add: offset_0_iff assms)
  then show ?thesis by (simp add: framedown_eq_iff assms)
qed

lemma identity_step:
  assumes id: "identity start T c v n w" and va: "unat va = 4096 * (n + 1)" and n: "n + 1 < 1048576"
    and room: "c + (n + 1) div 1024 < T"
  shows "\<exists>w'. map_page w (shared w) va va = Inr w' \<and> identity start T c v (Suc n) w'"
proof -
  obtain A where I: "vheld start T w A" "pd_wf w A (shared w)" "kConfig w = kConfig v"
    "card A \<le> c + (if n = 0 then 0 else Suc (n div 1024))"
    "\<forall>i < 1024. tbl w (shared w) i \<noteq> None \<longleftrightarrow> 0 < n \<and> i \<le> n div 1024"
    "\<forall>va. lookup w (shared w) va =
           (if 4096 \<le> unat va \<and> unat va < 4096 * (n + 1) then Some (framedown va) else None)"
    using id by (auto simp: identity_def)
  have pdi: "pdi_of va = Suc n div 1024"
    using div_mult2_eq [of "4096 * Suc n" 4096 1024] by (simp add: pdi_of_eq va)
  have o: "offset va = 0" by (simp add: offset_0_iff va)
  have grow: "tbl w (shared w) (pdi_of va) = None \<Longrightarrow>
      card A + 1 \<le> c + Suc (Suc n div 1024)"
  proof -
    assume "tbl w (shared w) (pdi_of va) = None"
    then have "n = 0 \<or> n div 1024 < Suc n div 1024" using I(5) pdi_lt [of va] pdi by auto
    then show ?thesis using I(4) by (auto split: if_splits)
  qed
  have r: "tbl w (shared w) (pdi_of va) = None \<longrightarrow> card A < T" using grow room by auto
  obtain t w' where M: "map_page w (shared w) va va = Inr w'" "vheld start T w' (insert t A)"
    "pd_wf w' (insert t A) (shared w)"
    "tbl w (shared w) (pdi_of va) = Some t \<or> tbl w (shared w) (pdi_of va) = None \<and> t \<notin> A"
    "\<forall>i < 1024. tbl w' (shared w) i = (if i = pdi_of va then Some t else tbl w (shared w) i)"
    "\<forall>va'. lookup w' (shared w) va' = (if framedown va' = framedown va then Some va
                                       else lookup w (shared w) va')"
    "same_env w w'"
    using map_lookup [OF I(1,2) o r] by blast
  have e: "shared w' = shared w" "kConfig w' = kConfig v" using M(7) I(3) by (auto simp: same_env_def)
  have fin: "finite A" using I(1) by (simp add: vheld_def)
  have mono: "n div 1024 \<le> Suc n div 1024" by (simp add: div_le_mono)
  have t: "tbl w (shared w) (pdi_of va) = Some t \<Longrightarrow> t \<in> A" using pd_wfD(2) [OF I(2) pdi_lt] .
  have "card (insert t A) \<le> c + Suc (Suc n div 1024)"
  proof (cases "tbl w (shared w) (pdi_of va)")
    case None
    then show ?thesis using grow card_insert_le_m1 fin by (simp add: card_insert_if)
  next
    case (Some u)
    then have "insert t A = A" using M(4) t by auto
    then show ?thesis using I(4) mono by (auto split: if_splits)
  qed
  moreover have "(tbl w' (shared w) i \<noteq> None) = (i \<le> Suc n div 1024)" if "i < 1024" for i
  proof -
    have "i \<le> Suc n div 1024 \<longleftrightarrow> i = Suc n div 1024 \<or> 0 < n \<and> i \<le> n div 1024"
      using mono by (cases "n = 0") (auto simp: div_Suc)
    then show ?thesis using M(5) I(5) that pdi by auto
  qed
  moreover have "lookup w' (shared w) va' =
      (if 4096 \<le> unat va' \<and> unat va' < 4096 * (Suc n + 1) then Some (framedown va') else None)" for va'
    using M(6) I(6) o page_bounds [OF va, of va'] by auto
  ultimately have "identity start T c v (Suc n) w'"
    unfolding identity_def e using M(2,3) by (intro exI [of _ "insert t A"]) simp
  then show ?thesis using M(1) by blast
qed

lemma map_low_ok:
  assumes "identity start T c v n w" and "unat va = 4096 * (n + 1)" and "k = Suc fuel"
    and "unat (memSize (kConfig v)) \<le> 4096 * (n + 1 + fuel)"
    and "n + 1 + fuel < 1048576" "c + (n + fuel) div 1024 < T"
    and "unat va < unat (memSize (kConfig v)) + 4096"
  shows "\<exists>w' n'. map_low (Suc fuel) va w = Inr w' \<and> identity start T c v n' w' \<and>
    4096 * n' < unat (memSize (kConfig v)) \<and> unat (memSize (kConfig v)) \<le> 4096 * (n' + 1)"
  using assms
proof (induction fuel arbitrary: n va w k)
  case 0
  have "kConfig w = kConfig v" using 0(1) by (auto simp: identity_def)
  then show ?case using 0 by (intro exI [of _ w] exI [of _ n]) (auto simp: word_less_nat_alt)
next
  case (Suc fuel)
  have cf: "kConfig w = kConfig v" using Suc.prems(1) by (auto simp: identity_def)
  show ?case
  proof (cases "va < memSize (kConfig v)")
    case False
    then show ?thesis using Suc.prems cf
      by (intro exI [of _ w] exI [of _ n]) (auto simp: word_less_nat_alt)
  next
    case True
    have r: "c + (n + 1) div 1024 < T"
      using Suc.prems(6) div_le_mono [of "n + 1" "n + Suc fuel" 1024] by simp
    obtain w1 where w1: "map_page w (shared w) va va = Inr w1" "identity start T c v (Suc n) w1"
      using identity_step [OF Suc.prems(1,2) _ r] Suc.prems(5) by auto
    have v1: "unat (va + 4096) = 4096 * (Suc n + 1)"
      using Suc.prems(2,5) by (subst unat_add_lem [THEN iffD1]) simp_all
    have "\<exists>w' n'. map_low (Suc fuel) (va + 4096) w1 = Inr w' \<and> identity start T c v n' w' \<and>
      4096 * n' < unat (memSize (kConfig v)) \<and> unat (memSize (kConfig v)) \<le> 4096 * (n' + 1)"
      using Suc.prems True v1
      by (intro Suc.IH [OF w1(2) v1 refl]) (auto simp: word_less_nat_alt)
    then show ?thesis using True cf w1(1) by simp
  qed
qed

lemma map_low_fuel: "map_low fuel va v = Inr w \<Longrightarrow> fuel \<le> fuel' \<Longrightarrow> map_low fuel' va v = Inr w"
proof (induction fuel arbitrary: va v fuel')
  case (Suc fuel)
  then obtain f where f: "fuel' = Suc f" "fuel \<le> f" by (cases fuel') auto
  then show ?case using Suc by (auto split: if_splits)
qed simp

lemma ceil_pages: "0 < m \<Longrightarrow> m \<le> 4096 * ((m - 1) div 4096 + 1) \<and> 4096 * ((m - 1) div 4096) < m"
  for m :: nat
proof (cases m)
  case (Suc k)
  define q r where q: "q = k div 4096" and r: "r = k mod 4096"
  have k: "k = 4096 * q + r" unfolding q r by simp
  have "r < 4096" unfolding r by simp
  then have "Suc k \<le> 4096 * (q + 1) \<and> 4096 * q < Suc k" unfolding k by simp
  then show ?thesis by (simp add: Suc q)
qed simp

lemma global_init_ok:
  assumes h: "vheld start T v A" and pos: "0 < memSize (kConfig v)"
    and mx: "memSize (kConfig v) \<le> 0xFFFFF000"
    and room: "card A + 2 + unat (memSize (kConfig v)) div 4194304 \<le> T"
    and fuel: "unat (memSize (kConfig v)) \<le> 4096 * fuel"
  shows "\<exists>w n. global_init fuel v = Inr w \<and> identity start T (card A + 1) v n w \<and>
    4096 * n < unat (memSize (kConfig v)) \<and> unat (memSize (kConfig v)) \<le> 4096 * (n + 1)"
proof -
  let ?m = "unat (memSize (kConfig v))"
  have mb: "?m \<le> 4294963200" using mx by (simp add: word_le_nat_alt)
  have mp: "0 < ?m" using pos by (simp add: word_less_nat_alt)
  define f where "f = (?m - 1) div 4096"
  have f: "?m \<le> 4096 * (f + 1)" "4096 * f < ?m" 
    using ceil_pages [OF mp] unfolding f_def by simp_all
  have fd: "f div 1024 \<le> ?m div 4194304"
    using div_le_mono [of "4096 * f" ?m 4194304] f(2) by simp
  obtain p v1 where a: "valloc v = Inr (p, v1)" "p \<notin> A" "offset p = 0" "vheld start T v1 (insert p A)"
      "\<forall>i < 1024. rd v1 p i = 0" "same_env v v1"
    using valloc_ok [OF h] room by fastforce
  let ?w = "v1\<lparr>shared := p\<rparr>"
  have fin: "finite A" using h by (simp add: vheld_def)
  have cf: "kConfig v1 = kConfig v" using a(6) by (simp add: same_env_def)
  have tb: "tbl ?w p i = None" if "i < 1024" for i
    using a(5) that by (simp add: tbl_def rd_def)
  have "vheld start T ?w (insert p A)" using a(4) by (rule vheld_cong) simp
  moreover have "pd_wf ?w (insert p A) p" by (simp add: pd_wf_def tb)
  moreover have "lookup ?w p va = None" for va by (simp add: lookup_def tb)
  ultimately have id: "identity start T (card A + 1) v 0 ?w"
    unfolding identity_def using a(2) cf fin tb by (intro exI [of _ "insert p A"]) simp
  obtain w n where w: "map_low (Suc f) 4096 ?w = Inr w" "identity start T (card A + 1) v n w"
    "4096 * n < ?m" "?m \<le> 4096 * (n + 1)"
    using map_low_ok [OF id, of 4096 "Suc f" f] f fd mb mp room by auto
  have "Suc f \<le> fuel" using f(2) fuel by linarith
  then have "map_low fuel 4096 ?w = Inr w" using map_low_fuel [OF w(1)] by blast
  then show ?thesis using a(1) w by (intro exI [of _ w] exI [of _ n]) (simp add: global_init_def)
qed

lemma map_page_config: "map_page v pd va pa = Inr w \<Longrightarrow> kConfig w = kConfig v"
  by (auto simp: map_page_def Let_def valloc_def bindR_eq_Inr split: if_splits)

lemma map_low_never:
  assumes "0xFFFFF000 < memSize (kConfig v)" "offset va = 0"
  shows "map_low fuel va v \<noteq> Inr w"
  using assms
proof (induction fuel arbitrary: va v)
  case (Suc fuel)
  have "va \<le> 0xFFFFF000"
    using aligned_bound [OF Suc.prems(2)] by (simp add: word_le_nat_alt)
  then have va: "va < memSize (kConfig v)" using Suc.prems(1) by simp
  have o: "offset (va + 4096) = 0"
  proof -
    have "unat (va + 4096) mod 4096 = (unat va + 4096) mod 4294967296 mod 4096"
      by (simp add: unat_word_ariths)
    also have "\<dots> = (unat va + 4096) mod 4096" by (rule mod_mod_cancel) simp
    finally show ?thesis using Suc.prems(2) by (simp add: offset_0_iff)
  qed
  show ?case
    using va Suc.IH [OF _ o] Suc.prems(1) map_page_config
    by (auto simp: bindR_eq_Inr)
qed simp

end
