(* ===== verification/Vmm_Props.thy ===== *)
theory Vmm_Props
  imports Vmm_Init
begin

unbundle bit_operations_syntax

text \<open>
  The properties of the page-table code, and a machine on which they are exercised: two
  megabytes of memory with frames from address \<^verbatim>\<open>0x100000\<close> on, one of which holds an empty
  page directory.
\<close>

definition ex_conf :: config where
  "ex_conf = \<lparr>memSize = 0x200000, nOtherProcs = 0, totalProcs = 1, localAPIC = 0xFEE00000,
     madtFlags = 1, ioAPIC = 0xFEC00000, apicInfo = [], oemid = []\<rparr>"

definition ex_vmm :: vmm where
  "ex_vmm = \<lparr>phys = \<lparr>mem = (\<lambda>_. 0), firstFree = 0, pavail = 0x101000, plimit = 0x200000\<rparr>,
     shared = 0x100000, kConfig = ex_conf, cr3 = 0x100000, invlpgs = []\<rparr>"

lemma ex_touched: "touched 0x100000 (phys ex_vmm) = {0x100000}"
proof -
  have "offset x = 0 \<Longrightarrow> x < 0x100000 + 4096 \<longleftrightarrow> x < 0x100000 \<or> x = 0x100000" for x
    by (rule aligned_step(5) [of _ "0x102000"]) (simp_all add: offset_def)
  then show ?thesis by (auto simp: touched_def ex_vmm_def offset_def)
qed

lemma ex_held: "vheld 0x100000 256 ex_vmm {0x100000}"
proof -
  have "pm_inv 0x100000 (phys ex_vmm) []"
    by (simp add: pm_inv_def ex_vmm_def offset_def)
  then have "owns 0x100000 (phys ex_vmm) {0x100000} 255"
    unfolding owns_def by (intro exI [of _ "[]"]) (simp add: ex_touched, simp add: ex_vmm_def)
  then show ?thesis by (simp add: vheld_def)
qed

lemma ex_tbl [simp]: "tbl ex_vmm p i = None"
  by (simp add: tbl_def rd_def ex_vmm_def)

lemma ex_aspace: "aspace ex_vmm {0x100000} 0x100000"
  by (rule empty_upper) (simp_all add: pd_wf_def)

lemma ex_sel: "cr3 ex_vmm = 0x100000" "shared ex_vmm = 0x100000" "kConfig ex_vmm = ex_conf"
  by (simp_all add: ex_vmm_def)

section \<open>Mapping, unmapping, page faults\<close>

text \<open>
  \<^verbatim>\<open>map\<close> makes the page of \<^verbatim>\<open>va\<close> translate to \<^verbatim>\<open>pa\<close> and changes the translation of no
  other page, taking at most one frame for a new table; it writes to the page directory and
  that page's table only.
\<close>
theorem map_correct:
  assumes "vheld start T v A" "pd_wf v A pd" "offset pa = 0"
    and "tbl v pd (pdi_of va) = None \<longrightarrow> card A < T"
  shows "\<exists>t w. map_page v pd va pa = Inr w \<and> vheld start T w (insert t A) \<and> pd_wf w (insert t A) pd \<and>
    (\<forall>va'. lookup w pd va' = (if framedown va' = framedown va then Some pa else lookup v pd va')) \<and>
    keeps {pd, t} v w \<and> invlpgs w = invlpgs v"
  using map_lookup [OF assms] by blast

theorem map_correct_witness:
  "\<exists>w. map_page ex_vmm 0x100000 0x80001234 0x150000 = Inr w \<and>
       lookup w 0x100000 0x80001000 = Some 0x150000 \<and> lookup w 0x100000 0x80002000 = None"
proof -
  have "pd_wf ex_vmm {0x100000} 0x100000" using ex_aspace by (rule aspaceD)
  then obtain w where "map_page ex_vmm 0x100000 0x80001234 0x150000 = Inr w"
    "\<forall>va'. lookup w 0x100000 va' =
       (if framedown va' = framedown 0x80001234 then Some 0x150000 else lookup ex_vmm 0x100000 va')"
    using map_correct [OF ex_held, of "0x100000" "0x150000" "0x80001234"]
    by (auto simp: offset_def)
  then show ?thesis by (auto simp: framedown_def lookup_def)
qed

text \<open>
  C9. Unmapping a private page gives its frame back, leaves the translation of every other
  page alone and drops the page's cached translation; unmapping a page that is not mapped, or
  one the kernel owns, does nothing.
\<close>
theorem unmap_correct:
  assumes "vheld start T v A" "aspace v A pd" "offset va = 0"
  shows "if is_special v va \<or> lookup v pd va = None then unmap v pd va = Inr v
    else \<exists>f w. lookup v pd va = Some f \<and> unmap v pd va = Inr w \<and> f \<in> A \<and> vheld start T w (A - {f}) \<and>
      aspace w (A - {f}) pd \<and>
      (\<forall>va'. lookup w pd va' = (if framedown va' = va then None else lookup v pd va')) \<and>
      invlpgs w = va # invlpgs v"
proof (cases "is_special v va \<or> lookup v pd va = None")
  case False
  then obtain f where "lookup v pd va = Some f" by auto
  with unmap_mapped [OF assms _ this] False show ?thesis by auto
qed (simp add: unmap_unmapped)

theorem unmap_correct_witness: "unmap ex_vmm 0x100000 0x80000000 = Inr ex_vmm"
  using unmap_correct [OF ex_held ex_aspace, of "0x80000000"] by (simp add: offset_def lookup_def)

text \<open>
  C5. A page fault at a private address maps a fresh, zeroed frame there and lets the thread
  continue: every other page of the faulting address space translates as before, and a second
  address space that shares no private frame with it keeps its translation and the contents of
  its frames.
\<close>
theorem page_fault_correct:
  assumes "vheld start T v A" "aspace v A pd" "card A + 2 \<le> T" "0x80000000 \<le> va" "cr3 v = pd"
  shows "\<exists>p t w. vmm_pageFault v pd pd va = Inr (Resume, w) \<and> p \<notin> A \<and>
    vheld start T w (insert t (insert p A)) \<and> aspace w (insert t (insert p A)) pd \<and>
    (\<forall>a. framedown a = p \<longrightarrow> mem (phys w) a = 0) \<and>
    (\<forall>va'. lookup w pd va' = (if framedown va' = framedown va then Some p else lookup v pd va')) \<and>
    (\<forall>pd2. aspace v A pd2 \<and> pd \<notin> tables v pd2 \<and> set_option (tbl v pd (pdi_of va)) \<inter> tables v pd2 = {} \<longrightarrow>
       aspace w (insert t (insert p A)) pd2 \<and> (\<forall>va'. lookup w pd2 va' = lookup v pd2 va')) \<and>
    (\<forall>a. framedown a \<in> A - {pd} - set_option (tbl v pd (pdi_of va)) \<longrightarrow> mem (phys w) a = mem (phys v) a)"
proof -
  note h = assms(1)
  obtain p t w where P: "vmm_pageFault v pd pd va = Inr (Resume, w)" "p \<notin> A" "t \<noteq> p"
    "tbl v pd (pdi_of va) = Some t \<or> tbl v pd (pdi_of va) = None \<and> t \<notin> A"
    "vheld start T w (insert t (insert p A))" "aspace w (insert t (insert p A)) pd"
    "\<forall>a. framedown a = p \<longrightarrow> mem (phys w) a = 0"
    "\<forall>va'. lookup w pd va' = (if framedown va' = framedown va then Some p else lookup v pd va')"
    "keeps {pd, t, p} v w" "same_env v w"
    using page_fault_maps_aux [OF assms] by blast
  have "aspace w (insert t (insert p A)) pd2 \<and> lookup w pd2 va' = lookup v pd2 va'"
    if as2: "aspace v A pd2" and dis: "pd \<notin> tables v pd2"
      "set_option (tbl v pd (pdi_of va)) \<inter> tables v pd2 = {}" for pd2 va'
  proof -
    have X: "{pd, t, p} \<inter> tables v pd2 = {}"
      using P(2,4) dis tables_held [OF as2] by auto
    have o: "offset pd2 = 0" using vheld_aligned [OF h pd_wfD(1) [OF aspaceD(1) [OF as2]]] .
    have "A \<subseteq> insert t (insert p A)" by auto
    then show ?thesis
      using aspace_stable(1) [OF P(9) X P(10) h as2] lookup_stable [OF P(9) o X] by blast
  qed
  moreover have "mem (phys w) a = mem (phys v) a"
    if "framedown a \<in> A - {pd} - set_option (tbl v pd (pdi_of va))" for a
    using that P(2,4,9) unfolding keeps_def by auto
  ultimately show ?thesis
    using P(1,2,5-8) by (intro exI [of _ p] exI [of _ t] exI [of _ w]) blast
qed

theorem page_fault_correct_witness:
  "\<exists>p w. vmm_pageFault ex_vmm 0x100000 0x100000 0x80001234 = Inr (Resume, w) \<and>
         p \<noteq> 0x100000 \<and> lookup w 0x100000 0x80001000 = Some p"
proof -
  obtain p w where "vmm_pageFault ex_vmm 0x100000 0x100000 0x80001234 = Inr (Resume, w)" "p \<notin> {0x100000}"
    "\<forall>va'. lookup w 0x100000 va' = (if framedown va' = framedown 0x80001234 then Some p
                                    else lookup ex_vmm 0x100000 va')"
    using page_fault_correct [OF ex_held ex_aspace _ _ ex_sel(1), of "0x80001234"] by auto
  then show ?thesis by (auto simp: framedown_def)
qed

text \<open>
  A page fault below \<^verbatim>\<open>0x80000000\<close>, the null page included, ends the process and
  changes neither memory nor page tables.
\<close>
theorem page_fault_kernel_half:
  assumes "va < 0x80000000"
  shows "vmm_pageFault v (cr3 v) (cr3 v) va = Inr (Exit, v)"
proof -
  have "\<not> 0x80000000 \<le> framedown va"
    using assms unfolding word_le_nat_alt word_less_nat_alt framedown_unat by simp
  then show ?thesis by (simp add: vmm_pageFault_def)
qed

theorem page_fault_kernel_half_witness: "vmm_pageFault ex_vmm 0x100000 0x100000 0xC = Inr (Exit, ex_vmm)"
  using page_fault_kernel_half [of "0xC" ex_vmm] by (simp add: ex_sel)

text \<open>
  The fault handler does not check whether the page was present: a fault of user code on
  the page of the local interrupt controller, which it may not access, replaces the mapping
  of the controller by a mapping of ordinary memory.
\<close>
theorem page_fault_on_apic:
  assumes "vheld start T v A" "aspace v A pd" "card A + 2 \<le> T" "cr3 v = pd"
    and "0x80000000 \<le> localAPIC (kConfig v)" "plimit (phys v) \<le> localAPIC (kConfig v)"
  shows "\<exists>p w. vmm_pageFault v pd pd (localAPIC (kConfig v)) = Inr (Resume, w) \<and>
    lookup w pd (localAPIC (kConfig v)) = Some p \<and> p \<noteq> localAPIC (kConfig v)"
proof -
  obtain p v1 w where P: "vmm_pageFault v pd pd (localAPIC (kConfig v)) = Inr (Resume, w)"
    "\<forall>va'. lookup w pd va' = (if framedown va' = framedown (localAPIC (kConfig v)) then Some p
                              else lookup v pd va')" "valloc v = Inr (p, v1)"
    using page_fault_maps_aux [OF assms(1-3,5,4)] by blast
  have "p < plimit (phys v)" using valloc_bounds(2) [OF assms(1) P(3)] .
  then show ?thesis using P(1,2) assms(6) by auto
qed

theorem page_fault_on_apic_witness:
  "\<exists>p w. vmm_pageFault ex_vmm 0x100000 0x100000 0xFEE00000 = Inr (Resume, w) \<and>
         lookup w 0x100000 0xFEE00000 = Some p \<and> p \<noteq> 0xFEE00000"
  using page_fault_on_apic [OF ex_held ex_aspace _ ex_sel(1)]
  by (simp add: ex_sel ex_conf_def) (simp add: ex_vmm_def)

section \<open>Address spaces\<close>

text \<open>
  C6. \<^verbatim>\<open>delete_private\<close> leaves the current process without any private page: every
  private address stops translating, the pages of the interrupt controllers and the shared half
  are left alone, exactly the private leaf frames and the tables without a controller page
  are given back, and the cached translation of every page that was mapped is dropped.
\<close>
theorem delete_private_correct:
  assumes "vheld start T v A" "aspace v A pd" "cr3 v = pd"
  shows "\<exists>w. delete_private v pd = Inr w \<and> vheld start T w (A - dropped v pd 1024) \<and>
    aspace w (A - dropped v pd 1024) pd \<and>
    (\<forall>va. lookup w pd va = (if 0x80000000 \<le> va \<and> \<not> is_special v (framedown va) then None
                          else lookup v pd va)) \<and>
    (\<forall>va. 0x80000000 \<le> va \<and> \<not> is_special v (framedown va) \<and> lookup v pd va \<noteq> None \<longrightarrow>
       framedown va \<in> set (invlpgs w)) \<and>
    keeps (priv v pd) v w"
proof -
  obtain w where w: "delete_private v pd = Inr w" "rows_cleared start T A pd v 1024 w"
    using delete_private_ok [OF assms] by blast
  note R = w(2) [unfolded rows_cleared_def]
  have "framedown va \<in> set (invlpgs w)"
    if "0x80000000 \<le> va" "\<not> is_special v (framedown va)" "lookup v pd va \<noteq> None" for va
  proof -
    let ?i = "pdi_of va" and ?j = "pti_of va"
    have "leaf v pd ?i ?j = lookup v pd (framedown va)"
      using that(2) by (simp add: leaf_lookup va_of_framedown)
    also have "\<dots> = lookup v pd va"
      using same_page_iff [of "framedown va" va] by (simp add: lookup_def split: option.splits)
    finally have "va_of ?i ?j \<in> set (invlpgs w)"
      using R that(1,3) upper_half [of va] by auto
    then show ?thesis by (simp add: va_of_framedown)
  qed
  then show ?thesis using w(1) R by (intro exI [of _ w]) (simp add: upper_half)
qed

theorem delete_private_correct_witness:
  "\<exists>w. delete_private ex_vmm 0x100000 = Inr w \<and> lookup w 0x100000 0x80000000 = None"
  using delete_private_correct [OF ex_held ex_aspace ex_sel(1)] by (auto simp: lookup_def)

text \<open>
  \<^verbatim>\<open>delete_pd\<close> of an address space that is not in use gives back exactly its directory,
  its own tables and its private frames, and writes to no other frame.
\<close>
theorem delete_pd_correct:
  assumes "vheld start T v A" "aspace v A pd" "pd \<noteq> cr3 v"
  shows "\<exists>w. delete_pd v pd = Inr w \<and> vheld start T w (A - priv v pd) \<and> keeps (priv v pd) v w"
  using delete_pd_ok [OF assms(2,1,3)] by blast

theorem delete_pd_correct_witness:
  "\<exists>w. delete_pd (ex_vmm\<lparr>cr3 := 0\<rparr>) 0x100000 = Inr w \<and> vheld 0x100000 256 w {}"
proof -
  let ?v = "ex_vmm\<lparr>cr3 := 0\<rparr>"
  have t: "tbl ?v p i = None" for p i by (simp add: tbl_def rd_def ex_vmm_def)
  have wf: "pd_wf ?v {0x100000} 0x100000" by (simp add: pd_wf_def t)
  have as: "aspace ?v {0x100000} 0x100000" "rows ?v 0x100000 1024 = {}"
    using empty_upper [OF wf] by (simp_all add: t)
  have "vheld 0x100000 256 ?v {0x100000}" using ex_held by (rule vheld_cong) simp
  from delete_pd_correct [OF this as(1)] show ?thesis by (auto simp: priv_def as(2))
qed

text \<open>
  C7. \<^verbatim>\<open>make_pd\<close> builds an address space that translates the shared half like the shared
  directory, the two controller pages to themselves and nothing else, out of frames nobody held;
  deleting it right away gives exactly these frames back.
\<close>
theorem make_pd_correct:
  assumes "vheld start T v A" "pd_wf v A (shared v)" "card A + 3 \<le> T"
    and "memSize (kConfig v) \<le> 0x80000000"
    and "offset (ioAPIC (kConfig v)) = 0" "0x80000000 \<le> ioAPIC (kConfig v)"
    and "offset (localAPIC (kConfig v)) = 0" "0x80000000 \<le> localAPIC (kConfig v)"
  shows "\<exists>pd w. make_pd v = Inr (pd, w) \<and> vheld start T w (A \<union> priv w pd) \<and>
    aspace w (A \<union> priv w pd) pd \<and> A \<inter> priv w pd = {} \<and>
    (\<forall>va. lookup w pd va =
       (if framedown va = localAPIC (kConfig v) then Some (localAPIC (kConfig v))
        else if framedown va = ioAPIC (kConfig v) then Some (ioAPIC (kConfig v))
        else if pdi_of va < low_tables (memSize (kConfig v)) then lookup v (shared v) va else None)) \<and>
    keeps (priv w pd) v w \<and>
    (pd \<noteq> cr3 w \<longrightarrow> (\<exists>u. delete_pd w pd = Inr u \<and> vheld start T u A \<and>
       (\<forall>a. framedown a \<in> A \<longrightarrow> mem (phys u) a = mem (phys v) a)))"
proof -
  obtain pd w where M: "make_pd v = Inr (pd, w)" "vheld start T w (A \<union> priv w pd)"
    "aspace w (A \<union> priv w pd) pd" "A \<inter> priv w pd = {}"
    "\<forall>va. lookup w pd va =
       (if framedown va = localAPIC (kConfig v) then Some (localAPIC (kConfig v))
        else if framedown va = ioAPIC (kConfig v) then Some (ioAPIC (kConfig v))
        else if pdi_of va < low_tables (memSize (kConfig v)) then lookup v (shared v) va else None)"
    "keeps (priv w pd) v w"
    using make_pd_aux [OF assms] by blast
  have "\<exists>u. delete_pd w pd = Inr u \<and> vheld start T u A \<and>
       (\<forall>a. framedown a \<in> A \<longrightarrow> mem (phys u) a = mem (phys v) a)" if c: "pd \<noteq> cr3 w"
  proof -
    obtain u where u: "delete_pd w pd = Inr u" "vheld start T u (A \<union> priv w pd - priv w pd)"
      "keeps (priv w pd) w u" using delete_pd_ok [OF M(3,2) c] by blast
    have "A \<union> priv w pd - priv w pd = A" using M(4) by auto
    moreover have "mem (phys u) a = mem (phys v) a" if "framedown a \<in> A" for a
      using keeps_trans1 [OF M(6) u(3)] M(4) that unfolding keeps_def by blast
    ultimately show ?thesis using u(1,2) by auto
  qed
  then show ?thesis using M by blast
qed

theorem make_pd_correct_witness:
  "\<exists>pd w. make_pd ex_vmm = Inr (pd, w) \<and> lookup w pd 0xFEC00010 = Some 0xFEC00000 \<and>
          lookup w pd 0x90000000 = None"
proof -
  have wf: "pd_wf ex_vmm {0x100000} (shared ex_vmm)" by (simp add: pd_wf_def ex_sel)
  have p: "card {0x100000 :: u32} + 3 \<le> 256" "memSize (kConfig ex_vmm) \<le> 0x80000000"
    "offset (ioAPIC (kConfig ex_vmm)) = 0" "0x80000000 \<le> ioAPIC (kConfig ex_vmm)"
    "offset (localAPIC (kConfig ex_vmm)) = 0" "0x80000000 \<le> localAPIC (kConfig ex_vmm)"
    by (simp_all add: ex_sel ex_conf_def offset_def)
  obtain pd w where M: "make_pd ex_vmm = Inr (pd, w)"
    "\<forall>va. lookup w pd va =
       (if framedown va = localAPIC (kConfig ex_vmm) then Some (localAPIC (kConfig ex_vmm))
        else if framedown va = ioAPIC (kConfig ex_vmm) then Some (ioAPIC (kConfig ex_vmm))
        else if pdi_of va < low_tables (memSize (kConfig ex_vmm)) then lookup ex_vmm (shared ex_vmm) va
        else None)"
    using make_pd_correct [OF ex_held wf p] by (elim exE conjE) (rule that)
  have "lookup w pd 0xFEC00010 = Some 0xFEC00000" "lookup w pd 0x90000000 = None"
    unfolding M(2) [rule_format] ex_sel
    by (simp_all add: ex_conf_def framedown_def pdi_of_def low_tables_def)
  then show ?thesis using M(1) by blast
qed

text \<open>
  With enough frames, \<^verbatim>\<open>global_init\<close> ends and maps every page from address 4096 up to
  the end of memory to itself, and nothing else; the null page stays unmapped.
\<close>
theorem global_init_correct:
  assumes "vheld start T v A" "0 < memSize (kConfig v)" "memSize (kConfig v) \<le> 0xFFFFF000"
    and "card A + 2 + unat (memSize (kConfig v)) div 4194304 \<le> T"
    and "unat (memSize (kConfig v)) \<le> 4096 * fuel"
  shows "\<exists>w B. global_init fuel v = Inr w \<and> vheld start T w B \<and> pd_wf w B (shared w) \<and>
    kConfig w = kConfig v \<and> card B \<le> card A + 2 + unat (memSize (kConfig v)) div 4194304 \<and>
    (\<forall>va. lookup w (shared w) va =
       (if 0 < framedown va \<and> framedown va < memSize (kConfig v) then Some (framedown va) else None))"
proof -
  let ?m = "unat (memSize (kConfig v))"
  obtain w n where w: "global_init fuel v = Inr w" "identity start T (card A + 1) v n w"
    "4096 * n < ?m" "?m \<le> 4096 * (n + 1)" using global_init_ok [OF assms] by blast
  have "4096 \<le> unat va \<and> unat va < 4096 * (n + 1) \<longleftrightarrow>
      0 < framedown va \<and> framedown va < memSize (kConfig v)" for va
  proof -
    define q where "q = unat va div 4096"
    have q: "4096 * q \<le> unat va" "unat va < 4096 * q + 4096"
      unfolding q_def using dividend_less_div_times [of 4096 "unat va"] by simp_all
    have f: "unat (framedown va) = 4096 * q" by (simp add: framedown_unat q_def)
    have "(4096 \<le> unat va) = (0 < q)" "(unat va < 4096 * (n + 1)) = (q \<le> n)" using q by auto
    moreover have "(q \<le> n) = (4096 * q < ?m)" using w(3,4) by auto
    moreover have "framedown va \<noteq> 0 \<longleftrightarrow> q \<noteq> 0" unfolding word_unat_eq_iff f by simp
    ultimately show ?thesis unfolding word_less_nat_alt f by simp
  qed
  moreover have "n div 1024 \<le> ?m div 4194304"
    using div_le_mono [of "4096 * n" ?m 4194304] w(3) div_mult_mult1 [of 4096 n 1024] by simp
  then have "card A + 1 + (if n = 0 then 0 else Suc (n div 1024)) \<le> card A + 2 + ?m div 4194304" by simp
  ultimately show ?thesis using w(1,2) unfolding identity_def by (auto intro: order_trans)
qed

theorem global_init_correct_witness:
  "\<exists>w. global_init 512 ex_vmm = Inr w \<and> lookup w (shared w) 0x1FF123 = Some 0x1FF000 \<and>
       lookup w (shared w) 0 = None"
proof -
  obtain w where "global_init 512 ex_vmm = Inr w" "\<forall>va. lookup w (shared w) va =
       (if 0 < framedown va \<and> framedown va < 0x200000 then Some (framedown va) else None)"
    using global_init_correct [OF ex_held, of 512] by (auto simp: ex_sel ex_conf_def)
  then show ?thesis by (auto simp: framedown_def)
qed

end
