(* ===== verification/Fork.thy ===== *)
theory Fork
  imports Process Vmm_Props
begin

unbundle bit_operations_syntax

text \<open>
  What \<^verbatim>\<open>Process::fork\<close> of \<^verbatim>\<open>src/kernel/process.cc\<close> gives the child: a private copy of every
  private page of the parent, in frames nobody held, and the parent's handles.
\<close>

section \<open>Copying one frame\<close>

text \<open>\<open>same_page v f w g\<close>: frame \<open>g\<close> holds in \<open>w\<close> what frame \<open>f\<close> holds in \<open>v\<close>.\<close>

definition same_page :: "vmm \<Rightarrow> u32 \<Rightarrow> vmm \<Rightarrow> u32 \<Rightarrow> bool" where
  "same_page v f w g \<longleftrightarrow> (\<forall>d < 0x1000. mem (phys w) (g + d) = mem (phys v) (f + d))"

lemma memcpy_frame: "same_page v f (memcpy v g f FRAME_SIZE) g"
  by (simp add: same_page_def memcpy_def FRAME_SIZE_def)

lemma same_page_keeps:
  assumes "same_page u f v g" "keeps X v w" "g \<notin> X" "offset g = 0"
  shows "same_page u f w g"
proof -
  have "framedown (g + d) = g" if "d < 0x1000" for d
    using that in_frame_iff [OF assms(4), of "g + d"] by simp
  then show ?thesis using assms(1-3) by (simp add: same_page_def keeps_def)
qed

lemma same_page_cong:
  assumes "keeps X u v" "f \<notin> X" "offset f = 0" "same_page v f w g"
  shows "same_page u f w g"
proof -
  have "framedown (f + d) = f" if "d < 0x1000" for d
    using that in_frame_iff [OF assms(3), of "f + d"] by simp
  then show ?thesis using assms by (simp add: same_page_def keeps_def)
qed

lemma frame_size_words: "FRAME_SIZE = of_nat (4 * 1024)"
  by (simp add: FRAME_SIZE_def)

text \<open>
  Mapping a private page of an existing table, with the child's copy of a parent's frame in a
  fresh frame.
\<close>

lemma copy_frame:
  assumes h: "vheld start T w B" and as: "aspace w B cp" and room: "card B < T"
    and ij: "512 \<le> i" "i < 1024" "j < 1024" and t: "tbl w cp i = Some t"
    and ns: "\<not> is_special w (va_of i j)" and f: "f \<in> B"
  shows "\<exists>p w'. bindR (valloc w) (\<lambda>(p, w1). Inr (wr (memcpy w1 p f FRAME_SIZE) t j (p OR 7))) = Inr w' \<and>
    p \<notin> B \<and> vheld start T w' (insert p B) \<and> aspace w' (insert p B) cp \<and>
    (\<forall>a < 1024. tbl w' cp a = tbl w cp a) \<and>
    (\<forall>va. lookup w' cp va = (if framedown va = va_of i j then Some p else lookup w cp va)) \<and>
    keeps {t, p} w w' \<and> same_env w w' \<and> (f \<noteq> t \<longrightarrow> same_page w f w' p)"
proof -
  obtain p w1 where a: "valloc w = Inr (p, w1)" "p \<notin> B" "offset p = 0"
    "vheld start T w1 (insert p B)" "keeps {p} w w1" "same_env w w1"
    using valloc_ok [OF h room] by blast
  let ?w2 = "memcpy w1 p f FRAME_SIZE"
  have k12: "keeps {p} w1 ?w2"
    using memcpy_keeps [OF a(3), of 1024 w1 f] by (simp add: frame_size_words)
  have k2: "keeps {p} w ?w2" using a(5) k12 by (rule keeps_trans1)
  have h2: "vheld start T ?w2 (insert p B)"
    by (rule vheld_keeps [OF a(4) k12 _ memcpy_phys]) simp
  have e2: "same_env w ?w2" using a(6) by (simp add: same_env_def)
  have X: "{p} \<inter> tables w cp = {}" using tables_held [OF as] a(2) by auto
  have ocp: "offset cp = 0" using vheld_aligned [OF h pd_wfD(1) [OF aspaceD(1) [OF as]]] .
  note stab = aspace_stable [OF k2 X e2 h as subset_insertI]
  note tst = tbl_stable [OF k2 ocp X] and lst = lookup_stable [OF k2 ocp X]
  have t2: "tbl ?w2 cp (pdi_of (va_of i j)) = Some t" using tst ij t by simp
  have un: "unused ?w2 cp p"
    using alloc_unused [OF as a(2)] tst stab(2) [of 1024] unfolding unused_def by auto
  have ns2: "\<not> is_special ?w2 (va_of i j)" using ns same_env_special [OF e2] by simp
  obtain t' w' where M: "map_page ?w2 cp (va_of i j) p = Inr w'" "vheld start T w' (insert t' (insert p B))"
    "aspace w' (insert t' (insert p B)) cp" "tbl ?w2 cp (pdi_of (va_of i j)) = Some t'"
    "\<forall>a < 1024. tbl w' cp a = (if a = i then Some t' else tbl ?w2 cp a)"
    "\<forall>va. lookup w' cp va = (if framedown va = framedown (va_of i j) then Some p else lookup ?w2 cp va)"
    "keeps {cp, t'} ?w2 w'" "same_env ?w2 w'"
    using map_aspace [OF h2 stab(1) a(3), of "va_of i j"] un t2 ij by auto
  have tt: "t' = t" using M(4) t2 by simp
  have tB: "t \<in> B" "t \<noteq> cp" "offset t = 0"
    using pd_wfD(2,3) [OF aspaceD(1) [OF as] ij(2) t] tbl_aligned [OF t] by auto
  have w': "w' = wr ?w2 t j (p OR 7)"
    using map_present(1) [OF h2 aspaceD(1) [OF stab(1)] t2, of p] M(1) ns2 ij
    by (simp add: leaf_num_def)
  have ins: "insert t' (insert p B) = insert p B" using tB tt by auto
  have kt: "keeps {t} ?w2 w'" unfolding w' using tB(3) ij(3) by (rule keeps_wr)
  have tp: "p \<noteq> t" "f \<noteq> p" using tB a(2) f by auto
  have sp: "same_page w f w' p" if "f \<noteq> t"
  proof (rule same_page_keeps [OF _ kt _ a(3)])
    show "same_page w f ?w2 p"
      by (rule same_page_cong [OF a(5) _ vheld_aligned [OF h f] memcpy_frame]) (use tp in simp)
    show "p \<notin> {t}" using tp by simp
  qed
  have "keeps {t, p} w w'" by (rule keeps_trans [OF k2 kt]) auto
  moreover have "framedown (va_of i j) = va_of i j" using ij by (simp add: va_of_framedown [symmetric])
  ultimately show ?thesis
    using a M(2,3,5,6) same_env_trans [OF e2 M(8)] sp tst lst ij t unfolding ins
    by (intro exI [of _ p] exI [of _ w']) (simp add: w' tt)
qed

text \<open>A new, empty table for a row that has none.\<close>

lemma new_table:
  assumes h: "vheld start T w B" and as: "aspace w B cp" and room: "card B < T"
    and i: "i < 1024" and none: "tbl w cp i = None"
  shows "\<exists>p w1. valloc w = Inr (p, w1) \<and> p \<notin> B \<and> offset p = 0 \<and>
    vheld start T (wr w1 cp i (p OR 7)) (insert p B) \<and> aspace (wr w1 cp i (p OR 7)) (insert p B) cp \<and>
    (\<forall>a < 1024. tbl (wr w1 cp i (p OR 7)) cp a = (if a = i then Some p else tbl w cp a)) \<and>
    (\<forall>va. lookup (wr w1 cp i (p OR 7)) cp va = lookup w cp va) \<and>
    keeps {cp, p} w (wr w1 cp i (p OR 7)) \<and> same_env w (wr w1 cp i (p OR 7))"
proof -
  obtain p w1 where a: "valloc w = Inr (p, w1)" "p \<notin> B" "offset p = 0"
    "vheld start T w1 (insert p B)" "\<forall>i < 1024. rd w1 p i = 0" "keeps {p} w w1" "same_env w w1"
    using valloc_ok [OF h room] by blast
  let ?w = "wr w1 cp i (p OR 7)"
  note D = pd_wfD [OF aspaceD(1) [OF as]]
  have ocp: "offset cp = 0" using vheld_aligned [OF h D(1)] .
  have pcp: "p \<noteq> cp" using D(1) a(2) by auto
  have X: "{p} \<inter> tables w cp = {}" using tables_held [OF as] a(2) by auto
  note tst = tbl_stable [OF a(6) ocp X]
  have tb: "tbl ?w cp b = (if b = i then Some p else tbl w cp b)" if "b < 1024" for b
    using that i ocp a(3) tst by (auto simp: tbl_wr absent_iff framedown_or)
  have en: "tbl ?w u b = tbl w u b" if "u \<in> B" "u \<noteq> cp" "b < 1024" for u b
    using that vheld_aligned [OF h that(1)] ocp i a(2) tbl_keeps [OF a(6), of u b] by (auto simp: tbl_wr)
  have z: "tbl ?w p b = None" if "b < 1024" for b
    using that a(3,5) ocp pcp i by (simp add: tbl_wr) (simp add: tbl_def)
  have lk: "lookup ?w cp va = lookup w cp va" for va
  proof (cases "pdi_of va = i")
    case True
    then show ?thesis using tb [OF i] z [OF pti_lt] none by (simp add: lookup_def)
  next
    case False
    then show ?thesis
      using tb [of "pdi_of va"] en D(2,3) [OF pdi_lt, of va]
      by (auto simp: lookup_def split: option.splits)
  qed
  have k: "keeps {cp, p} w ?w" by (rule keeps_trans [OF a(6) keeps_wr [OF ocp i]]) auto
  have e: "same_env w ?w" using a(7) by simp
  have lf: "leaf ?w cp a b = leaf w cp a b" if "a < 1024" "b < 1024" for a b
    using that by (simp add: leaf_lookup lk same_env_special [OF a(7)])
  have wf: "pd_wf ?w (insert p B) cp"
    unfolding pd_wf_def using D a(2) pcp by (auto simp: tb split: if_splits)
  have "aspace ?w (insert p B) cp"
  proof (rule aspaceI [OF wf])
    show "f \<in> insert p B \<and> f \<noteq> cp \<and> (\<forall>i' < 1024. tbl ?w cp i' \<noteq> Some f)"
      if "512 \<le> a" "a < 1024" "b < 1024" "leaf ?w cp a b = Some f" for a b f
      using aspaceD(2-4) [OF as that(1-3)] that lf a(2) by (auto simp: tb)
    show "a' = a \<and> b' = b"
      if "512 \<le> a" "a < 1024" "b < 1024" "leaf ?w cp a b = Some f"
        "512 \<le> a'" "a' < 1024" "b' < 1024" "leaf ?w cp a' b' = Some f" for a b a' b' f
      using aspaceD(5) [OF as that(1-3) _ that(5-7)] that lf by simp
  qed
  moreover have "vheld start T ?w (insert p B)" using a(4) D(1) i by (simp add: vheld_wr)
  ultimately show ?thesis
    using a tb lk k e by (intro exI [of _ p] exI [of _ w1]) simp
qed

section \<open>What a partial copy keeps\<close>

text \<open>
  Before the copy: the parent \<open>pp\<close> and the child \<open>cp\<close> are address spaces out of the held
  frames \<open>A\<close>, nothing the parent uses belongs to the child alone, and the child has no private
  page but has the pages of the interrupt controllers.
\<close>

definition fork_ready :: "vmm \<Rightarrow> u32 set \<Rightarrow> u32 \<Rightarrow> u32 \<Rightarrow> bool" where
  "fork_ready v A pp cp \<longleftrightarrow> aspace v A pp \<and> aspace v A cp \<and>
     priv v cp \<inter> (tables v pp \<union> rows v pp 1024) = {} \<and>
     (\<forall>a b. 512 \<le> a \<and> a < 1024 \<and> b < 1024 \<longrightarrow> leaf v cp a b = None \<and>
        (is_special v (va_of a b) \<longrightarrow> lookup v cp (va_of a b) \<noteq> None))"

definition page_copy :: "vmm \<Rightarrow> vmm \<Rightarrow> u32 set \<Rightarrow> u32 option \<Rightarrow> u32 option \<Rightarrow> bool" where
  "page_copy v w A x y \<longleftrightarrow>
     (case x of None \<Rightarrow> y = None | Some f \<Rightarrow> \<exists>g. y = Some g \<and> g \<notin> A \<and> same_page v f w g)"

lemma page_copy_simps [simp]:
  "page_copy v w A None y \<longleftrightarrow> y = None"
  "page_copy v w A (Some f) y \<longleftrightarrow> (\<exists>g. y = Some g \<and> g \<notin> A \<and> same_page v f w g)"
  by (simp_all add: page_copy_def)

lemma page_copy_keeps:
  assumes "page_copy v w A x y" "keeps X w w'" "\<And>g. y = Some g \<Longrightarrow> g \<notin> X \<and> offset g = 0"
  shows "page_copy v w' A x y"
  using assms(1) same_page_keeps [OF _ assms(2)] assms(3) by (cases x) auto

text \<open>After the entries \<open>D\<close> have been handled, with the frames \<open>B\<close> held.\<close>

definition copied :: "u32 \<Rightarrow> nat \<Rightarrow> vmm \<Rightarrow> u32 set \<Rightarrow> u32 \<Rightarrow> u32 \<Rightarrow> (nat \<times> nat) set \<Rightarrow> vmm \<Rightarrow> u32 set \<Rightarrow> bool" where
  "copied start T v A pp cp D w B \<longleftrightarrow>
     vheld start T w B \<and> A \<subseteq> B \<and> aspace w B cp \<and> same_env v w \<and>
     keeps (priv v cp \<union> (B - A)) v w \<and> B - A \<subseteq> priv w cp \<and>
     (\<forall>a < 1024. tbl w cp a = tbl v cp a \<or>
        512 \<le> a \<and> tbl v cp a = None \<and> (\<exists>t \<in> B - A. tbl w cp a = Some t)) \<and>
     (\<forall>a b. 512 \<le> a \<and> a < 1024 \<and> b < 1024 \<longrightarrow>
        (is_special v (va_of a b) \<longrightarrow> lookup w cp (va_of a b) = lookup v cp (va_of a b)) \<and>
        ((a, b) \<notin> D \<longrightarrow> leaf w cp a b = None) \<and>
        (\<not> is_special v (va_of a b) \<and> (a, b) \<in> D \<longrightarrow>
           page_copy v w A (leaf v pp a b) (leaf w cp a b)))"

lemma copiedD:
  assumes "copied start T v A pp cp D w B"
  shows "vheld start T w B" "A \<subseteq> B" "aspace w B cp" "same_env v w" "keeps (priv v cp \<union> (B - A)) v w"
    "B - A \<subseteq> priv w cp"
    "a < 1024 \<Longrightarrow> tbl w cp a = tbl v cp a \<or>
        512 \<le> a \<and> tbl v cp a = None \<and> (\<exists>t \<in> B - A. tbl w cp a = Some t)"
    "512 \<le> a \<Longrightarrow> a < 1024 \<Longrightarrow> b < 1024 \<Longrightarrow> is_special v (va_of a b) \<Longrightarrow>
       lookup w cp (va_of a b) = lookup v cp (va_of a b)"
    "512 \<le> a \<Longrightarrow> a < 1024 \<Longrightarrow> b < 1024 \<Longrightarrow> \<not> is_special v (va_of a b) \<Longrightarrow> (a, b) \<in> D \<Longrightarrow>
       page_copy v w A (leaf v pp a b) (leaf w cp a b)"
    "512 \<le> a \<Longrightarrow> a < 1024 \<Longrightarrow> b < 1024 \<Longrightarrow> (a, b) \<notin> D \<Longrightarrow> leaf w cp a b = None"
  using assms unfolding copied_def by blast+

lemma fork_readyD:
  assumes "fork_ready v A pp cp"
  shows "aspace v A pp" "aspace v A cp" "t \<in> tables v pp \<Longrightarrow> t \<notin> priv v cp"
    "f \<in> rows v pp 1024 \<Longrightarrow> f \<notin> priv v cp"
    "512 \<le> a \<Longrightarrow> a < 1024 \<Longrightarrow> b < 1024 \<Longrightarrow> leaf v cp a b = None"
    "512 \<le> a \<Longrightarrow> a < 1024 \<Longrightarrow> b < 1024 \<Longrightarrow> is_special v (va_of a b) \<Longrightarrow>
       lookup v cp (va_of a b) \<noteq> None"
  using assms unfolding fork_ready_def by blast+

lemma priv_mono:
  assumes "\<And>a t. 512 \<le> a \<Longrightarrow> a < 1024 \<Longrightarrow> tbl w cp a = Some t \<Longrightarrow> tbl w' cp a = Some t"
    and "\<And>a b f. 512 \<le> a \<Longrightarrow> a < 1024 \<Longrightarrow> b < 1024 \<Longrightarrow> leaf w cp a b = Some f \<Longrightarrow> leaf w' cp a b = Some f"
  shows "priv w cp \<subseteq> priv w' cp"
  using assms unfolding priv_def rows_def leaves_def by blast

lemma leaf_row: "512 \<le> a \<Longrightarrow> a < 1024 \<Longrightarrow> b < 1024 \<Longrightarrow> leaf v q a b = Some f \<Longrightarrow> f \<in> rows v q 1024"
  by (auto simp: rows_def leaves_def)

lemma copied_mono_D:
  assumes "copied start T v A pp cp D w B"
    and "\<And>a b. (a, b) \<in> D' - D \<Longrightarrow> 512 \<le> a \<Longrightarrow> a < 1024 \<Longrightarrow> b < 1024 \<Longrightarrow> \<not> is_special v (va_of a b) \<Longrightarrow>
      leaf v pp a b = None"
    and "D \<subseteq> D'"
  shows "copied start T v A pp cp D' w B"
proof -
  note I = copiedD [OF assms(1)]
  have "page_copy v w A (leaf v pp a b) (leaf w cp a b)"
    if "512 \<le> a" "a < 1024" "b < 1024" "\<not> is_special v (va_of a b)" "(a, b) \<in> D'" for a b
    using I(9,10) [OF that(1-3)] assms(2) [of a b] that by (cases "(a, b) \<in> D") auto
  then show ?thesis using assms(1,3) unfolding copied_def by blast
qed

text \<open>The parent's tables and pages are as they were.\<close>

lemma copied_parent:
  assumes F: "fork_ready v A pp cp" and C: "copied start T v A pp cp D w B" and x: "x \<in> tables v pp \<union> rows v pp 1024"
  shows "x \<in> A" "x \<notin> priv v cp \<union> (B - A)" "offset x = 0"
proof -
  show "x \<in> A"
    using x tables_held [OF fork_readyD(1) [OF F]] rows_held [OF fork_readyD(1) [OF F], of 1024] by auto
  then show "x \<notin> priv v cp \<union> (B - A)" using fork_readyD(3,4) [OF F] x by auto
  show "offset x = 0" using vheld_aligned [OF copiedD(1) [OF C]] copiedD(2) [OF C] \<open>x \<in> A\<close> by auto
qed

section \<open>One entry\<close>

lemma copy_entry_step:
  assumes F: "fork_ready v A pp cp" and C: "copied start T v A pp cp D w B" and D: "(i, j) \<notin> D"
    and ij: "512 \<le> i" "i < 1024" "j < 1024"
    and pt: "tbl v pp i = Some pt" and ct: "tbl w cp i = Some ct"
    and room: "leaf v pp i j \<noteq> None \<Longrightarrow> card B < T"
  shows "\<exists>w' B'. copy_entry pt ct j w = Inr w' \<and> copied start T v A pp cp (insert (i, j) D) w' B' \<and>
    tbl w' cp i = Some ct \<and> card B' = card B + (if leaf v pp i j = None then 0 else 1)"
proof -
  note I = copiedD [OF C]
  have pt': "pt \<in> tables v pp" using pt ij by (auto simp: tables_def)
  note P = copied_parent [OF F C]
  have rdp: "rd w pt j = rd v pt j" using rd_keeps [OF I(5)] P(2,3) [of pt] pt' ij by auto
  have sp: "is_special w va = is_special v va" for va using I(4) by (rule same_env_special)
  have lc: "lookup w cp (va_of i j) = tbl w ct j" using ij ct by (simp add: lookup_def)
  show ?thesis
  proof (cases "leaf v pp i j")
    case None
    have "copy_entry pt ct j w = Inr w"
    proof (cases "is_special v (va_of i j)")
      case True
      then have "tbl w ct j \<noteq> None" using I(8) [OF ij] fork_readyD(6) [OF F ij] lc by simp
      then have "rd w ct j AND 1 \<noteq> 0" by (auto simp: tbl_def split: if_splits)
      then show ?thesis by (simp add: copy_entry_def Let_def and_one_eq)
    next
      case False
      then have "rd v pt j AND 1 = 0" using None pt by (auto simp: leaf_def tbl_def split: if_splits)
      then show ?thesis by (simp add: copy_entry_def Let_def rdp)
    qed
    moreover have "copied start T v A pp cp (insert (i, j) D) w B"
      by (rule copied_mono_D [OF C]) (use None in auto)
    ultimately show ?thesis using ct None by auto
  next
    case (Some f)
    have ns: "\<not> is_special v (va_of i j)" and rp: "rd v pt j AND 1 \<noteq> 0" "f = rd v pt j AND 0xFFFFF000"
      using Some pt by (auto simp: leaf_def tbl_def framedown_alt split: if_splits)
    have "tbl w ct j = None" using I(10) [OF ij D] ns ij ct by (simp add: leaf_def sp)
    then have rc: "rd w ct j AND 1 = 0" by (simp add: tbl_def split: if_splits)
    have fr: "f \<in> rows v pp 1024" using leaf_row [OF ij Some] .
    have fB: "f \<in> B" using P(1) [of f] fr I(2) by auto
    have cB: "card B < T" using room Some by simp
    obtain p w' where W: "bindR (valloc w) (\<lambda>(p, w1). Inr (wr (memcpy w1 p f FRAME_SIZE) ct j (p OR 7))) = Inr w'"
      "p \<notin> B" "vheld start T w' (insert p B)" "aspace w' (insert p B) cp"
      "\<forall>a < 1024. tbl w' cp a = tbl w cp a"
      "\<forall>va. lookup w' cp va = (if framedown va = va_of i j then Some p else lookup w cp va)"
      "keeps {ct, p} w w'" "same_env w w'" "f \<noteq> ct \<longrightarrow> same_page w f w' p"
      using copy_frame [OF I(1,3) cB ij ct _ fB] ns sp by auto
    have ce: "copy_entry pt ct j w = Inr w'"
      unfolding copy_entry_def Let_def rdp using rc rp(1) W(1)
      by (simp only: rp(2) [symmetric] and_one_eq split: if_splits) (simp add: and_one_eq case_prod_unfold)
    have af: "framedown (va_of a b) = va_of a b" if "a < 1024" "b < 1024" for a b
      using that by (simp add: va_of_framedown [symmetric])
    have lk: "lookup w' cp (va_of a b) = (if a = i \<and> b = j then Some p else lookup w cp (va_of a b))"
      if "a < 1024" "b < 1024" for a b
      using W(6) va_of_inj [OF that ij(2,3)] af [OF that] by auto
    have lf: "leaf w' cp a b = (if a = i \<and> b = j then Some p else leaf w cp a b)"
      if "a < 1024" "b < 1024" for a b
      using that lk ns by (auto simp: leaf_lookup same_env_special [OF W(8)] sp)
    have pA: "p \<notin> A" using W(2) I(2) by auto
    have ctB: "ct \<in> B" "ct \<noteq> cp" using pd_wfD(2,3) [OF aspaceD(1) [OF I(3)] ij(2) ct] by auto
    have ctX: "ct \<in> priv v cp \<union> (B - A)"
      using I(7) [OF ij(2)] ct table_priv [OF ij(1,2), of v cp ct] by auto
    have kp: "keeps (priv v cp \<union> (insert p B - A)) v w'"
      by (rule keeps_trans [OF I(5) W(7)]) (use ctX pA in auto)
    have pm: "priv w cp \<subseteq> priv w' cp"
      by (rule priv_mono) (use W(5) lf I(10) [OF ij D] in auto)
    have pw: "p \<in> priv w' cp" using leaf_row [OF ij, of w' cp p] lf ij by (simp add: priv_def)
    have fct: "f \<noteq> ct" using P(2) [of f] fr ctX by auto
    have "\<not> is_special v (va_of a b) \<Longrightarrow> (a, b) \<in> insert (i, j) D \<Longrightarrow>
        page_copy v w' A (leaf v pp a b) (leaf w' cp a b)"
      if ab: "512 \<le> a" "a < 1024" "b < 1024" for a b
    proof (cases "(a, b) = (i, j)")
      case True
      have "same_page v f w' p"
        using same_page_cong [OF I(5)] P(2,3) [of f] fr W(9) fct by auto
      then show ?thesis using True Some lf ij pA by simp
    next
      case False
      moreover assume "\<not> is_special v (va_of a b)" "(a, b) \<in> insert (i, j) D"
      ultimately have "page_copy v w A (leaf v pp a b) (leaf w cp a b)" using I(9) [OF ab] by auto
      then have "page_copy v w' A (leaf v pp a b) (leaf w cp a b)"
      proof (rule page_copy_keeps [OF _ W(7)])
        fix g assume g: "leaf w cp a b = Some g"
        then have "g \<in> B" "g \<noteq> ct" using aspaceD(2,4) [OF I(3) ab g] ct ij by auto
        then show "g \<notin> {ct, p} \<and> offset g = 0" using W(2) vheld_aligned [OF I(1)] by auto
      qed
      then show ?thesis using lf [OF ab(2,3)] False by auto
    qed
    moreover have "lookup w' cp (va_of a b) = lookup v cp (va_of a b)"
      if "512 \<le> a" "a < 1024" "b < 1024" "is_special v (va_of a b)" for a b
      using I(8) [OF that] lk [OF that(2,3)] ns that(4) by auto
    moreover have "leaf w' cp a b = None" if "512 \<le> a" "a < 1024" "b < 1024" "(a, b) \<notin> insert (i, j) D" for a b
      using I(10) [OF that(1-3)] lf [OF that(2,3)] that(4) by auto
    moreover have "tbl w' cp a = tbl v cp a \<or>
        512 \<le> a \<and> tbl v cp a = None \<and> (\<exists>t \<in> insert p B - A. tbl w' cp a = Some t)" if "a < 1024" for a
      using I(7) [OF that] W(5) that by auto
    ultimately have "copied start T v A pp cp (insert (i, j) D) w' (insert p B)"
      using W(3,4) I(2,6) kp same_env_trans [OF I(4) W(8)] pm pw unfolding copied_def by blast
    moreover have "card (insert p B) = card B + 1" using W(2) I(1) by (simp add: vheld_def)
    ultimately show ?thesis using ce W(5) ij ct Some by auto
  qed
qed

section \<open>One row\<close>

lemma leaves_card:
  assumes "aspace v A pp" "512 \<le> i" "i < 1024" "j < 1024"
  shows "card (leaves v pp i (Suc j)) = card (leaves v pp i j) + (if leaf v pp i j = None then 0 else 1)"
    "finite (leaves v pp i j)"
proof -
  have "leaves v pp i j = (\<Union>b < j. set_option (leaf v pp i b))" by (auto simp: leaves_def)
  then show fin: "finite (leaves v pp i j)" by simp
  have "f \<notin> leaves v pp i j" if "leaf v pp i j = Some f" for f
  proof
    assume "f \<in> leaves v pp i j"
    then obtain b where "b < j" "leaf v pp i b = Some f" by (auto simp: leaves_def)
    then show False using aspaceD(5) [OF assms that assms(2,3), of b] assms(4) by simp
  qed
  then show "card (leaves v pp i (Suc j)) = card (leaves v pp i j) + (if leaf v pp i j = None then 0 else 1)"
    using fin by (auto simp: leaves_Suc)
qed

lemma leaves_card_le:
  assumes "aspace v A pp" "512 \<le> i" "i < 1024" "j \<le> 1024"
  shows "card (leaves v pp i j) \<le> card (leaves v pp i 1024)"
proof (rule card_mono [OF _ leaves_subset [OF assms(4)]])
  have "leaves v pp i 1024 = (\<Union>b < 1024. set_option (leaf v pp i b))" by (auto simp: leaves_def)
  then show "finite (leaves v pp i 1024)" by simp
qed

lemma copy_row:
  assumes F: "fork_ready v A pp cp" and C: "copied start T v A pp cp D w B"
    and D: "\<And>j. (i, j) \<notin> D" and i: "512 \<le> i" "i < 1024"
    and pt: "tbl v pp i = Some pt" and ct: "tbl w cp i = Some ct"
    and room: "card B + card (leaves v pp i 1024) \<le> T"
  shows "\<exists>w' B'. foldM (copy_entry pt ct) [0..<1024] w = Inr w' \<and>
    copied start T v A pp cp (D \<union> {i} \<times> {..<1024}) w' B' \<and> card B' \<le> card B + card (leaves v pp i 1024)"
proof -
  note as = fork_readyD(1) [OF F]
  have "\<exists>w'. foldM (copy_entry pt ct) [0..<1024] w = Inr w' \<and>
    (\<exists>B'. copied start T v A pp cp (D \<union> {i} \<times> {..<1024}) w' B' \<and> tbl w' cp i = Some ct \<and>
       card B' \<le> card B + card (leaves v pp i 1024))"
  proof (rule foldM_upt_inv [where P = "\<lambda>j w'. \<exists>B'. copied start T v A pp cp (D \<union> {i} \<times> {..<j}) w' B' \<and>
      tbl w' cp i = Some ct \<and> card B' \<le> card B + card (leaves v pp i j)"])
    fix j u
    assume j: "j < 1024" and "\<exists>B'. copied start T v A pp cp (D \<union> {i} \<times> {..<j}) u B' \<and>
      tbl u cp i = Some ct \<and> card B' \<le> card B + card (leaves v pp i j)"
    then obtain E where E: "copied start T v A pp cp (D \<union> {i} \<times> {..<j}) u E" "tbl u cp i = Some ct"
      "card E \<le> card B + card (leaves v pp i j)" by blast
    have n: "card (leaves v pp i (Suc j)) = card (leaves v pp i j) + (if leaf v pp i j = None then 0 else 1)"
      using leaves_card(1) [OF as i j] .
    have m: "card (leaves v pp i (Suc j)) \<le> card (leaves v pp i 1024)"
      using leaves_card_le [OF as i, of "Suc j"] j by simp
    have nd: "(i, j) \<notin> D \<union> {i} \<times> {..<j}" using D by simp
    have r: "card E < T" if "leaf v pp i j \<noteq> None" using n m E(3) room that by (auto simp: n)
    obtain u' E' where U: "copy_entry pt ct j u = Inr u'"
      "copied start T v A pp cp (insert (i, j) (D \<union> {i} \<times> {..<j})) u' E'" "tbl u' cp i = Some ct"
      "card E' = card E + (if leaf v pp i j = None then 0 else 1)"
      using copy_entry_step [OF F E(1) nd i j pt E(2) r] by blast
    have "insert (i, j) (D \<union> {i} \<times> {..<j}) = D \<union> {i} \<times> {..<Suc j}" by auto
    then show "\<exists>s'. copy_entry pt ct j u = Inr s' \<and>
      (\<exists>B'. copied start T v A pp cp (D \<union> {i} \<times> {..<Suc j}) s' B' \<and> tbl s' cp i = Some ct \<and>
         card B' \<le> card B + card (leaves v pp i (Suc j)))"
      using U E(3) n by (intro exI [of _ u'] conjI exI [of _ E']) auto
  qed (use C ct in auto)
  then show ?thesis by blast
qed

text \<open>A row the parent maps gets a table in the child, if it has none.\<close>

lemma copied_new_table:
  assumes F: "fork_ready v A pp cp" and C: "copied start T v A pp cp D w B"
    and i: "512 \<le> i" "i < 1024" and none: "tbl w cp i = None" and room: "card B < T"
  shows "\<exists>p w1. valloc w = Inr (p, w1) \<and> copied start T v A pp cp D (wr w1 cp i (p OR 7)) (insert p B) \<and>
    tbl (wr w1 cp i (p OR 7)) cp i = Some p \<and> card (insert p B) = card B + 1"
proof -
  note I = copiedD [OF C]
  obtain p w1 where a: "valloc w = Inr (p, w1)" "p \<notin> B"
    "vheld start T (wr w1 cp i (p OR 7)) (insert p B)" "aspace (wr w1 cp i (p OR 7)) (insert p B) cp"
    "\<forall>a < 1024. tbl (wr w1 cp i (p OR 7)) cp a = (if a = i then Some p else tbl w cp a)"
    "\<forall>va. lookup (wr w1 cp i (p OR 7)) cp va = lookup w cp va"
    "keeps {cp, p} w (wr w1 cp i (p OR 7))" "same_env w (wr w1 cp i (p OR 7))"
    using new_table [OF I(1,3) room i(2) none] by blast
  define u where "u = wr w1 cp i (p OR 7)"
  note a' = a(3-8) [folded u_def]
  have lf: "leaf u cp a b = leaf w cp a b" if "a < 1024" "b < 1024" for a b
    using that a'(4) by (simp add: leaf_lookup same_env_special [OF a'(6)])
  have pA: "p \<notin> A" using a(2) I(2) by auto
  have k: "keeps (priv v cp \<union> (insert p B - A)) v u"
    by (rule keeps_trans [OF I(5) a'(5)]) (use pA in \<open>auto simp: priv_def\<close>)
  have pm: "priv w cp \<subseteq> priv u cp"
    by (rule priv_mono) (use a'(3) none lf in auto)
  have pu: "p \<in> priv u cp" by (rule table_priv [OF i]) (use a'(3) i in simp)
  have tb: "tbl u cp b = tbl v cp b \<or> 512 \<le> b \<and> tbl v cp b = None \<and> (\<exists>t \<in> insert p B - A. tbl u cp b = Some t)"
    if "b < 1024" for b using I(7) [OF that] a'(3) that none i pA by auto
  have pc: "page_copy v u A (leaf v pp a b) (leaf u cp a b)"
    if "512 \<le> a" "a < 1024" "b < 1024" "\<not> is_special v (va_of a b)" "(a, b) \<in> D" for a b
  proof (rule page_copy_keeps [OF _ a'(5)])
    show "page_copy v w A (leaf v pp a b) (leaf u cp a b)" using I(9) [OF that] lf [OF that(2,3)] by simp
    fix g assume "leaf u cp a b = Some g"
    then have g: "leaf w cp a b = Some g" using lf [OF that(2,3)] by simp
    then show "g \<notin> {cp, p} \<and> offset g = 0"
      using aspaceD(2,3) [OF I(3) that(1-3) g] a(2) vheld_aligned [OF I(1)] by auto
  qed
  have "copied start T v A pp cp D u (insert p B)"
    using a'(1,2,4) I(2,6,8,10) k same_env_trans [OF I(4) a'(6)] pm pu tb pc lf
    unfolding copied_def by auto
  moreover have "card (insert p B) = card B + 1" using a(2) I(1) by (simp add: vheld_def)
  ultimately show ?thesis using a(1) a'(3) i unfolding u_def by auto
qed

lemma rows_finite: "finite (rows v pp n)"
proof -
  have "rows v pp n \<subseteq> (\<Union>i < n. (\<Union>b < 1024. set_option (leaf v pp i b)) \<union> set_option (tbl v pp i))"
    by (auto simp: rows_def leaves_def)
  then show ?thesis by (rule finite_subset) simp
qed

lemma rows_card:
  assumes as: "aspace v A pp" and i: "512 \<le> i" "i < 1024"
  shows "card (rows v pp (Suc i)) =
    card (rows v pp i) + card (leaves v pp i 1024) + (if tbl v pp i = None then 0 else 1)"
proof -
  note dis = aspace_disjoint [OF as i]
  have fl: "finite (leaves v pp i 1024)"
    by (rule finite_subset [OF _ rows_finite [of v pp "Suc i"]]) (use i in \<open>auto simp: rows_Suc\<close>)
  have 1: "card (rows v pp i \<union> leaves v pp i 1024) = card (rows v pp i) + card (leaves v pp i 1024)"
    using dis(6) fl rows_finite by (subst card_Un_disjoint) auto
  show ?thesis
  proof (cases "tbl v pp i")
    case None
    then show ?thesis using 1 i by (simp add: rows_Suc)
  next
    case (Some t)
    then have "t \<notin> rows v pp i \<union> leaves v pp i 1024" using dis(4) dis(2) [OF i(2)] by auto
    then show ?thesis using 1 i Some fl rows_finite by (simp add: rows_Suc)
  qed
qed

lemma copy_table_step:
  assumes F: "fork_ready v A pp cp" and C: "copied start T v A pp cp ({..<i} \<times> {..<1024}) w B"
    and i: "512 \<le> i" "i < 1024" and n: "card B \<le> card A + card (rows v pp i)"
    and room: "card A + card (rows v pp (Suc i)) \<le> T"
  shows "\<exists>w' B'. copy_table pp cp i w = Inr w' \<and> copied start T v A pp cp ({..<Suc i} \<times> {..<1024}) w' B' \<and>
    card B' \<le> card A + card (rows v pp (Suc i))"
proof -
  note as = fork_readyD(1) [OF F] and I = copiedD [OF C]
  note rc = rows_card [OF as i]
  have pp: "pp \<in> tables v pp" by (simp add: tables_def)
  have rdp: "rd w pp i = rd v pp i"
    using rd_keeps [OF I(5)] copied_parent(2,3) [OF F C, of pp] pp i by auto
  have D: "{..<Suc i} \<times> {..<1024} = {..<i} \<times> {..<1024} \<union> {i} \<times> {..<1024}" for i :: nat by auto
  show ?thesis
  proof (cases "tbl v pp i")
    case None
    then have "rd v pp i AND 1 = 0" by (simp add: tbl_def split: if_splits)
    then have "copy_table pp cp i w = Inr w" by (simp add: copy_table_def rdp)
    moreover have "copied start T v A pp cp ({..<Suc i} \<times> {..<1024}) w B"
      by (rule copied_mono_D [OF C]) (use None in \<open>auto simp: leaf_def less_Suc_eq\<close>)
    ultimately show ?thesis using n rc by auto
  next
    case (Some pt)
    then have rp: "rd v pp i AND 1 \<noteq> 0" "rd v pp i AND 0xFFFFF000 = pt"
      by (auto simp: tbl_def framedown_alt split: if_splits)
    have "\<exists>ct u E. (if rd w cp i AND 1 = 0
        then bindR (valloc w) (\<lambda>(child_pt, v1). Inr (child_pt, wr v1 cp i (child_pt OR 7)))
        else Inr (rd w cp i AND 0xFFFFF000, w)) = Inr (ct, u) \<and>
        copied start T v A pp cp ({..<i} \<times> {..<1024}) u E \<and> tbl u cp i = Some ct \<and> card E \<le> card B + 1"
    proof (cases "tbl w cp i")
      case None
      have r: "card B < T" using n room rc Some by simp
      obtain p w1 where p: "valloc w = Inr (p, w1)"
        "copied start T v A pp cp ({..<i} \<times> {..<1024}) (wr w1 cp i (p OR 7)) (insert p B)"
        "tbl (wr w1 cp i (p OR 7)) cp i = Some p" "card (insert p B) = card B + 1"
        using copied_new_table [OF F C i None r] by blast
      have "rd w cp i AND 1 = 0" using None by (simp add: tbl_def split: if_splits)
      then show ?thesis using p
        by (intro exI [of _ p] exI [of _ "wr w1 cp i (p OR 7)"] exI [of _ "insert p B"]) simp
    next
      case (Some ct)
      then have "rd w cp i AND 1 \<noteq> 0" "rd w cp i AND 0xFFFFF000 = ct"
        by (auto simp: tbl_def framedown_alt split: if_splits)
      then show ?thesis using Some C by auto
    qed
    then obtain ct u E where U: "(if rd w cp i AND 1 = 0
        then bindR (valloc w) (\<lambda>(child_pt, v1). Inr (child_pt, wr v1 cp i (child_pt OR 7)))
        else Inr (rd w cp i AND 0xFFFFF000, w)) = Inr (ct, u)"
        "copied start T v A pp cp ({..<i} \<times> {..<1024}) u E" "tbl u cp i = Some ct" "card E \<le> card B + 1"
      by blast
    have r: "card E + card (leaves v pp i 1024) \<le> T" using U(4) n room rc Some by simp
    obtain w' B' where W: "foldM (copy_entry pt ct) [0..<1024] u = Inr w'"
      "copied start T v A pp cp ({..<i} \<times> {..<1024} \<union> {i} \<times> {..<1024}) w' B'"
      "card B' \<le> card E + card (leaves v pp i 1024)"
      using copy_row [OF F U(2) _ i Some U(3) r] by auto
    have "copy_table pp cp i w = Inr w'"
      unfolding copy_table_def Let_def rdp using rp W(1) by (simp only: U(1)) simp
    then show ?thesis using W(2,3) U(4) n rc Some by (auto simp: D [of i])
  qed
qed

section \<open>The whole private half\<close>

lemma lookup_framedown: "lookup u d (framedown va) = lookup u d va"
  using same_page_iff [of "framedown va" va] by (simp add: lookup_def split: option.splits)

lemma leaf_of:
  "leaf u d (pdi_of va) (pti_of va) = (if is_special u (framedown va) then None else lookup u d va)"
  by (simp add: leaf_lookup va_of_framedown lookup_framedown)

lemma copy_space_ok:
  assumes F: "fork_ready v A pp cp" and h: "vheld start T v A"
    and room: "card A + card (rows v pp 1024) \<le> T"
  shows "\<exists>w B. copy_space pp cp v = Inr w \<and> copied start T v A pp cp ({..<1024} \<times> {..<1024}) w B"
proof -
  have m: "card (rows v pp (Suc i)) \<le> card (rows v pp 1024)" if "i < 1024" for i
    by (rule card_mono [OF rows_finite]) (use that in \<open>auto simp: rows_def\<close>)
  have "\<exists>w. copy_space pp cp v = Inr w \<and> (\<exists>B. copied start T v A pp cp ({..<1024} \<times> {..<1024}) w B \<and>
      card B \<le> card A + card (rows v pp 1024))"
    unfolding copy_space_def
  proof (rule foldM_upt_inv [where P = "\<lambda>i w. \<exists>B. copied start T v A pp cp ({..<i} \<times> {..<1024}) w B \<and>
      card B \<le> card A + card (rows v pp i)"])
    have "copied start T v A pp cp ({..<512} \<times> {..<1024}) v A"
      unfolding copied_def using h fork_readyD(2,5) [OF F] by auto
    then show "\<exists>B. copied start T v A pp cp ({..<512} \<times> {..<1024}) v B \<and>
        card B \<le> card A + card (rows v pp 512)" by auto
    fix i w assume i: "512 \<le> i" "i < 1024"
      and "\<exists>B. copied start T v A pp cp ({..<i} \<times> {..<1024}) w B \<and> card B \<le> card A + card (rows v pp i)"
    then obtain B where B: "copied start T v A pp cp ({..<i} \<times> {..<1024}) w B"
      "card B \<le> card A + card (rows v pp i)" by blast
    have "card A + card (rows v pp (Suc i)) \<le> T" using m [OF i(2)] room by simp
    then show "\<exists>s'. copy_table pp cp i w = Inr s' \<and> (\<exists>B. copied start T v A pp cp ({..<Suc i} \<times> {..<1024}) s' B \<and>
        card B \<le> card A + card (rows v pp (Suc i)))"
      using copy_table_step [OF F B(1) i B(2)] by blast
  qed simp
  then show ?thesis by blast
qed

text \<open>What all entries together say about the child's translation.\<close>

lemma copied_all:
  assumes F: "fork_ready v A pp cp" and h: "vheld start T v A"
    and C: "copied start T v A pp cp ({..<1024} \<times> {..<1024}) w B"
  shows "B = A \<union> priv w cp" "priv v cp \<subseteq> priv w cp" "priv w cp \<inter> A \<subseteq> priv v cp"
    "0x80000000 \<le> va \<Longrightarrow> \<not> is_special v (framedown va) \<Longrightarrow> page_copy v w A (lookup v pp va) (lookup w cp va)"
    "va < 0x80000000 \<or> is_special v (framedown va) \<Longrightarrow> lookup w cp va = lookup v cp va"
proof -
  note I = copiedD [OF C]
  have tp: "tbl v cp a = Some t \<Longrightarrow> a < 1024 \<Longrightarrow> tbl w cp a = Some t" for a t using I(7) [of a] by auto
  show pm: "priv v cp \<subseteq> priv w cp" by (rule priv_mono) (use tp fork_readyD(5) [OF F] in auto)
  show "B = A \<union> priv w cp" using I(2,6) priv_held [OF I(3)] by auto
  have lv: "g \<notin> A" if "512 \<le> a" "a < 1024" "b < 1024" "leaf w cp a b = Some g" for a b g
  proof -
    have "\<not> is_special v (va_of a b)"
      using that by (auto simp: leaf_lookup same_env_special [OF I(4)] split: if_splits)
    then show ?thesis using I(9) [OF that(1-3)] that by (cases "leaf v pp a b") auto
  qed
  have tb: "t \<in> priv v cp" if a: "512 \<le> a" "a < 1024" and t: "tbl w cp a = Some t" "t \<in> A" for a t
    using I(7) [OF a(2)] t table_priv [OF a, of v cp t] by auto
  show "priv w cp \<inter> A \<subseteq> priv v cp"
  proof
    fix x assume x: "x \<in> priv w cp \<inter> A"
    then consider "x = cp" | a b where "512 \<le> a" "a < 1024" "b < 1024" "leaf w cp a b = Some x"
      | a where "512 \<le> a" "a < 1024" "tbl w cp a = Some x"
      by (auto simp: priv_def rows_def leaves_def)
    then show "x \<in> priv v cp" using lv tb x by cases (auto simp: priv_def)
  qed
  show "page_copy v w A (lookup v pp va) (lookup w cp va)" if "0x80000000 \<le> va" "\<not> is_special v (framedown va)"
    using I(9) [of "pdi_of va" "pti_of va"] that upper_half [of va]
    by (simp add: leaf_of va_of_framedown same_env_special [OF I(4)])
  show "lookup w cp va = lookup v cp va" if "va < 0x80000000 \<or> is_special v (framedown va)"
  proof (cases "0x80000000 \<le> va")
    case True
    then have "lookup w cp (framedown va) = lookup v cp (framedown va)"
      using I(8) [of "pdi_of va" "pti_of va"] that upper_half [of va] by (auto simp: va_of_framedown)
    then show ?thesis by (simp add: lookup_framedown)
  next
    case False
    then have lo: "\<not> 512 \<le> pdi_of va" using upper_half [of va] by simp
    then have tw: "tbl w cp (pdi_of va) = tbl v cp (pdi_of va)" using I(7) [OF pdi_lt, of va] by simp
    show ?thesis
    proof (cases "tbl v cp (pdi_of va)")
      case None
      then show ?thesis using tw by (simp add: lookup_def)
    next
      case (Some t)
      note D = pd_wfD [OF aspaceD(1) [OF fork_readyD(2) [OF F]]]
      have "t \<notin> rows v cp 1024"
        using D(4) [OF pdi_lt _ Some] lo fork_readyD(5) [OF F] by (auto simp: rows_def leaves_def)
      then have "t \<notin> priv v cp \<union> (B - A)" using D(2,3) [OF pdi_lt Some] by (simp add: priv_def)
      then have "tbl w t (pti_of va) = tbl v t (pti_of va)"
        using tbl_keeps [OF I(5) tbl_aligned [OF Some]] pti_lt by blast
      then show ?thesis using tw Some by (simp add: lookup_def)
    qed
  qed
qed

text \<open>A new address space is ready to receive the parent's pages.\<close>

lemma new_space_ready:
  assumes h: "vheld start T v A" and as: "aspace v A pp"
    and m: "memSize (kConfig v) \<le> 0x80000000"
    and w: "vheld start T w (A \<union> priv w cp)" "aspace w (A \<union> priv w cp) cp" "A \<inter> priv w cp = {}"
      "\<forall>va. lookup w cp va =
        (if framedown va = localAPIC (kConfig v) then Some (localAPIC (kConfig v))
         else if framedown va = ioAPIC (kConfig v) then Some (ioAPIC (kConfig v))
         else if pdi_of va < low_tables (memSize (kConfig v)) then lookup v (shared v) va else None)"
      "keeps (priv w cp) v w" "same_env v w"
  shows "fork_ready w (A \<union> priv w cp) pp cp" "rows w pp 1024 = rows v pp 1024"
    "lookup w pp va = lookup v pp va"
proof -
  have tA: "tables v pp \<subseteq> A" "rows v pp 1024 \<subseteq> A" using tables_held [OF as] rows_held [OF as] by auto
  then have X: "priv w cp \<inter> tables v pp = {}" using w(3) by auto
  have opp: "offset pp = 0" using vheld_aligned [OF h pd_wfD(1) [OF aspaceD(1) [OF as]]] .
  note st = aspace_stable [OF w(5) X w(6) h as, of "A \<union> priv w cp"]
  have tt: "tables w pp = tables v pp" using tbl_stable [OF w(5) opp X] by (auto simp: tables_def)
  show rr: "rows w pp 1024 = rows v pp 1024" using st(2) by simp
  show "lookup w pp va = lookup v pp va" by (rule lookup_stable [OF w(5) opp X])
  have af: "framedown (va_of a b) = va_of a b" if "a < 1024" "b < 1024" for a b
    using that by (simp add: va_of_framedown [symmetric])
  have up: "\<not> va_of a b < 0x80000000" if "512 \<le> a" "a < 1024" "b < 1024" for a b
    using that upper_half [of "va_of a b"] by simp
  have k: "\<not> a < low_tables (memSize (kConfig v))" if "512 \<le> a" for a
    using shared_size(2) [OF m] that by simp
  have "leaf w cp a b = None \<and> (is_special w (va_of a b) \<longrightarrow> lookup w cp (va_of a b) \<noteq> None)"
    if "512 \<le> a" "a < 1024" "b < 1024" for a b
  proof -
    have lk: "lookup w cp (va_of a b) =
        (if va_of a b = localAPIC (kConfig v) then Some (localAPIC (kConfig v))
         else if va_of a b = ioAPIC (kConfig v) then Some (ioAPIC (kConfig v)) else None)"
      using w(4) [rule_format, of "va_of a b"] k [OF that(1)] that unfolding af [OF that(2,3)] by simp
    have sp: "is_special w (va_of a b) \<longleftrightarrow> va_of a b = localAPIC (kConfig v) \<or> va_of a b = ioAPIC (kConfig v)"
      unfolding is_special_def using up [OF that] w(6) by (auto simp: same_env_def)
    show ?thesis unfolding leaf_lookup [OF that(2,3)] lk sp by simp
  qed
  moreover have "priv w cp \<inter> (tables v pp \<union> rows v pp 1024) = {}" using tA w(3) by auto
  ultimately show "fork_ready w (A \<union> priv w cp) pp cp"
    unfolding fork_ready_def tt rr using st(1) w(2) by blast
qed

lemma fork_space:
  assumes h: "vheld start T v A" and as: "aspace v A pp" and sh: "pd_wf v A (shared v)"
    and room: "card A + 3 + card (rows v pp 1024) \<le> T"
    and m: "memSize (kConfig v) \<le> 0x80000000"
    and io: "offset (ioAPIC (kConfig v)) = 0" "0x80000000 \<le> ioAPIC (kConfig v)"
    and lo: "offset (localAPIC (kConfig v)) = 0" "0x80000000 \<le> localAPIC (kConfig v)"
  shows "\<exists>cp w1 w. make_pd v = Inr (cp, w1) \<and> copy_space pp cp w1 = Inr w \<and>
    vheld start T w (A \<union> priv w cp) \<and> A \<inter> priv w cp = {} \<and>
    aspace w (A \<union> priv w cp) cp \<and> aspace w (A \<union> priv w cp) pp \<and> keeps (priv w cp) v w \<and>
    (\<forall>va. lookup w pp va = lookup v pp va) \<and>
    (\<forall>va. 0x80000000 \<le> va \<and> \<not> is_special v (framedown va) \<longrightarrow>
       page_copy v w A (lookup v pp va) (lookup w cp va)) \<and>
    (\<forall>va. va < 0x80000000 \<longrightarrow> lookup w cp va =
       (if pdi_of va < low_tables (memSize (kConfig v)) then lookup v (shared v) va else None)) \<and>
    lookup w cp (localAPIC (kConfig v)) = Some (localAPIC (kConfig v)) \<and>
    lookup w cp (ioAPIC (kConfig v)) = Some (ioAPIC (kConfig v))"
proof -
  obtain cp w1 where M: "make_pd v = Inr (cp, w1)" "vheld start T w1 (A \<union> priv w1 cp)"
    "aspace w1 (A \<union> priv w1 cp) cp" "A \<inter> priv w1 cp = {}"
    "\<forall>va. lookup w1 cp va =
       (if framedown va = localAPIC (kConfig v) then Some (localAPIC (kConfig v))
        else if framedown va = ioAPIC (kConfig v) then Some (ioAPIC (kConfig v))
        else if pdi_of va < low_tables (memSize (kConfig v)) then lookup v (shared v) va else None)"
    "keeps (priv w1 cp) v w1" "same_env v w1" "card (priv w1 cp) \<le> 3"
    using make_pd_aux [OF h sh _ m io lo] room by auto
  let ?A = "A \<union> priv w1 cp"
  note R = new_space_ready [OF h as m M(2,3,4,5,6,7)]
  have "card ?A \<le> card A + 3" using card_Un_le [of A "priv w1 cp"] M(8) by simp
  then have "card ?A + card (rows w1 pp 1024) \<le> T" using room by (simp add: R(2))
  then obtain w B where W: "copy_space pp cp w1 = Inr w"
    "copied start T w1 ?A pp cp ({..<1024} \<times> {..<1024}) w B"
    using copy_space_ok [OF R(1) M(2)] by blast
  note I = copiedD [OF W(2)] and K = copied_all [OF R(1) M(2) W(2)]
  have B: "B = A \<union> priv w cp" using K(1,2) by auto
  have dis: "A \<inter> priv w cp = {}" using K(3) M(4) by auto
  have k1: "keeps (priv w cp) w1 w" using I(5) by (rule keeps_mono) (use K(1,2) in auto)
  have k: "keeps (priv w cp) v w" by (rule keeps_trans [OF M(6) k1 K(2)]) simp
  have e: "same_env v w" using same_env_trans [OF M(7) I(4)] .
  have X: "priv w cp \<inter> tables v pp = {}" using tables_held [OF as] dis by auto
  have opp: "offset pp = 0" using vheld_aligned [OF h pd_wfD(1) [OF aspaceD(1) [OF as]]] .
  have asp: "aspace w (A \<union> priv w cp) pp"
    using aspace_stable(1) [OF k X e h as, of "A \<union> priv w cp"] by blast
  have lkp: "lookup w pp va = lookup v pp va" for va by (rule lookup_stable [OF k opp X])
  have cpy: "page_copy v w A (lookup v pp va) (lookup w cp va)"
    if va: "0x80000000 \<le> va" "\<not> is_special v (framedown va)" for va
  proof (cases "lookup v pp va")
    case None
    then show ?thesis using K(4) [OF va(1)] va(2) R(3) [of va] same_env_special [OF M(7)] by simp
  next
    case (Some f)
    then obtain g where g: "lookup w cp va = Some g" "g \<notin> ?A" "same_page w1 f w g"
      using K(4) [OF va(1)] va(2) R(3) [of va] same_env_special [OF M(7)] by auto
    have up: "512 \<le> pdi_of va" using va(1) upper_half by simp
    have "leaf v pp (pdi_of va) (pti_of va) = Some f"
      using Some va(2) by (simp add: leaf_of)
    then have fA: "f \<in> A" using aspaceD(2) [OF as up pdi_lt pti_lt] by blast
    have "same_page v f w g"
      using same_page_cong [OF M(6) _ vheld_aligned [OF h fA] g(3)] fA M(4) by auto
    then show ?thesis using Some g by simp
  qed
  have low: "lookup w cp va =
       (if pdi_of va < low_tables (memSize (kConfig v)) then lookup v (shared v) va else None)"
    if "va < 0x80000000" for va
  proof -
    have "pdi_of (framedown va) = pdi_of va" using same_page_iff [of "framedown va" va] by simp
    moreover have "\<not> 512 \<le> pdi_of va" using that upper_half [of va] by (metis not_le)
    ultimately have "\<not> 0x80000000 \<le> framedown va" unfolding upper_half by simp
    then have "framedown va \<noteq> localAPIC (kConfig v)" "framedown va \<noteq> ioAPIC (kConfig v)"
      using io(2) lo(2) by metis+
    then show ?thesis using K(5) [of va] that M(5) [rule_format, of va] by simp
  qed
  have sp: "lookup w cp x = Some x" if "x = localAPIC (kConfig v) \<or> x = ioAPIC (kConfig v)" for x
  proof -
    have ox: "framedown x = x" using that io(1) lo(1) by auto
    have "lookup w cp x = lookup w1 cp x"
      by (rule K(5)) (use that M(7) ox in \<open>auto simp: is_special_def same_env_def\<close>)
    then show ?thesis using M(5) [rule_format, of x] that unfolding ox by auto
  qed
  show ?thesis
    by (intro exI [of _ cp] exI [of _ w1] exI [of _ w] conjI allI impI,
        rule M(1), rule W(1), rule I(1) [unfolded B], rule dis, rule I(3) [unfolded B], rule asp, rule k,
        rule lkp, rule cpy, simp, simp, rule low, simp)
      (use sp in simp_all)
qed

section \<open>The child process\<close>

lemma new_process_child:
  assumes "make_pd (k_vm k) = Inr (d, v)"
  shows "\<exists>c k1. new_process False k = Inr (c, k1) \<and> k_vm k1 = v \<and> c \<ge> next_obj k \<and>
    procs k1 = (procs k)(c \<mapsto> \<lparr>files = replicate NFILE None, sems = replicate NSEM None,
      children = replicate NCHILD None, p_output = next_obj k, pd = d\<rparr>) \<and>
    futs k1 = (futs k)(next_obj k := new_fut) \<and> file_objs k1 = file_objs k \<and> sem_objs k1 = sem_objs k"
  using assms by (simp add: new_process_def new_obj_def Let_def NFILE_def numeral_eq_Suc)

lemma inherit_sems:
  "length ss = n \<Longrightarrow> map2 (\<lambda>s c. if s \<noteq> None then s else c) ss (replicate n None) = ss"
  by (induction n arbitrary: ss) (auto simp: length_Suc_conv)

text \<open>
  C8. \<^verbatim>\<open>fork\<close> gives the child a copy of the parent. Each private page the parent has maps to a
  frame that nobody held before and that holds the same memory; a page the parent does not have
  is absent; the kernel's half and the controllers' pages are the shared ones. Nothing the
  parent or anyone else holds is written to, so the parent's pages translate as before to the same
  contents, and both address spaces are well formed. The child has the parent's files
  and semaphores and no children, and its output, which nobody has set, is the parent's new handle.
\<close>
theorem fork_copies_process:
  assumes "procs k p = Some pr" "first_null 0 (children pr) = Some i" "length (sems pr) = NSEM"
    and "p < next_obj k"
    and "vheld start T (k_vm k) A" "aspace (k_vm k) A (pd pr)" "pd_wf (k_vm k) A (shared (k_vm k))"
    and "card A + 3 + card (rows (k_vm k) (pd pr) 1024) \<le> T"
    and "memSize (kConfig (k_vm k)) \<le> 0x80000000"
    and "offset (ioAPIC (kConfig (k_vm k))) = 0" "0x80000000 \<le> ioAPIC (kConfig (k_vm k))"
    and "offset (localAPIC (kConfig (k_vm k))) = 0" "0x80000000 \<le> localAPIC (kConfig (k_vm k))"
  shows "\<exists>c ch k' cp w. proc_fork p k = Inr (sint (PROC OR of_nat i), Some c, k') \<and>
    procs k' c = Some ch \<and> procs k' p = Some (pr\<lparr>children := (children pr)[i := Some (p_output ch)]\<rparr>) \<and>
    files ch = files pr \<and> sems ch = sems pr \<and> children ch = replicate NCHILD None \<and>
    \<not> isReady (futs k' (p_output ch)) \<and> pd ch = cp \<and> k_vm k' = w \<and>
    vheld start T w (A \<union> priv w cp) \<and> A \<inter> priv w cp = {} \<and>
    aspace w (A \<union> priv w cp) cp \<and> aspace w (A \<union> priv w cp) (pd pr) \<and> keeps (priv w cp) (k_vm k) w \<and>
    (\<forall>va. lookup w (pd pr) va = lookup (k_vm k) (pd pr) va) \<and>
    (\<forall>va. 0x80000000 \<le> va \<and> \<not> is_special (k_vm k) (framedown va) \<longrightarrow>
       (case lookup (k_vm k) (pd pr) va of None \<Rightarrow> lookup w cp va = None
        | Some f \<Rightarrow> \<exists>g. lookup w cp va = Some g \<and> g \<notin> A \<and>
            (\<forall>d < 0x1000. mem (phys w) (g + d) = mem (phys (k_vm k)) (f + d)))) \<and>
    (\<forall>va. va < 0x80000000 \<longrightarrow> lookup w cp va =
       (if pdi_of va < low_tables (memSize (kConfig (k_vm k)))
        then lookup (k_vm k) (shared (k_vm k)) va else None)) \<and>
    lookup w cp (localAPIC (kConfig (k_vm k))) = Some (localAPIC (kConfig (k_vm k))) \<and>
    lookup w cp (ioAPIC (kConfig (k_vm k))) = Some (ioAPIC (kConfig (k_vm k)))"
proof -
  obtain cp w1 w where S: "make_pd (k_vm k) = Inr (cp, w1)" "copy_space (pd pr) cp w1 = Inr w"
    and V: "vheld start T w (A \<union> priv w cp)" "A \<inter> priv w cp = {}"
      "aspace w (A \<union> priv w cp) cp" "aspace w (A \<union> priv w cp) (pd pr)" "keeps (priv w cp) (k_vm k) w"
      "\<forall>va. lookup w (pd pr) va = lookup (k_vm k) (pd pr) va"
      "\<forall>va. 0x80000000 \<le> va \<and> \<not> is_special (k_vm k) (framedown va) \<longrightarrow>
        page_copy (k_vm k) w A (lookup (k_vm k) (pd pr) va) (lookup w cp va)"
      "\<forall>va. va < 0x80000000 \<longrightarrow> lookup w cp va = (if pdi_of va < low_tables (memSize (kConfig (k_vm k)))
        then lookup (k_vm k) (shared (k_vm k)) va else None)"
      "lookup w cp (localAPIC (kConfig (k_vm k))) = Some (localAPIC (kConfig (k_vm k)))"
      "lookup w cp (ioAPIC (kConfig (k_vm k))) = Some (ioAPIC (kConfig (k_vm k)))"
    using fork_space [OF assms(5-13)] by (elim exE conjE) (rule that)
  obtain c k1 where N: "new_process False k = Inr (c, k1)" "k_vm k1 = w1" "c \<ge> next_obj k"
    "procs k1 = (procs k)(c \<mapsto> \<lparr>files = replicate NFILE None, sems = replicate NSEM None,
      children = replicate NCHILD None, p_output = next_obj k, pd = cp\<rparr>)"
    "futs k1 = (futs k)(next_obj k := new_fut)"
    using new_process_child [OF S(1)] by blast
  define ch where "ch = \<lparr>files = files pr, sems = sems pr, children = replicate NCHILD None,
      p_output = next_obj k, pd = cp\<rparr>"
  define k' where "k' = k1\<lparr>k_vm := w, procs := (procs k1)(c \<mapsto> ch,
      p \<mapsto> pr\<lparr>children := (children pr)[i := Some (next_obj k)]\<rparr>)\<rparr>"
  have "proc_fork p k = Inr (sint (PROC OR of_nat i), Some c, k')"
    using assms(1,2) N S(2) inherit_sems [OF assms(3)]
    by (simp add: proc_fork_def Let_def ch_def k'_def)
  moreover have "procs k' c = Some ch" "procs k' p = Some (pr\<lparr>children := (children pr)[i := Some (p_output ch)]\<rparr>)"
    "files ch = files pr" "sems ch = sems pr" "children ch = replicate NCHILD None" "pd ch = cp" "k_vm k' = w"
    "\<not> isReady (futs k' (p_output ch))"
    using assms(4) N(3,5) by (auto simp: k'_def ch_def new_fut_def)
  ultimately show ?thesis
    using V(1-6,8-10) V(7) [unfolded page_copy_def same_page_def]
    by (intro exI [of _ c] exI [of _ ch] exI [of _ k'] exI [of _ cp] exI [of _ w]) blast
qed

text \<open>
  A parent with one private page, mapped by a page fault, and the handles of the first process.
\<close>

theorem fork_copies_process_witness:
  "\<exists>k f c k' ch g. lookup (k_vm k) 0x100000 0x80001000 = Some f \<and> proc_fork 0 k = Inr (0x10000000, Some c, k') \<and>
     procs k' c = Some ch \<and> files ch = [Some 2, Some 2, Some 2] \<and>
     lookup (k_vm k') (pd ch) 0x80001000 = Some g \<and> g \<noteq> f \<and> lookup (k_vm k') (pd ch) 0x80002000 = None"
proof -
  obtain f t v where P: "f \<notin> {0x100000}" "t \<noteq> f"
    "vheld 0x100000 256 v (insert t (insert f {0x100000}))"
    "aspace v (insert t (insert f {0x100000})) 0x100000"
    "\<forall>va'. lookup v 0x100000 va' = (if framedown va' = framedown 0x80001234 then Some f
                                   else lookup ex_vmm 0x100000 va')"
    "same_env ex_vmm v"
    using page_fault_maps_aux [OF ex_held ex_aspace _ _ ex_sel(1), of "0x80001234"] by auto
  let ?A = "insert t (insert f {0x100000})"
  define pr where "pr = \<lparr>files = [Some 2, Some 2, Some 2], sems = replicate NSEM None, children = [None, None],
    p_output = 1, pd = 0x100000\<rparr>"
  define k where "k = \<lparr>k_vm = v, procs = [0 \<mapsto> pr], file_objs = \<lambda>_. U8250File, sem_objs = \<lambda>_. 0,
    futs = \<lambda>_. new_fut, next_obj = 3, k_con = \<lparr>con_in = [], con_out = []\<rparr>\<rparr>"
  have kp: "procs k 0 = Some pr" "first_null 0 (children pr) = Some 0" "length (sems pr) = NSEM" "0 < next_obj k"
    "k_vm k = v" "pd pr = 0x100000" "files pr = [Some 2, Some 2, Some 2]"
    by (simp_all add: k_def pr_def)
  have e: "kConfig v = ex_conf" "shared v = 0x100000" using P(6) by (simp_all add: same_env_def ex_sel)
  have "card (rows v 0x100000 1024) \<le> card ?A"
    by (rule card_mono) (use rows_held [OF P(4), of 1024] in simp_all)
  moreover have "card ?A \<le> 3" by (simp add: card_insert_if)
  ultimately have room: "card ?A + 3 + card (rows v 0x100000 1024) \<le> 256" by simp
  have lf: "lookup v 0x100000 0x80001000 = Some f" "lookup v 0x100000 0x80002000 = None"
    using P(5) by (simp_all add: framedown_def lookup_def)
  have ns: "\<not> is_special v (framedown 0x80001000)" "\<not> is_special v (framedown 0x80002000)"
    by (simp_all add: is_special_def e ex_conf_def framedown_def)
  have cf: "memSize (kConfig v) \<le> 0x80000000" "offset (ioAPIC (kConfig v)) = 0"
    "0x80000000 \<le> ioAPIC (kConfig v)" "offset (localAPIC (kConfig v)) = 0"
    "0x80000000 \<le> localAPIC (kConfig v)" "pd_wf v ?A (shared v)"
    using aspaceD(1) [OF P(4)] by (simp_all add: e ex_conf_def offset_def)
  obtain c ch k' cp w where F: "proc_fork 0 k = Inr (sint (PROC OR of_nat 0), Some c, k')"
    "procs k' c = Some ch" "files ch = files pr" "pd ch = cp" "k_vm k' = w"
    "\<forall>va. 0x80000000 \<le> va \<and> \<not> is_special v (framedown va) \<longrightarrow>
       (case lookup v 0x100000 va of None \<Rightarrow> lookup w cp va = None
        | Some f \<Rightarrow> \<exists>g. lookup w cp va = Some g \<and> g \<notin> ?A \<and>
            (\<forall>d < 0x1000. mem (phys w) (g + d) = mem (phys v) (f + d)))"
    using fork_copies_process [OF kp(1-4), unfolded kp(5,6), OF P(3,4) cf(6) room cf(1-5)]
    by (elim exE conjE) (rule that)
  obtain g where g: "lookup w cp 0x80001000 = Some g" "g \<notin> ?A"
    using F(6) [rule_format, of "0x80001000"] lf(1) ns(1) by auto
  have "lookup w cp 0x80002000 = None" using F(6) [rule_format, of "0x80002000"] lf(2) ns(2) by simp
  moreover have "proc_fork 0 k = Inr (0x10000000, Some c, k')" using F(1) by (simp add: PROC_def)
  ultimately show ?thesis
    using F(2-5) g lf(1) kp(5,7)
    by (intro exI [of _ k] exI [of _ f] exI [of _ c] exI [of _ k'] exI [of _ ch] exI [of _ g]) simp
qed

end
