(* ===== verification/Audio.thy ===== *)
theory Audio
  imports Files
begin

unbundle bit_operations_syntax

text \<open>
  The sound card: \<^verbatim>\<open>src/kernel/pci.cc\<close> and \<^verbatim>\<open>pci.h\<close>, the WAV parser and the buffer filler of
  \<^verbatim>\<open>process.cc\<close>, and the clock of \<^verbatim>\<open>pit.cc\<close> that says how long to play. The card answers
  at once; what the kernel sends to its ports is recorded.
\<close>

section \<open>PCI configuration space\<close>

text \<open>
  The configuration space is a function from the address written to \<^verbatim>\<open>CONFIG_ADDRESS\<close> to the
  double word at \<^verbatim>\<open>CONFIG_DATA\<close>.
\<close>

type_synonym pci = "u32 \<Rightarrow> u32"

definition pciConfigAddress :: "u8 \<Rightarrow> u8 \<Rightarrow> u8 \<Rightarrow> u8 \<Rightarrow> u32" where
  "pciConfigAddress bus device func offset =
     push_bit 16 (ucast bus) OR push_bit 11 (ucast device) OR push_bit 8 (ucast func) OR (ucast offset AND 0xFC) OR 0x80000000"

definition pciConfigReadDWord :: "pci \<Rightarrow> u8 \<Rightarrow> u8 \<Rightarrow> u8 \<Rightarrow> u8 \<Rightarrow> u32" where
  "pciConfigReadDWord cfg bus slot func offset = cfg (pciConfigAddress bus slot func offset)"

definition pciConfigReadWord :: "pci \<Rightarrow> u8 \<Rightarrow> u8 \<Rightarrow> u8 \<Rightarrow> u8 \<Rightarrow> u16" where
  "pciConfigReadWord cfg bus slot func offset =
     (let data = cfg (pciConfigAddress bus slot func offset)
      in ucast (drop_bit (unat (offset AND 2) * 8) data AND 0xFFFF))"

definition pciConfigWriteWord :: "pci \<Rightarrow> u8 \<Rightarrow> u8 \<Rightarrow> u8 \<Rightarrow> u8 \<Rightarrow> u16 \<Rightarrow> pci" where
  "pciConfigWriteWord cfg bus slot func offset v =
     (let address = pciConfigAddress bus slot func offset;
          current = cfg address;
          mask = push_bit (unat (offset AND 2) * 8) 0xFFFF;
          data = (current AND NOT mask) OR push_bit (unat (offset AND 2) * 8) (ucast v)
      in cfg(address := data))"

definition enablePCICommandRegister :: "pci \<Rightarrow> u8 \<Rightarrow> u8 \<Rightarrow> u8 \<Rightarrow> pci" where
  "enablePCICommandRegister cfg bus device function =
     (let command_register = pciConfigReadWord cfg bus device function 0x04 OR 0x0005
      in pciConfigWriteWord cfg bus device function 0x04 command_register)"

section \<open>The card\<close>

text \<open>
  Beside the ports, the state has the buffer descriptors with the bytes of their buffers, the
  clock (the ticks counted and how many there are to a second), and a record of what the card has
  been given to play: the descriptors with their buffers as they are when it is started.
\<close>

record audio =
  BAR0 :: u32
  BAR1 :: u32
  GCR :: u32
  audio_buffers :: "(u16 \<times> bytes) list"
  buffers_at :: u32
  setupBuffers :: bool
  outs :: "(u32 \<times> u32) list"
  jiffies :: u32
  jiffiesPerSecond :: u32
  plays :: "(u16 \<times> bytes) list list"

definition AC97_VENDOR_ID :: u16 where "AC97_VENDOR_ID = 0x8086"
definition AC97_DEVICE_ID :: u16 where "AC97_DEVICE_ID = 0x2415"
definition BUFFER_SIZE :: u32 where "BUFFER_SIZE = 131070"
definition NUM_BUFFERS :: nat where "NUM_BUFFERS = 32"

definition out :: "u32 \<Rightarrow> u32 \<Rightarrow> audio \<Rightarrow> audio" where
  "out port v a = a\<lparr>outs := outs a @ [(port, v)]\<rparr>"

text \<open>The argument is the address the kernel heap gives for the descriptors.\<close>

definition setupDMABuffers :: "u32 \<Rightarrow> audio \<Rightarrow> audio" where
  "setupDMABuffers p a =
     (if setupBuffers a then a
      else a\<lparr>buffers_at := p, audio_buffers := replicate NUM_BUFFERS (0xFFFE, replicate (unat BUFFER_SIZE) 0), setupBuffers := True\<rparr>)"

definition initializeCodec :: "u32 \<Rightarrow> audio \<Rightarrow> audio" where
  "initializeCodec p a =
     (let a = out (GCR a) 2 a; a = out (BAR1 a + 0xB) 0x2 a; a = out (BAR0 a) 0xFF a; a = out (BAR0 a + 0x18) 0 a
      in setupDMABuffers p a)"

text \<open>The search over the devices of the 255 buses, innermost loop first.\<close>

fun find_device :: "pci \<Rightarrow> u8 \<Rightarrow> nat list \<Rightarrow> u8 option" where
  "find_device cfg bus [] = None"
| "find_device cfg bus (d # ds) =
     (let device = of_nat d;
          vendor_id = pciConfigReadWord cfg bus device 0 0;
          device_id = pciConfigReadWord cfg bus device 0 2
      in if vendor_id = 0xFFFF then find_device cfg bus ds
         else if vendor_id = AC97_VENDOR_ID \<and> device_id = AC97_DEVICE_ID then Some device
         else find_device cfg bus ds)"

fun find_bus :: "pci \<Rightarrow> nat list \<Rightarrow> (u8 \<times> u8) option" where
  "find_bus cfg [] = None"
| "find_bus cfg (b # bs) =
     (case find_device cfg (of_nat b) [0..<32] of
        Some device \<Rightarrow> Some (of_nat b, device)
      | None \<Rightarrow> find_bus cfg bs)"

definition findAC97 :: "u32 \<Rightarrow> pci \<Rightarrow> audio \<Rightarrow> (pci \<times> audio) result" where
  "findAC97 p cfg a =
     (case find_bus cfg [0..<255] of
        None \<Rightarrow> Inl (Panic ''XXX AC97 sound card not found'')
      | Some (bus, device) \<Rightarrow>
          (let cfg = enablePCICommandRegister cfg bus device 0;
               nam_base = pciConfigReadDWord cfg bus device 0 0x10 AND NOT 0x3;
               nabm_base = pciConfigReadDWord cfg bus device 0 0x14 AND NOT 0x3
           in Inr (cfg, initializeCodec p (a\<lparr>BAR0 := nam_base, BAR1 := nabm_base + 0x10, GCR := nabm_base + 0x2C\<rparr>))))"

definition secondsToJiffies :: "audio \<Rightarrow> u32 \<Rightarrow> u32" where
  "secondsToJiffies a secs = jiffiesPerSecond a * secs"

text \<open>Playing waits until the clock reaches the target; it moves a tick at a time.\<close>

definition play :: "u32 \<Rightarrow> u32 \<Rightarrow> audio \<Rightarrow> audio" where
  "play duration js a =
     (let a = (out (BAR1 a + 0x0B) 0x1 a)\<lparr>plays := plays a @ [audio_buffers a]\<rparr>;
          target = jiffies a + secondsToJiffies a duration + js;
          a = a\<lparr>jiffies := if jiffies a < target then target else jiffies a\<rparr>
      in out (BAR1 a + 0x0B) 0x2 a)"

definition ac97_set_sample_rate :: "u16 \<Rightarrow> audio \<Rightarrow> audio" where
  "ac97_set_sample_rate sample_rate a =
     (let r = ucast sample_rate
      in out (BAR0 a + 0x32) r (out (BAR0 a + 0x30) r (out (BAR0 a + 0x2E) r (out (BAR0 a + 0x2C) r a))))"

section \<open>WAV headers\<close>

text \<open>
  A \<^verbatim>\<open>WAVHeader\<close> is an area of 44 bytes that is read into piece by piece. Reading more than fits is a
  write behind the object.
\<close>

definition swapEndian :: "u32 \<Rightarrow> u32" where
  "swapEndian v =
     (drop_bit 24 v AND 0xFF) OR (drop_bit 8 v AND 0xFF00) OR (push_bit 8 v AND 0xFF0000) OR (push_bit 24 v AND 0xFF000000)"

definition sizeof_WAVHeader :: nat where "sizeof_WAVHeader = 44"

definition hdr_magic :: "bytes \<Rightarrow> bytes" where "hdr_magic h = part 8 4 h"
definition hdr_fmt :: "bytes \<Rightarrow> bytes" where "hdr_fmt h = part 12 4 h"
definition hdr_fmt_length :: "bytes \<Rightarrow> u32" where "hdr_fmt_length h = f32 h 16"
definition hdr_sample_rate :: "bytes \<Rightarrow> u32" where "hdr_sample_rate h = f32 h 24"
definition hdr_sample_rate_eq :: "bytes \<Rightarrow> u32" where "hdr_sample_rate_eq h = f32 h 28"
definition hdr_bitsPerSample :: "bytes \<Rightarrow> u16" where "hdr_bitsPerSample h = f16 h 34"
definition hdr_data :: "bytes \<Rightarrow> bytes" where "hdr_data h = part 36 4 h"
definition hdr_data_size :: "bytes \<Rightarrow> u32" where "hdr_data_size h = f32 h 40"

definition put_bytes :: "nat \<Rightarrow> bytes \<Rightarrow> bytes \<Rightarrow> bytes result" where
  "put_bytes off b h =
     (if off + length b > length h then Inl OutOfRange
      else Inr (take off h @ b @ drop (off + length b) h))"

text \<open>\<^verbatim>\<open>file->read(((char *)wavhdr) + off, n)\<close>\<close>

definition hdr_read :: "nat \<Rightarrow> u32 \<Rightarrow> bytes \<times> kfile \<times> console \<Rightarrow> (bytes \<times> kfile \<times> console) result" where
  "hdr_read off k = (\<lambda>(h, f, con).
     bindR (file_read f k con) (\<lambda>(_, b, f, con).
     bindR (put_bytes off b h) (\<lambda>h. Inr (h, f, con))))"

definition FMT :: bytes where "FMT = [0x66, 0x6D, 0x74, 0x20]"
definition DATA :: bytes where "DATA = [0x64, 0x61, 0x74, 0x61]"
definition WAVE :: bytes where "WAVE = [0x57, 0x41, 0x56, 0x45]"

fun fmt_loop :: "nat \<Rightarrow> bytes \<times> kfile \<times> console \<Rightarrow> (bytes \<times> kfile \<times> console) result" where
  "fmt_loop 0 s = Inl Diverges"
| "fmt_loop (Suc fuel) s =
     (if hdr_fmt (fst s) \<noteq> FMT then
        bindR (hdr_read 16 4 s) (\<lambda>(h, f, con).
        let (_, f) = seek f (getOffset f + hdr_fmt_length h)
        in bindR (hdr_read 12 4 (h, f, con)) (fmt_loop fuel))
      else Inr s)"

fun data_loop :: "nat \<Rightarrow> bytes \<times> kfile \<times> console \<Rightarrow> (bytes \<times> kfile \<times> console) result" where
  "data_loop 0 s = Inl Diverges"
| "data_loop (Suc fuel) s =
     (if hdr_data (fst s) \<noteq> DATA then
        bindR (hdr_read 40 4 s) (\<lambda>(h, f, con).
        let (_, f) = seek f (getOffset f + hdr_data_size h)
        in bindR (hdr_read 36 4 (h, f, con)) (data_loop fuel))
      else Inr s)"

definition findWavHDR :: "nat \<Rightarrow> bytes \<times> kfile \<times> console \<Rightarrow> (bytes \<times> kfile \<times> console) result" where
  "findWavHDR fuel s =
     bindR (hdr_read 0 16 s) (\<lambda>s.
     bindR (fmt_loop fuel s) (\<lambda>s.
     bindR (hdr_read 16 4 s) (\<lambda>s.
     bindR (hdr_read 20 (hdr_fmt_length (fst s) + 4) s) (\<lambda>s.
     bindR (data_loop fuel s) (\<lambda>s.
     hdr_read 40 4 s)))))"

section \<open>Playing\<close>

text \<open>One round of \<^verbatim>\<open>fillBuffers\<close>'s loop, and the function.\<close>

definition fill_one :: "nat \<Rightarrow> kfile \<times> console \<times> audio \<times> u32 \<times> u32 \<Rightarrow> (kfile \<times> console \<times> audio \<times> u32 \<times> u32) result" where
  "fill_one i = (\<lambda>(f, con, a, data_size, totalSamples).
     bindR (file_read f BUFFER_SIZE con) (\<lambda>(_, b, f, con).
     let buf = snd (audio_buffers a ! i)
     in Inr (f, con, a\<lparr>audio_buffers := (audio_buffers a)[i := (0xFFFE, b @ drop (length b) buf)]\<rparr>,
             data_size - BUFFER_SIZE, totalSamples - 0xFFFF)))"

definition fillBuffers :: "u32 \<Rightarrow> bool \<Rightarrow> u32 \<Rightarrow> u32 \<Rightarrow> kfile \<times> console \<times> audio \<Rightarrow> (kfile \<times> console \<times> audio) result" where
  "fillBuffers sampleRate is_last data_size totalSamples = (\<lambda>(f, con, a).
     let num_buffers = (if is_last then data_size div BUFFER_SIZE else 32);
         a = out (BAR1 a) (buffers_at a) a;
         a = out (BAR1 a + 0x05) (ucast (ucast num_buffers + (if is_last then 0 else -1) :: u8)) a
     in bindR (foldM fill_one [0..<unat num_buffers] (f, con, a, data_size, totalSamples)) (\<lambda>(f, con, a, data_size, totalSamples).
        bindR (if is_last then
                 (if unat num_buffers \<ge> length (audio_buffers a) then Inl OutOfRange
                  else bindR (file_read f data_size con) (\<lambda>(_, b, f, con).
                       let buf = snd (audio_buffers a ! unat num_buffers)
                       in Inr (f, con, a\<lparr>audio_buffers := (audio_buffers a)[unat num_buffers := (ucast (totalSamples - 1), b @ drop (length b) buf)]\<rparr>)))
               else Inr (f, con, a)) (\<lambda>(f, con, a).
        let a = ac97_set_sample_rate (ucast sampleRate) a
        in Inr (f, con, out (BAR1 a + 0xB) 0x2 a))))"

text \<open>The loop of the system call: \<open>eq\<close> is the header's \<^verbatim>\<open>sample_rate_eq\<close>, bytes per second.\<close>

function play_loop :: "u32 \<Rightarrow> u32 \<Rightarrow> u32 \<Rightarrow> u32 \<Rightarrow> kfile \<times> console \<times> audio \<Rightarrow> (int \<times> kfile \<times> console \<times> audio) result" where
  "play_loop rate eq data_size totalSamples s =
     (if data_size > 0 then
        (if data_size < 32 * 131070 then
           bindR (fillBuffers rate True data_size totalSamples s) (\<lambda>(f, con, a).
           if eq = 0 then Inl DivideByZero
           else
             let duration = data_size div eq; js = (data_size mod eq) * 1000 div eq
             in if duration = -1 then Inr (-1, f, con, a)
                else play_loop rate eq 0 0 (f, con, play duration js (out (BAR0 a + 0x02) 0 a)))
         else
           bindR (fillBuffers rate False data_size totalSamples s) (\<lambda>(f, con, a).
           if eq = 0 then Inl DivideByZero
           else
             let duration = (32 * 131070) div eq; js = ((32 * 131070) mod eq) * 1000 div eq
             in if duration = -1 then Inr (-1, f, con, a)
                else play_loop rate eq (data_size - 32 * 131070) (totalSamples - 0xFFFF * 32)
                       (f, con, play duration js (out (BAR0 a + 0x02) 0 a))))
      else (case s of (f, con, a) \<Rightarrow> Inr (1, f, con, a)))"
  by pat_completeness auto
termination
  by (relation "measure (\<lambda>(rate, eq, data_size, totalSamples, s). unat data_size)")
    (auto simp: word_less_nat_alt unat_sub word_le_nat_alt not_less)

declare play_loop.simps [simp del]

definition play_audio :: "nat \<Rightarrow> bytes \<Rightarrow> kfile \<times> console \<times> audio \<Rightarrow> (int \<times> kfile \<times> console \<times> audio) result" where
  "play_audio fuel wavhdr = (\<lambda>(f, con, a).
     bindR (findWavHDR fuel (wavhdr, f, con)) (\<lambda>(h, f, con).
     if hdr_magic h \<noteq> WAVE then Inr (-1, f, con, a)
     else
       let totalSamples = hdr_sample_rate h * ucast (hdr_bitsPerSample h div 8) div 2
       in play_loop (hdr_sample_rate h) (hdr_sample_rate_eq h) (hdr_data_size h) totalSamples (f, con, a)))"

end
