(* ===== verification/Elf.thy ===== *)
theory Elf
  imports Ext2_Props
begin

unbundle bit_operations_syntax

text \<open>
  Executables: \<^verbatim>\<open>src/kernel/elf.h\<close> and \<^verbatim>\<open>elf.cc\<close>. Memory is the memory of the current process as
  the processor addresses it, a byte for each 32-bit address; a page that is not there yet is
  supplied by the page-fault handler as a page of zeros.
\<close>

type_synonym memory = "u32 \<Rightarrow> u8"

section \<open>Bytes of memory\<close>

fun uput :: "memory \<Rightarrow> u32 \<Rightarrow> bytes \<Rightarrow> memory" where
  "uput m a [] = m"
| "uput m a (b # bs) = uput (m(a := b)) (a + 1) bs"

definition uget :: "memory \<Rightarrow> u32 \<Rightarrow> nat \<Rightarrow> bytes" where
  "uget m a n = map (\<lambda>i. m (a + of_nat i)) [0..<n]"

definition uword :: "memory \<Rightarrow> u32 \<Rightarrow> u32" where
  "uword m a = le32 (uget m a 4)"

definition uput32 :: "memory \<Rightarrow> u32 \<Rightarrow> u32 \<Rightarrow> memory" where
  "uput32 m a v = uput m a (to_le32 v)"

text \<open>\<^verbatim>\<open>bzero\<close> counts down in a signed register.\<close>

definition ubzero :: "memory \<Rightarrow> u32 \<Rightarrow> u32 \<Rightarrow> memory" where
  "ubzero m p n = (\<lambda>a. if 0 < sint n \<and> a - p < n then 0 else m a)"

section \<open>Headers\<close>

record elf_header =
  magic0 :: u8
  magic1 :: u8
  magic2 :: u8
  magic3 :: u8
  cls :: u8
  encoding :: u8
  header_version :: u8
  abi :: u8
  abi_version :: u8
  elf_padding :: bytes
  elf_type :: u16
  machine :: u16
  version :: u32
  elf_entry :: u32
  phoff :: u32
  shoff :: u32
  elf_flags :: u32
  ehsize :: u16
  phentsize :: u16
  phnum :: u16
  shentsize :: u16
  shnum :: u16
  shstrndx :: u16

definition elf_header_of :: "bytes \<Rightarrow> elf_header" where
  "elf_header_of b = \<lparr>
     magic0 = b ! 0, magic1 = b ! 1, magic2 = b ! 2, magic3 = b ! 3, cls = b ! 4, encoding = b ! 5,
     header_version = b ! 6, abi = b ! 7, abi_version = b ! 8, elf_padding = part 9 7 b,
     elf_type = f16 b 16, machine = f16 b 18, version = f32 b 20, elf_entry = f32 b 24, phoff = f32 b 28,
     shoff = f32 b 32, elf_flags = f32 b 36, ehsize = f16 b 40, phentsize = f16 b 42, phnum = f16 b 44,
     shentsize = f16 b 46, shnum = f16 b 48, shstrndx = f16 b 50\<rparr>"

record program_header =
  ph_type :: u32
  ph_offset :: u32
  vaddr :: u32
  paddr :: u32
  filesz :: u32
  memsz :: u32
  ph_flags :: u32
  ph_align :: u32

definition program_header_of :: "bytes \<Rightarrow> program_header" where
  "program_header_of b = \<lparr>ph_type = f32 b 0, ph_offset = f32 b 4, vaddr = f32 b 8, paddr = f32 b 12,
     filesz = f32 b 16, memsz = f32 b 20, ph_flags = f32 b 24, ph_align = f32 b 28\<rparr>"

definition sizeof_ElfHeader :: nat where "sizeof_ElfHeader = 52"
definition sizeof_ProgramHeader :: nat where "sizeof_ProgramHeader = 32"

text \<open>The four tests \<^verbatim>\<open>exec\<close> and \<^verbatim>\<open>load\<close> both make.\<close>

definition elf_valid :: "elf_header \<Rightarrow> bool" where
  "elf_valid hdr \<longleftrightarrow>
     \<not> (magic0 hdr \<noteq> 0x7F \<or> magic1 hdr \<noteq> 0x45 \<or> magic2 hdr \<noteq> 0x4C \<or> magic3 hdr \<noteq> 0x46) \<and>
     \<not> (encoding hdr \<noteq> 1 \<or> cls hdr \<noteq> 1 \<or> abi hdr \<noteq> 0 \<or> header_version hdr \<noteq> 1) \<and>
     \<not> (version hdr \<noteq> 1 \<or> elf_type hdr \<noteq> 2) \<and> phoff hdr \<noteq> 0"

section \<open>Loading\<close>

definition load_segment :: "u32 \<Rightarrow> u32 \<Rightarrow> node \<Rightarrow> program_header \<Rightarrow> memory \<Rightarrow> memory result" where
  "load_segment ioapic lapic n phdr m =
     (if ph_type phdr = 1 then
        let p = vaddr phdr in
        if p < 0x80000000 \<or> p + filesz phdr > 0xFFFFFFFF \<or> p = ioapic \<or> p = lapic
        then Inl (Panic ''*** Invalid segment.'')
        else
          bindR (node_read_all n (ph_offset phdr) (filesz phdr)) (\<lambda>(_, b).
          Inr (ubzero (uput m p b) (p + filesz phdr) (memsz phdr - filesz phdr)))
      else Inr m)"

fun load_loop :: "nat \<Rightarrow> u32 \<Rightarrow> u32 \<Rightarrow> node \<Rightarrow> u32 \<Rightarrow> u32 \<Rightarrow> memory \<Rightarrow> memory result" where
  "load_loop 0 ioapic lapic n hoff esize m = Inr m"
| "load_loop (Suc k) ioapic lapic n hoff esize m =
     bindR (node_read n hoff sizeof_ProgramHeader) (\<lambda>b.
     bindR (load_segment ioapic lapic n (program_header_of b) m) (load_loop k ioapic lapic n (hoff + esize) esize))"

text \<open>The result is the entry point, or \<open>-1\<close> for a file that is no executable.\<close>

definition load :: "u32 \<Rightarrow> u32 \<Rightarrow> node option \<Rightarrow> memory \<Rightarrow> (u32 \<times> memory) result" where
  "load ioapic lapic file m =
     (case file of None \<Rightarrow> Inr (-1, m)
      | Some n \<Rightarrow>
          bindR (node_read n 0 sizeof_ElfHeader) (\<lambda>b.
          let hdr = elf_header_of b in
          if \<not> elf_valid hdr then Inr (-1, m)
          else
            bindR (load_loop (unat (phnum hdr)) ioapic lapic n (phoff hdr) (ucast (phentsize hdr)) m) (\<lambda>m.
            Inr (elf_entry hdr, m))))"

section \<open>Memory lemmas\<close>

lemma uput_other:
  "(\<And>i. i < length bs \<Longrightarrow> x \<noteq> a + of_nat i) \<Longrightarrow> uput m a bs x = m x"
proof (induction bs arbitrary: m a)
  case (Cons b bs)
  have "x \<noteq> a + 1 + of_nat i" if "i < length bs" for i
    using Cons.prems [of "Suc i"] that by (simp add: algebra_simps)
  then have "uput (m(a := b)) (a + 1) bs x = (m(a := b)) x" by (rule Cons.IH)
  moreover have "x \<noteq> a" using Cons.prems [of 0] by simp
  ultimately show ?case by simp
qed simp

lemma small_inj:
  assumes "i < 2 ^ 32" "j < 2 ^ 32"
  shows "a + of_nat i = (a + of_nat j :: u32) \<longleftrightarrow> i = j"
proof -
  have "unat (of_nat k :: u32) = k" if "k < 2 ^ 32" for k using that by (simp add: unat_of_nat take_bit_nat_def)
  then show ?thesis using assms by (metis add_left_cancel)
qed

lemma uput_at:
  assumes "length bs \<le> 2 ^ 32" "i < length bs"
  shows "uput m a bs (a + of_nat i) = bs ! i"
  using assms
proof (induction bs arbitrary: m a i)
  case (Cons b bs)
  show ?case
  proof (cases i)
    case 0
    have "a \<noteq> a + 1 + of_nat j" if "j < length bs" for j
      using small_inj [of 0 "Suc j" a] Cons.prems that by (simp add: algebra_simps)
    then show ?thesis using 0 uput_other [of bs a "a + 1" "m(a := b)"] by simp
  next
    case (Suc j)
    have "uput (m(a := b)) (a + 1) bs (a + 1 + of_nat j) = bs ! j"
      by (rule Cons.IH) (use Cons.prems Suc in simp_all)
    then show ?thesis by (simp add: Suc add.assoc)
  qed
qed simp

lemma uget_uput: "length bs \<le> 2 ^ 32 \<Longrightarrow> uget (uput m a bs) a (length bs) = bs"
  by (rule nth_equalityI) (simp_all add: uget_def uput_at)

lemma uword_uput32: "uword (uput32 m a v) a = v"
proof -
  have l: "length (to_le32 v) = 4" by (simp add: to_le32_def)
  show ?thesis using uget_uput [of "to_le32 v" m a] unfolding uword_def uput32_def l by simp
qed

end
