(* ===== verification/Sys.thy ===== *)
theory Sys
  imports Process Audio Elf
begin

unbundle bit_operations_syntax

text \<open>
  The system calls: \<^verbatim>\<open>src/kernel/sys.cc\<close>. The state holds the kernel's objects, the memory of
  the current process byte by byte, the file system, the sound card and the threads that were
  started to enter user mode. The page faults that reading and writing user memory causes, and the
  scratch copies \<^verbatim>\<open>exec\<close> makes in the kernel heap, are left out.
\<close>

section \<open>State\<close>

record sys =
  kern :: kernel
  umem :: memory
  root_fs :: ext2
  cur :: nat
  card :: audio
  started :: "(nat \<times> u32 \<times> u32) list"

text \<open>
  How a system call ends: it returns a value, ends the thread, is to raise or lower a semaphore
  (and then returns 0), waits for the future of a child, enters a new program, or stops the machine.
\<close>

datatype outcome =
    Returns int
  | Exited
  | CallsUp nat
  | CallsDown nat
  | WaitsForChild
  | EntersUser u32 u32
  | Shutdown

definition the_process :: "sys \<Rightarrow> process result" where
  "the_process s = (case procs (kern s) (cur s) of None \<Rightarrow> Inl OutOfRange | Some pr \<Rightarrow> Inr pr)"

definition set_process :: "process \<Rightarrow> sys \<Rightarrow> sys" where
  "set_process pr s = s\<lparr>kern := (kern s)\<lparr>procs := (procs (kern s))(cur s \<mapsto> pr)\<rparr>\<rparr>"

text \<open>Word \<open>i\<close> of the caller's stack.\<close>

definition uarg :: "sys \<Rightarrow> u32 \<Rightarrow> nat \<Rightarrow> u32" where
  "uarg s userEsp i = uword (umem s) (userEsp + 4 * of_nat i)"

text \<open>The test of a user pointer that most calls make.\<close>

definition bad_pointer :: "sys \<Rightarrow> u32 \<Rightarrow> bool" where
  "bad_pointer s p \<longleftrightarrow>
     p < 0x80000000 \<or> p = ioAPIC (kConfig (k_vm (kern s))) \<or> p = localAPIC (kConfig (k_vm (kern s)))"

section \<open>Strings in memory\<close>

text \<open>The string at an address; there is none when no byte from there on is zero.\<close>

partial_function (option) cstring :: "memory \<Rightarrow> u32 \<Rightarrow> bytes option" where
  [code]: "cstring m a = (if m a = 0 then Some [] else Option.bind (cstring m (a + 1)) (\<lambda>s. Some (m a # s)))"

definition ustring :: "memory \<Rightarrow> u32 \<Rightarrow> bytes result" where
  "ustring m a = (case cstring m a of None \<Rightarrow> Inl Diverges | Some s \<Rightarrow> Inr s)"

fun ustrings :: "memory \<Rightarrow> u32 list \<Rightarrow> bytes list result" where
  "ustrings m [] = Inr []"
| "ustrings m (p # ps) = bindR (ustring m p) (\<lambda>s. bindR (ustrings m ps) (\<lambda>ss. Inr (s # ss)))"

section \<open>Exec\<close>

text \<open>The loops that copy the arguments to the stack and store their addresses, from the last to the first.\<close>

fun push_args :: "bytes list \<Rightarrow> u32 \<Rightarrow> memory \<Rightarrow> u32 list \<times> u32 \<times> memory" where
  "push_args [] sp m = ([], sp, m)"
| "push_args (b # bs) sp m =
     (let (addresses, sp, m) = push_args bs sp m;
          sp = sp - of_nat (length b + 1)
      in (sp # addresses, sp, uput m sp (b @ [0])))"

fun push_words :: "u32 list \<Rightarrow> u32 \<Rightarrow> memory \<Rightarrow> u32 \<times> memory" where
  "push_words [] sp m = (sp, m)"
| "push_words (w # ws) sp m = (let (sp, m) = push_words ws sp m; sp = sp - 4 in (sp, uput32 m sp w))"

definition totalLen :: "bytes list \<Rightarrow> nat" where
  "totalLen args = sum_list (map (\<lambda>b. length b + 1) args)"

definition exec_stack :: "bytes list \<Rightarrow> memory \<Rightarrow> u32 \<times> memory" where
  "exec_stack args m =
     (let sp = 0xefffe000;
          alignedLen = (totalLen args + 4) div 4 * 4;
          offset = alignedLen - totalLen args;
          sp = sp - of_nat offset;
          (addresses, sp, m) = push_args args sp m;
          sp = sp - 4; m = uput32 m sp 0;
          (sp, m) = push_words addresses sp m;
          sp = sp - 4; m = uput32 m sp (sp + 4);
          sp = sp - 4; m = uput32 m sp (of_nat (length args))
      in (sp, m))"

text \<open>What \<^verbatim>\<open>clear_private\<close> leaves to be seen in memory: the private pages will be fresh ones.\<close>

definition cleared :: "vmm \<Rightarrow> memory \<Rightarrow> memory" where
  "cleared v m = (\<lambda>a. if is_special v (framedown a) then m a else 0)"

definition exec :: "u32 \<Rightarrow> u32 list \<Rightarrow> sys \<Rightarrow> (outcome \<times> sys) result" where
  "exec path argv s =
     bindR (ustring (umem s) path) (\<lambda>name.
     bindR (ext2_find (root_fs s) (root (root_fs s)) name) (\<lambda>file.
     case file of None \<Rightarrow> Inr (Returns (-1), s)
     | Some n \<Rightarrow>
         if \<not> is_file (nd_data n) then Inr (Returns (-1), s)
         else
           bindR (node_read n 0 sizeof_ElfHeader) (\<lambda>hb.
           if \<not> elf_valid (elf_header_of hb) then Inr (Returns (-1), s)
           else
             bindR (ustrings (umem s) argv) (\<lambda>args.
             bindR (the_process s) (\<lambda>pr.
             bindR (clear_private pr (kern s)) (\<lambda>k.
             let c = kConfig (k_vm (kern s));
                 (sp, m) = exec_stack args (cleared (k_vm (kern s)) (umem s))
             in bindR (load (ioAPIC c) (localAPIC c) file m) (\<lambda>(e, m).
                Inr (EntersUser e sp, s\<lparr>kern := k, umem := m\<rparr>))))))))"

section \<open>The handlers\<close>

definition sys_exit :: "u32 \<Rightarrow> sys \<Rightarrow> (outcome \<times> sys) result" where
  "sys_exit userEsp s =
     (let status = uarg s userEsp 1
      in bindR (the_process s) (\<lambda>pr.
         bindR (process_exit pr status (kern s)) (\<lambda>k. Inr (Exited, s\<lparr>kern := k\<rparr>))))"

definition sys_write :: "u32 \<Rightarrow> sys \<Rightarrow> (outcome \<times> sys) result" where
  "sys_write userEsp s =
     (let fd = uarg s userEsp 1; buf = uarg s userEsp 2; nbyte = uarg s userEsp 3
      in if bad_pointer s buf then Inr (Returns (-1), s)
         else
           bindR (the_process s) (\<lambda>pr.
           case getFile pr fd of None \<Rightarrow> Inr (Returns (-1), s)
           | Some f \<Rightarrow>
               (let (r, con) = file_write (file_objs (kern s) f) (umem s buf) nbyte (k_con (kern s))
                in Inr (Returns r, s\<lparr>kern := (kern s)\<lparr>k_con := con\<rparr>\<rparr>))))"

text \<open>A failed fork hands its null child to \<^verbatim>\<open>thread\<close>, which reads the child's page directory.\<close>

definition sys_fork :: "u32 \<Rightarrow> u32 \<Rightarrow> sys \<Rightarrow> (outcome \<times> sys) result" where
  "sys_fork userPC userEsp s =
     bindR (proc_fork (cur s) (kern s)) (\<lambda>(ident, child, k).
     case child of None \<Rightarrow> Inl NullDeref
     | Some ch \<Rightarrow> Inr (Returns ident, s\<lparr>kern := k, started := started s @ [(ch, userPC, userEsp)]\<rparr>))"

definition sys_sem :: "u32 \<Rightarrow> sys \<Rightarrow> (outcome \<times> sys) result" where
  "sys_sem userEsp s =
     bindR (the_process s) (\<lambda>pr.
     let (ident, pr, k) = newSemaphore pr (uarg s userEsp 1) (kern s)
     in Inr (Returns ident, set_process pr (s\<lparr>kern := k\<rparr>)))"

definition sys_up :: "u32 \<Rightarrow> sys \<Rightarrow> (outcome \<times> sys) result" where
  "sys_up userEsp s =
     bindR (the_process s) (\<lambda>pr.
     case getSemaphore pr (uarg s userEsp 1) of None \<Rightarrow> Inr (Returns (-1), s)
     | Some sem \<Rightarrow> Inr (CallsUp sem, s))"

definition sys_down :: "u32 \<Rightarrow> sys \<Rightarrow> (outcome \<times> sys) result" where
  "sys_down userEsp s =
     bindR (the_process s) (\<lambda>pr.
     case getSemaphore pr (uarg s userEsp 1) of None \<Rightarrow> Inr (Returns (-1), s)
     | Some sem \<Rightarrow> Inr (CallsDown sem, s))"

definition sys_close :: "u32 \<Rightarrow> sys \<Rightarrow> (outcome \<times> sys) result" where
  "sys_close userEsp s =
     bindR (the_process s) (\<lambda>pr.
     let (r, pr) = close pr (uarg s userEsp 1) in Inr (Returns r, set_process pr s))"

definition sys_wait :: "u32 \<Rightarrow> sys \<Rightarrow> (outcome \<times> sys) result" where
  "sys_wait userEsp s =
     (let ptr = uarg s userEsp 2
      in if ptr = 0 \<or> bad_pointer s ptr then Inr (Returns (-1), s)
         else
           bindR (the_process s) (\<lambda>pr.
           case wait pr (uarg s userEsp 1) (kern s) of
             Blocks \<Rightarrow> Inr (WaitsForChild, s)
           | Done (r, val, pr) \<Rightarrow>
               (let s = set_process pr s
                in Inr (Returns r, case val of None \<Rightarrow> s | Some v \<Rightarrow> s\<lparr>umem := uput32 (umem s) ptr v\<rparr>))))"

text \<open>The loop that collects the arguments of \<^verbatim>\<open>execl\<close>: at most 99; \<open>None\<close> for a bad pointer.\<close>

fun collect_args :: "nat \<Rightarrow> sys \<Rightarrow> u32 \<Rightarrow> nat \<Rightarrow> u32 list option" where
  "collect_args 0 s userEsp argc = Some []"
| "collect_args (Suc k) s userEsp argc =
     (let p = uarg s userEsp (argc + 2)
      in if p = 0 then Some []
         else if bad_pointer s p then None
         else map_option (\<lambda>ps. p # ps) (collect_args k s userEsp (argc + 1)))"

definition sys_execl :: "u32 \<Rightarrow> sys \<Rightarrow> (outcome \<times> sys) result" where
  "sys_execl userEsp s =
     (let path = uarg s userEsp 1
      in if bad_pointer s path then Inr (Returns (-1), s)
         else case collect_args 99 s userEsp 0 of None \<Rightarrow> Inr (Returns (-1), s)
         | Some argv \<Rightarrow>
             if length argv = 99 then Inl (Panic ''Too many args in execl'')
             else exec path argv s)"

text \<open>
  \<^verbatim>\<open>open\<close> follows symbolic links, with fuel, since links can form a cycle. A link that leads nowhere
  makes the loop look at a null node.
\<close>

fun follow_links :: "nat \<Rightarrow> ext2 \<Rightarrow> node option \<Rightarrow> node option result" where
  "follow_links 0 e nd = Inl Diverges"
| "follow_links (Suc fuel) e nd =
     (case nd of None \<Rightarrow> Inl NullDeref
      | Some n \<Rightarrow>
          if is_symlink (nd_data n) then
            bindR (get_symbol n) (\<lambda>b.
            bindR (ext2_find e (root e) (takeWhile (\<lambda>c. c \<noteq> 0) b)) (follow_links fuel e))
          else Inr (Some n))"

definition sys_open :: "nat \<Rightarrow> u32 \<Rightarrow> sys \<Rightarrow> (outcome \<times> sys) result" where
  "sys_open fuel userEsp s =
     (let filename = uarg s userEsp 1
      in if bad_pointer s filename then Inr (Returns (-1), s)
         else
           bindR (ustring (umem s) filename) (\<lambda>name.
           bindR (ext2_find (root_fs s) (root (root_fs s)) name) (\<lambda>nd.
           if nd = None then Inr (Returns (-1), s)
           else
             bindR (follow_links fuel (root_fs s) nd) (\<lambda>nd.
             case nd of None \<Rightarrow> Inr (Returns (-1), s)
             | Some n \<Rightarrow>
                 bindR (the_process s) (\<lambda>pr.
                 let (ofs, k) = new_obj (kern s);
                     k = k\<lparr>file_objs := (file_objs k)(ofs := new_OpenFileStruct n)\<rparr>;
                     (fd, pr) = setFile pr (Some ofs)
                 in Inr (Returns fd, set_process pr (s\<lparr>kern := k\<rparr>)))))))"

definition sys_len :: "u32 \<Rightarrow> sys \<Rightarrow> (outcome \<times> sys) result" where
  "sys_len userEsp s =
     bindR (the_process s) (\<lambda>pr.
     case getFile pr (uarg s userEsp 1) of None \<Rightarrow> Inr (Returns (-1), s)
     | Some f \<Rightarrow> Inr (Returns (sint (file_size (file_objs (kern s) f))), s))"

definition sys_read :: "u32 \<Rightarrow> sys \<Rightarrow> (outcome \<times> sys) result" where
  "sys_read userEsp s =
     (let fd = uarg s userEsp 1; buf = uarg s userEsp 2; nbytes = uarg s userEsp 3
      in if bad_pointer s buf then Inr (Returns (-1), s)
         else
           bindR (the_process s) (\<lambda>pr.
           case getFile pr fd of None \<Rightarrow> Inr (Returns (-1), s)
           | Some f \<Rightarrow>
               if isU8250 (file_objs (kern s) f) then Inr (Returns (-1), s)
               else
                 bindR (file_read (file_objs (kern s) f) nbytes (k_con (kern s))) (\<lambda>(r, b, fl, con).
                 Inr (Returns r, s\<lparr>kern := (kern s)\<lparr>file_objs := (file_objs (kern s))(f := fl), k_con := con\<rparr>,
                                  umem := uput (umem s) buf b\<rparr>))))"

definition sys_seek :: "u32 \<Rightarrow> sys \<Rightarrow> (outcome \<times> sys) result" where
  "sys_seek userEsp s =
     bindR (the_process s) (\<lambda>pr.
     case getFile pr (uarg s userEsp 1) of None \<Rightarrow> Inr (Returns (-1), s)
     | Some f \<Rightarrow>
         if isU8250 (file_objs (kern s) f) then Inr (Returns (-1), s)
         else
           (let (r, fl) = seek (file_objs (kern s) f) (uarg s userEsp 2)
            in Inr (Returns (sint r), s\<lparr>kern := (kern s)\<lparr>file_objs := (file_objs (kern s))(f := fl)\<rparr>\<rparr>)))"

text \<open>The fresh \<^verbatim>\<open>WAVHeader\<close> has the contents the heap gives it.\<close>

definition sys_play_audio :: "nat \<Rightarrow> bytes \<Rightarrow> u32 \<Rightarrow> sys \<Rightarrow> (outcome \<times> sys) result" where
  "sys_play_audio fuel wavhdr userEsp s =
     bindR (the_process s) (\<lambda>pr.
     case getFile pr (uarg s userEsp 1) of None \<Rightarrow> Inr (Returns (-1), s)
     | Some f \<Rightarrow>
         if isU8250 (file_objs (kern s) f) then Inr (Returns (-1), s)
         else
           bindR (play_audio fuel wavhdr (file_objs (kern s) f, k_con (kern s), card s)) (\<lambda>(r, fl, con, a).
           Inr (Returns r, s\<lparr>kern := (kern s)\<lparr>file_objs := (file_objs (kern s))(f := fl), k_con := con\<rparr>, card := a\<rparr>)))"

text \<open>The dispatch. \<open>userPC\<close> and \<open>userEsp\<close> are words 0 and 3 of the interrupt frame.\<close>

definition sysHandler :: "nat \<Rightarrow> bytes \<Rightarrow> u32 \<Rightarrow> u32 \<Rightarrow> u32 \<Rightarrow> sys \<Rightarrow> (outcome \<times> sys) result" where
  "sysHandler fuel wavhdr eax userPC userEsp s =
     (if eax = 0 then sys_exit userEsp s
      else if eax = 1 then sys_write userEsp s
      else if eax = 2 then sys_fork userPC userEsp s
      else if eax = 3 then sys_sem userEsp s
      else if eax = 4 then sys_up userEsp s
      else if eax = 5 then sys_down userEsp s
      else if eax = 6 then sys_close userEsp s
      else if eax = 7 then Inr (Shutdown, s)
      else if eax = 8 then sys_wait userEsp s
      else if eax = 9 then sys_execl userEsp s
      else if eax = 10 then sys_open fuel userEsp s
      else if eax = 11 then sys_len userEsp s
      else if eax = 12 then sys_read userEsp s
      else if eax = 13 then sys_seek userEsp s
      else if eax = 14 then sys_play_audio fuel wavhdr userEsp s
      else Inr (Returns (-1), s))"

end
