(* ===== verification/Sys_Types.thy ===== *)
theory Sys_Types
  imports Sys
begin

text \<open>
  The kernel's objects are typed: a numbering says for every object whether it is a file, a
  semaphore, a future or a process, every handle in a process's tables is null or points to an
  object of the kind its table is for, and no system call breaks this.
\<close>

section \<open>Kinds of objects\<close>

datatype kind = FileK | SemK | FutK | ProcK

definition handle_ok :: "(nat \<Rightarrow> kind) \<Rightarrow> nat \<Rightarrow> kind \<Rightarrow> nat option \<Rightarrow> bool" where
  "handle_ok ty n kd h \<longleftrightarrow> (case h of None \<Rightarrow> True | Some a \<Rightarrow> a < n \<and> ty a = kd)"

definition process_ok :: "(nat \<Rightarrow> kind) \<Rightarrow> nat \<Rightarrow> process \<Rightarrow> bool" where
  "process_ok ty n pr \<longleftrightarrow>
     length (files pr) = NFILE \<and> list_all (handle_ok ty n FileK) (files pr) \<and>
     length (sems pr) = NSEM \<and> list_all (handle_ok ty n SemK) (sems pr) \<and>
     length (children pr) = NCHILD \<and> list_all (handle_ok ty n FutK) (children pr) \<and>
     handle_ok ty n FutK (Some (p_output pr))"

definition typed :: "(nat \<Rightarrow> kind) \<Rightarrow> kernel \<Rightarrow> bool" where
  "typed ty k \<longleftrightarrow> (\<forall>p pr. procs k p = Some pr \<longrightarrow>
     handle_ok ty (next_obj k) ProcK (Some p) \<and> process_ok ty (next_obj k) pr)"

text \<open>
  One state follows another when objects keep their kinds, and an object of one sort is only
  written where an object of its kind is.
\<close>

definition grows :: "(nat \<Rightarrow> kind) \<Rightarrow> kernel \<Rightarrow> (nat \<Rightarrow> kind) \<Rightarrow> kernel \<Rightarrow> bool" where
  "grows ty k ty' k' \<longleftrightarrow> next_obj k \<le> next_obj k' \<and> (\<forall>a < next_obj k. ty' a = ty a) \<and>
     (\<forall>a. file_objs k' a \<noteq> file_objs k a \<longrightarrow> a < next_obj k' \<and> ty' a = FileK) \<and>
     (\<forall>a. sem_objs k' a \<noteq> sem_objs k a \<longrightarrow> a < next_obj k' \<and> ty' a = SemK) \<and>
     (\<forall>a. futs k' a \<noteq> futs k a \<longrightarrow> a < next_obj k' \<and> ty' a = FutK)"

lemma grows_refl [simp]: "grows ty k ty k"
  by (simp add: grows_def)

lemma grows_cong:
  "next_obj k2 = next_obj k1 \<Longrightarrow> file_objs k2 = file_objs k1 \<Longrightarrow> sem_objs k2 = sem_objs k1 \<Longrightarrow> futs k2 = futs k1 \<Longrightarrow>
    grows ty k ty' k2 = grows ty k ty' k1"
  by (simp add: grows_def)

lemma grows_trans: "grows ty k ty1 k1 \<Longrightarrow> grows ty1 k1 ty2 k2 \<Longrightarrow> grows ty k ty2 k2"
  unfolding grows_def by (intro conjI allI impI) (metis order_less_le_trans order_trans)+

lemma handle_ok_None [simp]: "handle_ok ty n kd None"
  by (simp add: handle_ok_def)

lemma handle_grows: "handle_ok ty (next_obj k) kd h \<Longrightarrow> grows ty k ty' k' \<Longrightarrow> handle_ok ty' (next_obj k') kd h"
  by (auto simp: handle_ok_def grows_def split: option.splits)

lemma process_grows:
  "process_ok ty (next_obj k) pr \<Longrightarrow> grows ty k ty' k' \<Longrightarrow> process_ok ty' (next_obj k') pr"
  unfolding process_ok_def using handle_grows [of ty k _ _ ty' k'] by (auto elim!: list.pred_mono_strong)

lemma typed_cong: "procs k' = procs k \<Longrightarrow> next_obj k' = next_obj k \<Longrightarrow> typed ty k' \<longleftrightarrow> typed ty k"
  by (simp add: typed_def)

lemma typed_process: "typed ty k \<Longrightarrow> procs k p = Some pr \<Longrightarrow> process_ok ty (next_obj k) pr"
  by (simp add: typed_def)

lemma typed_grows:
  assumes "typed ty k" "grows ty k ty' k'" "procs k' = procs k"
  shows "typed ty' k'"
  using assms process_grows [of ty k _ ty' k'] handle_grows [of ty k _ _ ty' k'] by (auto simp: typed_def)

lemma typed_update:
  assumes "typed ty k" "process_ok ty (next_obj k) pr" "handle_ok ty (next_obj k) ProcK (Some p)"
    and "procs k' = (procs k)(p \<mapsto> pr)" "next_obj k' = next_obj k"
  shows "typed ty k'"
  using assms by (auto simp: typed_def)

text \<open>A new object may be of any kind.\<close>

lemma new_obj_result: "new_obj k = (a, k') \<Longrightarrow> a = next_obj k \<and> k' = k\<lparr>next_obj := next_obj k + 1\<rparr>"
  by (auto simp: new_obj_def)

lemma new_obj_typed:
  assumes "typed ty k" "new_obj k = (a, k')"
  shows "typed (ty(a := kd)) k'" "grows ty k (ty(a := kd)) k'" "handle_ok (ty(a := kd)) (next_obj k') kd (Some a)"
proof -
  note n = new_obj_result [OF assms(2)]
  show g: "grows ty k (ty(a := kd)) k'" by (simp add: grows_def n)
  show "typed (ty(a := kd)) k'" by (rule typed_grows [OF assms(1) g]) (simp add: n)
  show "handle_ok (ty(a := kd)) (next_obj k') kd (Some a)" by (simp_all add: n handle_ok_def)
qed

lemma list_all_update: "list_all P xs \<Longrightarrow> P x \<Longrightarrow> list_all P (xs[i := x])"
  by (auto simp: list_all_iff dest!: set_update_subset_insert [THEN subsetD])

lemma list_all_map2:
  "list_all P xs \<Longrightarrow> list_all P ys \<Longrightarrow> list_all P (map2 (\<lambda>x y. if x \<noteq> None then x else y) xs ys)"
  by (induction xs ys rule: list_induct2') auto

section \<open>Tables\<close>

lemma setFile_ok:
  "process_ok ty n pr \<Longrightarrow> handle_ok ty n FileK f \<Longrightarrow> setFile pr f = (fd, pr') \<Longrightarrow> process_ok ty n pr'"
  by (auto simp: setFile_def process_ok_def list_all_update split: option.splits)

lemma close_ok: "process_ok ty n pr \<Longrightarrow> close pr d = (r, pr') \<Longrightarrow> process_ok ty n pr'"
  unfolding close_def Let_def by (auto simp: process_ok_def list_all_update split: if_splits)

lemma wait_ok: "process_ok ty n pr \<Longrightarrow> wait pr d k = Done (r, v, pr') \<Longrightarrow> process_ok ty n pr'"
  unfolding wait_def Let_def
  by (auto simp: process_ok_def list_all_update split: if_splits option.splits waiting.splits)

lemma getSemaphore_ok:
  assumes "process_ok ty n pr" "getSemaphore pr d = Some a"
  shows "handle_ok ty n SemK (Some a)"
proof -
  have i: "unat (d AND INDEX_MASK) < NSEM" and a: "sems pr ! unat (d AND INDEX_MASK) = Some a"
    using assms(2) by (auto simp: getSemaphore_def Let_def split: if_splits)
  have "list_all (handle_ok ty n SemK) (sems pr)" "length (sems pr) = NSEM" using assms(1) by (simp_all add: process_ok_def)
  then show ?thesis using i a unfolding list_all_length by metis
qed

lemma newSemaphore_ok:
  assumes t: "typed ty k" and p: "process_ok ty (next_obj k) pr" and n: "newSemaphore pr i k = (r, pr', k')"
  shows "\<exists>ty'. typed ty' k' \<and> grows ty k ty' k' \<and> process_ok ty' (next_obj k') pr' \<and> procs k' = procs k"
proof (cases "first_null 0 (sems pr)")
  case None
  then show ?thesis using assms by (auto simp: newSemaphore_def)
next
  case (Some j)
  obtain s k1 where o: "new_obj k = (s, k1)" by (cases "new_obj k") auto
  note N = new_obj_typed [OF t o, of SemK] and n' = new_obj_result [OF o]
  have r: "pr' = pr\<lparr>sems := (sems pr)[j := Some s]\<rparr>" "k' = k1\<lparr>sem_objs := (sem_objs k1)(s := ucast i)\<rparr>"
    using n Some o by (auto simp: newSemaphore_def)
  have g: "grows ty k (ty(s := SemK)) k'" using N(2) n' by (auto simp: r grows_def)
  have "typed (ty(s := SemK)) k'" using N(1) typed_cong [of k' k1] by (simp add: r)
  moreover have "process_ok (ty(s := SemK)) (next_obj k') pr'"
    using process_grows [OF p g] N(3) by (auto simp: r process_ok_def list_all_update)
  ultimately show ?thesis using g n' by (auto simp: r)
qed

section \<open>Fork\<close>

lemma new_process_ok:
  assumes t: "typed ty k" and n: "new_process isInit k = Inr (c, k')"
  shows "\<exists>ty' ch. typed ty' k' \<and> grows ty k ty' k' \<and> handle_ok ty' (next_obj k') ProcK (Some c) \<and>
    procs k' = (procs k)(c \<mapsto> ch) \<and> process_ok ty' (next_obj k') ch \<and> c \<notin> dom (procs k)"
proof -
  obtain out k1 where o1: "new_obj k = (out, k1)" by (cases "new_obj k") auto
  define k2 where "k2 = k1\<lparr>futs := (futs k1)(out := new_fut)\<rparr>"
  obtain d v where m: "make_pd (k_vm k2) = Inr (d, v)"
    using n o1 by (auto simp: new_process_def k2_def bindR_eq_Inr Let_def)
  define k3 where "k3 = k2\<lparr>k_vm := v\<rparr>"
  define fk where "fk = (if isInit then let (f, k) = new_obj k3 in (Some f, k\<lparr>file_objs := (file_objs k)(f := U8250File)\<rparr>) else (None, k3))"
  obtain f k4 where f: "fk = (f, k4)" by (cases fk)
  obtain p k5 where o5: "new_obj k4 = (p, k5)" by (cases "new_obj k4") auto
  have r: "c = p" "k' = k5\<lparr>procs := (procs k5)(p \<mapsto>
      \<lparr>files = [f, f, f] @ replicate (NFILE - 3) None, sems = replicate NSEM None,
        children = replicate NCHILD None, p_output = out, pd = d\<rparr>)\<rparr>"
    using n o1 m f o5 unfolding new_process_def k2_def [symmetric] Let_def by (auto simp add: k3_def fk_def k2_def Let_def cong: if_cong)
  let ?t1 = "ty(out := FutK)"
  note N1 = new_obj_typed [OF t o1, of FutK] and n1 = new_obj_result [OF o1]
  have t3: "typed ?t1 k3" using N1(1) typed_cong [of k3 k1] by (simp add: k3_def k2_def)
  have g3: "grows ty k ?t1 k3" using N1(2) n1 by (auto simp: k3_def k2_def grows_def)
  have h3: "handle_ok ?t1 (next_obj k3) FutK (Some out)" using N1(3) by (simp add: k3_def k2_def)
  have "\<exists>t4. typed t4 k4 \<and> grows ?t1 k3 t4 k4 \<and> handle_ok t4 (next_obj k4) FileK f \<and> procs k4 = procs k3"
  proof (cases isInit)
    case True
    obtain a k' where o: "new_obj k3 = (a, k')" by (cases "new_obj k3") auto
    note N = new_obj_typed [OF t3 o, of FileK] and na = new_obj_result [OF o]
    have e: "f = Some a" "k4 = k'\<lparr>file_objs := (file_objs k')(a := U8250File)\<rparr>" using f True o by (auto simp: fk_def)
    then show ?thesis using N na typed_cong [of k4 k'] by (intro exI [of _ "?t1(a := FileK)"]) (auto simp: grows_def)
  qed (use f t3 in \<open>auto simp: fk_def\<close>)
  then obtain t4 where t4: "typed t4 k4" "grows ?t1 k3 t4 k4" "handle_ok t4 (next_obj k4) FileK f" "procs k4 = procs k3" by blast
  let ?t5 = "t4(p := ProcK)"
  note N5 = new_obj_typed [OF t4(1) o5, of ProcK] and n5 = new_obj_result [OF o5]
  have n': "next_obj k' = next_obj k5" by (simp add: r)
  have g: "grows ty k ?t5 k'" using grows_trans [OF grows_trans [OF g3 t4(2)] N5(2)] grows_cong [of k' k5 ty k ?t5] by (simp add: r)
  have hf: "handle_ok ?t5 (next_obj k') FileK f" using handle_grows [OF t4(3) N5(2)] by (simp add: n')
  have ho: "handle_ok ?t5 (next_obj k') FutK (Some out)"
    using handle_grows [OF handle_grows [OF h3 t4(2)] N5(2)] by (simp add: n')
  let ?ch = "\<lparr>files = [f, f, f] @ replicate (NFILE - 3) None, sems = replicate NSEM None,
        children = replicate NCHILD None, p_output = out, pd = d\<rparr>"
  have ok: "process_ok ?t5 (next_obj k') ?ch"
    using hf ho by (simp add: process_ok_def NFILE_def NSEM_def NCHILD_def list_all_iff)
  have "typed ?t5 k'"
    by (rule typed_update [OF N5(1), of ?ch p]) (use ok N5(3) in \<open>simp_all add: r n'\<close>)
  moreover have "procs k5 = procs k" using n5 t4(4) n1 by (simp add: k3_def k2_def)
  moreover have "c \<notin> dom (procs k)"
  proof
    assume "c \<in> dom (procs k)"
    then have "c < next_obj k" using t by (auto simp: typed_def handle_ok_def)
    moreover have "next_obj k \<le> next_obj k4" using g3 t4(2) by (auto simp: grows_def)
    ultimately show False using n5 r(1) by simp
  qed
  ultimately show ?thesis using g N5(3) ok by (intro exI [of _ ?t5] exI [of _ ?ch]) (simp add: r n')
qed

lemma fork_ok:
  assumes t: "typed ty k" and f: "proc_fork p k = Inr (r, child, k')"
  shows "\<exists>ty'. typed ty' k' \<and> grows ty k ty' k' \<and> dom (procs k) \<subseteq> dom (procs k')"
proof -
  obtain pr where pr: "procs k p = Some pr" using f by (auto simp: proc_fork_def split: option.splits)
  show ?thesis
  proof (cases "first_null 0 (children pr)")
    case None
    then show ?thesis using f pr t by (auto simp: proc_fork_def intro!: exI [of _ ty])
  next
    case (Some i)
    obtain c k1 where c: "new_process False k = Inr (c, k1)"
      using f pr Some by (auto simp: proc_fork_def bindR_eq_Inr)
    obtain ty1 ch where N: "typed ty1 k1" "grows ty k ty1 k1" "handle_ok ty1 (next_obj k1) ProcK (Some c)"
      "procs k1 = (procs k)(c \<mapsto> ch)" "process_ok ty1 (next_obj k1) ch" "c \<notin> dom (procs k)"
      using new_process_ok [OF t c] by blast
    define ch' where "ch' = ch\<lparr>sems := map2 (\<lambda>s c. if s \<noteq> None then s else c) (sems pr) (sems ch), files := files pr\<rparr>"
    define pr' where "pr' = pr\<lparr>children := (children pr)[i := Some (p_output ch)]\<rparr>"
    obtain v where k': "k' = k1\<lparr>k_vm := v, procs := (procs k1)(c \<mapsto> ch', p \<mapsto> pr')\<rparr>"
      using f pr Some c N(4) by (auto simp: proc_fork_def bindR_eq_Inr ch'_def pr'_def Let_def)
    have op: "process_ok ty1 (next_obj k1) pr" using process_grows [OF typed_process [OF t pr] N(2)] .
    have "list_all (handle_ok ty1 (next_obj k1) SemK) (map2 (\<lambda>s c. if s \<noteq> None then s else c) (sems pr) (sems ch))"
      by (rule list_all_map2) (use op N(5) in \<open>simp_all add: process_ok_def\<close>)
    then have ch': "process_ok ty1 (next_obj k1) ch'" using op N(5) by (simp add: ch'_def process_ok_def)
    have pr': "process_ok ty1 (next_obj k1) pr'" using op N(5) by (simp add: pr'_def process_ok_def list_all_update)
    have hp: "handle_ok ty1 (next_obj k1) ProcK (Some p)"
      using handle_grows [OF _ N(2)] t pr by (auto simp: typed_def)
    have "typed ty1 (k1\<lparr>procs := (procs k1)(c \<mapsto> ch')\<rparr>)"
      by (rule typed_update [OF N(1) ch' N(3)]) simp_all
    then have "typed ty1 k'" by (rule typed_update [of _ _ pr' p]) (use pr' hp in \<open>simp_all add: k'\<close>)
    moreover have "grows ty k ty1 k'" using N(2) by (simp add: k' grows_def)
    ultimately show ?thesis by (auto simp: k' N(4))
  qed
qed

section \<open>The handlers\<close>

text \<open>What a system call leaves behind.\<close>

definition keeps_types :: "(nat \<Rightarrow> kind) \<Rightarrow> kernel \<Rightarrow> outcome \<Rightarrow> kernel \<Rightarrow> bool" where
  "keeps_types ty k oc k' \<longleftrightarrow>
     (\<exists>ty'. typed ty' k' \<and> grows ty k ty' k' \<and> dom (procs k) \<subseteq> dom (procs k') \<and>
       (\<forall>sem. oc = CallsUp sem \<or> oc = CallsDown sem \<longrightarrow> sem < next_obj k \<and> ty' sem = SemK))"

lemma keeps_types_same: "typed ty k \<Longrightarrow> (\<And>sem. oc \<noteq> CallsUp sem \<and> oc \<noteq> CallsDown sem) \<Longrightarrow> keeps_types ty k oc k"
  by (auto simp: keeps_types_def intro!: exI [of _ ty])

lemma keeps_types_write:
  assumes "typed ty k" "\<And>sem. oc \<noteq> CallsUp sem \<and> oc \<noteq> CallsDown sem" "grows ty k ty k'"
    and "procs k' = procs k" "next_obj k' = next_obj k"
  shows "keeps_types ty k oc k'"
  using assms typed_cong [of k' k ty] by (auto simp: keeps_types_def intro!: exI [of _ ty])

lemma keeps_types_process:
  assumes "typed ty1 k1" "grows ty k ty1 k1" "process_ok ty1 (next_obj k1) pr" "p \<in> dom (procs k)" "procs k1 = procs k"
    and "\<And>sem. oc \<noteq> CallsUp sem \<and> oc \<noteq> CallsDown sem"
  shows "keeps_types ty k oc (k1\<lparr>procs := (procs k1)(p \<mapsto> pr)\<rparr>)"
proof -
  have "handle_ok ty1 (next_obj k1) ProcK (Some p)" using assms(1,4,5) by (auto simp: typed_def)
  then have "typed ty1 (k1\<lparr>procs := (procs k1)(p \<mapsto> pr)\<rparr>)"
    by (intro typed_update [OF assms(1,3)]) simp_all
  moreover have "grows ty k ty1 (k1\<lparr>procs := (procs k1)(p \<mapsto> pr)\<rparr>)" using assms(2) by (simp add: grows_def)
  ultimately show ?thesis using assms(4,5,6) by (auto simp: keeps_types_def intro!: exI [of _ ty1])
qed

lemma getFile_ok:
  assumes "process_ok ty n pr" "getFile pr d = Some a"
  shows "handle_ok ty n FileK (Some a)"
proof -
  have k: "d AND 0xF0000000 = 0" and i: "unat (d AND INDEX_MASK) < NFILE" and a: "files pr ! unat d = Some a"
    using assms(2) by (auto simp: getFile_def getFileIndex_def descriptor_index_def FL_def Let_def split: if_splits)
  have "(0xFFFFFFFF :: u32) = - 1" by simp
  then have "d AND 0xFFFFFFFF = d" by (simp only: and.right_neutral)
  then have "d = (d AND 0xF0000000) OR (d AND INDEX_MASK)"
    by (simp add: INDEX_MASK_def bit.conj_disj_distrib [symmetric])
  then have "d = d AND INDEX_MASK" using k by simp
  then have "unat d < NFILE" using i by simp
  moreover have "list_all (handle_ok ty n FileK) (files pr)" "length (files pr) = NFILE" using assms(1) by (simp_all add: process_ok_def)
  ultimately show ?thesis using a unfolding list_all_length by metis
qed

lemma the_process_ok:
  "typed ty (kern s) \<Longrightarrow> the_process s = Inr pr \<Longrightarrow>
    process_ok ty (next_obj (kern s)) pr \<and> cur s \<in> dom (procs (kern s)) \<and> procs (kern s) (cur s) = Some pr"
  by (auto simp: the_process_def typed_def split: option.splits)

named_theorems call_defs "the definitions of the handlers"

lemmas [call_defs] = sys_exit_def sys_write_def sys_fork_def sys_sem_def sys_up_def sys_down_def sys_close_def sys_wait_def
  sys_execl_def sys_open_def sys_len_def sys_read_def sys_seek_def sys_play_audio_def Let_def bindR_eq_Inr set_process_def

lemma sys_exit_types:
  assumes t: "typed ty (kern s)" and r: "sys_exit userEsp s = Inr (oc, s')"
  shows "keeps_types ty (kern s) oc (kern s')"
proof -
  obtain pr f where p: "the_process s = Inr pr" and s': "oc = Exited" "kern s' = (kern s)\<lparr>futs := (futs (kern s))(p_output pr := f)\<rparr>"
    using r by (auto simp: call_defs process_exit_def)
  have "handle_ok ty (next_obj (kern s)) FutK (Some (p_output pr))" using the_process_ok [OF t p] by (simp add: process_ok_def)
  then show ?thesis by (intro keeps_types_write [OF t]) (auto simp: s' grows_def handle_ok_def)
qed

lemma sys_fork_types:
  assumes t: "typed ty (kern s)" and r: "sys_fork pc userEsp s = Inr (oc, s')"
  shows "keeps_types ty (kern s) oc (kern s')"
proof -
  obtain ident ch k where f: "proc_fork (cur s) (kern s) = Inr (ident, Some ch, k)" "kern s' = k" "oc = Returns ident"
    using r by (auto simp: call_defs split: option.splits)
  show ?thesis using fork_ok [OF t f(1)] f by (auto simp: keeps_types_def)
qed

lemma sys_sem_types:
  assumes t: "typed ty (kern s)" and r: "sys_sem userEsp s = Inr (oc, s')"
  shows "keeps_types ty (kern s) oc (kern s')"
proof -
  obtain pr where p: "the_process s = Inr pr" using r by (auto simp: call_defs)
  obtain ident pr' k where n: "newSemaphore pr (uarg s userEsp 1) (kern s) = (ident, pr', k)" by (metis prod_cases3)
  have s': "oc = Returns ident" "kern s' = k\<lparr>procs := (procs k)(cur s \<mapsto> pr')\<rparr>"
    using r p n by (auto simp: call_defs)
  have ok: "process_ok ty (next_obj (kern s)) pr" "cur s \<in> dom (procs (kern s))" using the_process_ok [OF t p] by simp_all
  obtain ty' where "typed ty' k" "grows ty (kern s) ty' k" "process_ok ty' (next_obj k) pr'" "procs k = procs (kern s)"
    using newSemaphore_ok [OF t ok(1) n] by blast
  then show ?thesis unfolding s' by (intro keeps_types_process ok(2)) simp_all
qed

lemma sys_up_down_types:
  assumes t: "typed ty (kern s)" and r: "sys_up userEsp s = Inr (oc, s') \<or> sys_down userEsp s = Inr (oc, s')"
  shows "keeps_types ty (kern s) oc (kern s')"
proof -
  obtain pr d where p: "the_process s = Inr pr" and "kern s' = kern s" and "(getSemaphore pr d = None \<and> oc = Returns (-1)) \<or>
      (\<exists>sem. getSemaphore pr d = Some sem \<and> (oc = CallsUp sem \<or> oc = CallsDown sem))"
    using r by (auto simp: call_defs split: option.splits)
  then show ?thesis using getSemaphore_ok [of ty "next_obj (kern s)" pr d] the_process_ok [OF t p] t
    by (auto simp: keeps_types_def handle_ok_def intro!: exI [of _ ty])
qed

lemma sys_close_types:
  assumes t: "typed ty (kern s)" and r: "sys_close userEsp s = Inr (oc, s')"
  shows "keeps_types ty (kern s) oc (kern s')"
proof -
  obtain pr where p: "the_process s = Inr pr" using r by (auto simp: call_defs)
  obtain v pr' where c: "close pr (uarg s userEsp 1) = (v, pr')" by (metis prod.exhaust)
  have s': "oc = Returns v" "kern s' = (kern s)\<lparr>procs := (procs (kern s))(cur s \<mapsto> pr')\<rparr>"
    using r p c by (auto simp: call_defs)
  have ok: "process_ok ty (next_obj (kern s)) pr" "cur s \<in> dom (procs (kern s))" using the_process_ok [OF t p] by simp_all
  show ?thesis unfolding s' by (rule keeps_types_process [OF t grows_refl close_ok [OF ok(1) c] ok(2)]) simp_all
qed

lemma sys_wait_types:
  assumes t: "typed ty (kern s)" and r: "sys_wait userEsp s = Inr (oc, s')"
  shows "keeps_types ty (kern s) oc (kern s')"
proof -
  consider (same) "kern s' = kern s" "\<And>sem. oc \<noteq> CallsUp sem \<and> oc \<noteq> CallsDown sem"
    | (ended) pr d v x pr' where "the_process s = Inr pr" "wait pr d (kern s) = Done (v, x, pr')" "oc = Returns v"
      "kern s' = (kern s)\<lparr>procs := (procs (kern s))(cur s \<mapsto> pr')\<rparr>"
  proof (cases "uarg s userEsp 2 = 0 \<or> bad_pointer s (uarg s userEsp 2)")
    case True
    then show thesis using r by (intro that(1)) (auto simp: sys_wait_def)
  next
    case False
    then obtain pr where p: "the_process s = Inr pr" using r by (auto simp: sys_wait_def bindR_eq_Inr)
    show thesis
    proof (cases "wait pr (uarg s userEsp 1) (kern s)")
      case (Done w)
      then show thesis using False r p by (cases w) (auto simp: sys_wait_def set_process_def Let_def split: option.splits intro: that(2))
    next
      case Blocks
      then show thesis using False r p by (intro that(1)) (auto simp: sys_wait_def)
    qed
  qed
  then show ?thesis
  proof cases
    case same
    then show ?thesis using keeps_types_same [OF t, of oc] by simp
  next
    case (ended pr d v x pr')
    note ok = the_process_ok [OF t ended(1)]
    show ?thesis unfolding ended(4)
      by (rule keeps_types_process [OF t grows_refl wait_ok [OF _ ended(2)]]) (use ok ended(3) in simp_all)
  qed
qed

lemma keeps_types_console:
  assumes t: "typed ty k" and "\<And>sem. oc \<noteq> CallsUp sem \<and> oc \<noteq> CallsDown sem"
  shows "keeps_types ty k oc (k\<lparr>k_con := con\<rparr>)" "keeps_types ty k oc (k\<lparr>k_vm := v\<rparr>)"
  using assms by (auto intro!: keeps_types_write [OF t] simp: grows_def)

lemma sys_write_types:
  assumes t: "typed ty (kern s)" and r: "sys_write userEsp s = Inr (oc, s')"
  shows "keeps_types ty (kern s) oc (kern s')"
  using r keeps_types_same [OF t, of oc] keeps_types_console(1) [OF t, of oc]
  by (auto simp: call_defs case_prod_unfold split: if_splits option.splits)

text \<open>Three calls change the file a descriptor stands for.\<close>

lemma file_write_types:
  assumes t: "typed ty (kern s)" and p: "the_process s = Inr pr" and f: "getFile pr d = Some f"
    and k: "k' = (kern s)\<lparr>file_objs := (file_objs (kern s))(f := fl), k_con := con\<rparr>"
  shows "keeps_types ty (kern s) (Returns v) k'"
proof -
  have "handle_ok ty (next_obj (kern s)) FileK (Some f)" using the_process_ok [OF t p] getFile_ok [OF _ f] by blast
  then show ?thesis by (intro keeps_types_write [OF t]) (auto simp: k grows_def handle_ok_def)
qed

lemma sys_file_types:
  assumes t: "typed ty (kern s)"
    and r: "sys_len userEsp s = Inr (oc, s') \<or> sys_read userEsp s = Inr (oc, s') \<or> sys_seek userEsp s = Inr (oc, s') \<or>
      sys_play_audio fuel wavhdr userEsp s = Inr (oc, s')"
  shows "keeps_types ty (kern s) oc (kern s')"
proof -
  have same: "kern s = (kern s)\<lparr>file_objs := (file_objs (kern s))(f := file_objs (kern s) f), k_con := k_con (kern s)\<rparr>" for f
    by simp
  consider (same) v where "kern s' = kern s" "oc = Returns v"
    | (new) pr d f fl con v where "the_process s = Inr pr" "getFile pr d = Some f" "oc = Returns v"
      "kern s' = (kern s)\<lparr>file_objs := (file_objs (kern s))(f := fl), k_con := con\<rparr>"
  proof -
    show thesis
    proof (cases "the_process s")
      case (Inl e)
      then show thesis using r by (intro that(1)) (auto simp: call_defs split: if_splits)
    next
      case p: (Inr pr)
    show thesis
    proof (cases "getFile pr (uarg s userEsp 1)")
      case None
      then show thesis using r p by (intro that(1)) (auto simp: call_defs split: if_splits)
    next
      case (Some f)
      from r show thesis
      proof (elim disjE)
        assume "sys_seek userEsp s = Inr (oc, s')"
        then show thesis using that(1) that(2) [OF p Some, where con = "k_con (kern s)"] p Some
          by (auto simp: call_defs case_prod_unfold split: if_splits)
      qed (use that p Some in \<open>auto simp: call_defs split: if_splits\<close>)
    qed
    qed
  qed
  then show ?thesis
  proof cases
    case (same v)
    then show ?thesis using keeps_types_same [OF t, of oc] by simp
  next
    case (new pr d f fl con v)
    then show ?thesis using file_write_types [OF t new(1,2,4)] by simp
  qed
qed

lemma sys_open_types:
  assumes t: "typed ty (kern s)" and r: "sys_open fuel userEsp s = Inr (oc, s')"
  shows "keeps_types ty (kern s) oc (kern s')"
proof -
  obtain o' k where o': "new_obj (kern s) = (o', k)" by (metis prod.exhaust)
  consider (same) "kern s' = kern s" "oc = Returns (-1)"
    | (new) pr n where "the_process s = Inr pr" "oc = Returns (fst (setFile pr (Some o')))"
      "kern s' = k\<lparr>file_objs := (file_objs k)(o' := new_OpenFileStruct n), procs := (procs k)(cur s \<mapsto> snd (setFile pr (Some o')))\<rparr>"
    using r by (auto simp: call_defs case_prod_unfold o' split: if_splits option.splits)
  then show ?thesis
  proof cases
    case same
    then show ?thesis using keeps_types_same [OF t, of oc] by simp
  next
    case (new pr n)
    obtain fd pr' where sf: "setFile pr (Some o') = (fd, pr')" by (metis prod.exhaust)
    let ?k = "k\<lparr>file_objs := (file_objs k)(o' := new_OpenFileStruct n)\<rparr>" and ?ty = "ty(o' := FileK)"
    note ok = the_process_ok [OF t new(1)] and N = new_obj_typed [OF t o', of FileK] and n' = new_obj_result [OF o']
    have t': "typed ?ty ?k" using N(1) typed_cong [of ?k k] by simp
    have g: "grows ty (kern s) ?ty ?k" using N(2) n' by (auto simp: grows_def)
    have p: "process_ok ?ty (next_obj ?k) pr'"
      by (rule setFile_ok [OF process_grows [OF _ g] _ sf]) (use ok N(3) in simp_all)
    have "keeps_types ty (kern s) oc (?k\<lparr>procs := (procs ?k)(cur s \<mapsto> pr')\<rparr>)"
      by (rule keeps_types_process [OF t' g p]) (use ok n' new(2) in simp_all)
    then show ?thesis by (simp add: new(3) sf)
  qed
qed

lemma exec_types:
  assumes t: "typed ty (kern s)" and r: "exec path argv s = Inr (oc, s')"
  shows "keeps_types ty (kern s) oc (kern s')"
proof -
  obtain nm fo where fo: "ustring (umem s) path = Inr nm" "ext2_find (root_fs s) (root (root_fs s)) nm = Inr fo"
    using r by (auto simp: exec_def bindR_eq_Inr)
  have "(\<forall>sem. oc \<noteq> CallsUp sem \<and> oc \<noteq> CallsDown sem) \<and> (kern s' = kern s \<or> (\<exists>v. kern s' = (kern s)\<lparr>k_vm := v\<rparr>))"
  proof (cases fo)
    case None
    then show ?thesis using r fo by (auto simp: exec_def)
  next
    case (Some n)
    then show ?thesis using r fo
      by (auto simp: exec_def clear_private_def bindR_eq_Inr Let_def case_prod_unfold split: if_splits)
  qed
  then show ?thesis by (auto intro!: keeps_types_write [OF t] simp: grows_def)
qed

lemma sys_execl_types:
  assumes t: "typed ty (kern s)" and r: "sys_execl userEsp s = Inr (oc, s')"
  shows "keeps_types ty (kern s) oc (kern s')"
  using r keeps_types_same [OF t, of oc] by (auto simp: sys_execl_def Let_def split: if_splits option.splits intro: exec_types [OF t])

text \<open>
  C33. System calls keep the kernel's objects typed. In a state where every handle of every process
  is null or points to an object of its table's kind, a system call that ends leaves such a state:
  objects keep their kinds, a file, a semaphore or a future is only written where an object of that
  kind is, no process disappears, and an object handed to \<^verbatim>\<open>up\<close> or \<^verbatim>\<open>down\<close> is a semaphore that was
  there, whatever descriptor the user passed.
\<close>

theorem system_calls_keep_types:
  assumes "typed ty (kern s)" and "sysHandler fuel wavhdr eax userPC userEsp s = Inr (oc, s')"
  shows "keeps_types ty (kern s) oc (kern s')"
proof -
  note t = assms(1)
  note lemmas_for_calls = sys_exit_types [OF t] sys_write_types [OF t] sys_fork_types [OF t] sys_sem_types [OF t]
    sys_up_down_types [OF t disjI1] sys_up_down_types [OF t disjI2] sys_close_types [OF t] sys_wait_types [OF t]
    sys_execl_types [OF t] sys_open_types [OF t] sys_file_types [OF t disjI1] sys_file_types [OF t disjI2 [OF disjI1]]
    sys_file_types [OF t disjI2 [OF disjI2 [OF disjI1]]] sys_file_types [OF t disjI2 [OF disjI2 [OF disjI2]]]
  show ?thesis
    using assms(2) keeps_types_same [OF t, of oc] unfolding sysHandler_def
    by (auto dest: lemmas_for_calls split: if_split_asm)
qed

text \<open>A first process with a semaphore at descriptor 0x20000000, which it closes.\<close>

definition demo_types :: "nat \<Rightarrow> kind" where
  "demo_types a = (if a = 0 then FutK else if a = 1 then FileK else if a = 2 then ProcK else SemK)"

definition demo_kernel :: kernel where
  "demo_kernel = \<lparr>k_vm = \<lparr>phys = \<lparr>mem = (\<lambda>_. 0), firstFree = 0, pavail = 0, plimit = 0\<rparr>, shared = 0,
      kConfig = \<lparr>memSize = 0, nOtherProcs = 0, totalProcs = 1, localAPIC = 0, madtFlags = 0, ioAPIC = 0, apicInfo = [], oemid = []\<rparr>,
      cr3 = 0, invlpgs = []\<rparr>, procs = [2 \<mapsto>
      \<lparr>files = [Some 1, Some 1, Some 1] @ replicate 7 None, sems = Some 3 # replicate 9 None,
        children = replicate 10 None, p_output = 0, pd = 0\<rparr>],
    file_objs = (\<lambda>_. U8250File), sem_objs = (\<lambda>_. 1), futs = (\<lambda>_. new_fut), next_obj = 4, k_con = \<lparr>con_in = [], con_out = []\<rparr>\<rparr>"

definition demo_sys :: sys where
  "demo_sys = \<lparr>kern = demo_kernel, umem = (\<lambda>a. if a = 7 then 0x20 else 0),
    root_fs = \<lparr>e_ide = \<lparr>drive = 0, status = 0, status_cmd = 0, platter = (\<lambda>_. [])\<rparr>, root = None, blockSize = 0, numberOfNodes = 0,
      numberOfBlocks = 0, iNodeSize = 0, nGroups = 0, iNodeTables = [], iNodesPerGroup = 0\<rparr>,
    cur = 2, card = \<lparr>BAR0 = 0, BAR1 = 0, GCR = 0, audio_buffers = [], buffers_at = 0, setupBuffers = False, outs = [],
      jiffies = 0, jiffiesPerSecond = 0, plays = []\<rparr>, started = []\<rparr>"

lemma demo_typed: "typed demo_types (kern demo_sys)"
  by (simp add: typed_def demo_sys_def demo_kernel_def demo_types_def process_ok_def handle_ok_def NFILE_def NSEM_def NCHILD_def list_all_iff)

theorem system_calls_keep_types_witness:
  "\<exists>s'. sysHandler 0 [] 6 0 0 demo_sys = Inr (Returns 0, s') \<and> keeps_types demo_types (kern demo_sys) (Returns 0) (kern s')"
proof -
  have "[0..<4] = [0 :: nat, 1, 2, 3]" by (simp add: upt_conv_Cons)
  then have "uarg demo_sys 0 1 = 0x20000000"
    by (simp add: uarg_def uword_def demo_sys_def uget_def le32_def)
  then obtain s' where "sysHandler 0 [] 6 0 0 demo_sys = Inr (Returns 0, s')"
    by (auto simp: sysHandler_def sys_close_def the_process_def demo_sys_def demo_kernel_def close_def getSemaphoreIndex_def
        descriptor_index_def SEM_def INDEX_MASK_def NSEM_def)
  then show ?thesis using system_calls_keep_types [OF demo_typed] by blast
qed

end
