(* ===== verification/Exec.thy ===== *)
theory Exec
  imports Sys
begin

unbundle bit_operations_syntax

text \<open>
  What \<^verbatim>\<open>exec\<close> gives the new program: the stack it builds is read back as the argument count, the
  argument vector and the argument strings.
\<close>

section \<open>Writing downwards\<close>

text \<open>Memory is the same from an address on, and the same below one.\<close>

definition same_from :: "u32 \<Rightarrow> memory \<Rightarrow> memory \<Rightarrow> bool" where
  "same_from s m m' \<longleftrightarrow> (\<forall>x \<ge> s. m' x = m x)"

definition same_below :: "u32 \<Rightarrow> memory \<Rightarrow> memory \<Rightarrow> bool" where
  "same_below s m m' \<longleftrightarrow> (\<forall>x < s. m' x = m x)"

lemma same_refl [simp]: "same_from s m m" "same_below s m m"
  by (simp_all add: same_from_def same_below_def)

lemma same_from_trans: "same_from s m m' \<Longrightarrow> same_from t m' m'' \<Longrightarrow> t \<le> s \<Longrightarrow> same_from s m m''"
  by (auto simp: same_from_def)

lemma same_below_trans: "same_below s m m' \<Longrightarrow> same_below t m' m'' \<Longrightarrow> t \<le> s \<Longrightarrow> same_below t m m''"
  by (auto simp: same_below_def)

lemma add_offset:
  assumes "unat a + n \<le> 2 ^ 32" "i < n"
  shows "unat (a + of_nat i :: u32) = unat a + i"
proof -
  have "unat (of_nat i :: u32) = i" using assms by (simp add: unat_of_nat take_bit_nat_def)
  then show ?thesis using assms by (subst unat_add_lem [THEN iffD1]) simp_all
qed

lemma uput_same:
  assumes "unat a + length bs \<le> unat s"
  shows "same_from s m (uput m a bs)" "same_below a m (uput m a bs)"
proof -
  have o: "unat (a + of_nat i :: u32) = unat a + i" if "i < length bs" for i
    using add_offset [of a "length bs" i] assms unat_bound [of s] that by simp
  show "same_from s m (uput m a bs)"
    unfolding same_from_def by (intro allI impI uput_other) (use o assms in \<open>fastforce simp: word_le_nat_alt\<close>)
  show "same_below a m (uput m a bs)"
    unfolding same_below_def by (intro allI impI uput_other) (use o in \<open>fastforce simp: word_less_nat_alt\<close>)
qed

lemma uget_same:
  assumes "same_from s m m'" "s \<le> a" "unat a + n \<le> 2 ^ 32"
  shows "uget m' a n = uget m a n"
  unfolding uget_def
proof (rule map_cong [OF refl])
  fix i assume "i \<in> set [0..<n]"
  then have "s \<le> a + of_nat i" using add_offset [OF assms(3), of i] assms(2) by (simp add: word_le_nat_alt)
  then show "m' (a + of_nat i) = m (a + of_nat i)" using assms(1) by (simp add: same_from_def)
qed

lemma unat_minus_nat:
  assumes "n \<le> unat sp"
  shows "unat (sp - of_nat n :: u32) = unat sp - n"
proof -
  have "unat (of_nat n :: u32) = n" using assms unat_bound [of sp] by (simp add: unat_of_nat take_bit_nat_def)
  then show ?thesis using assms by (simp add: unat_sub word_le_nat_alt)
qed

section \<open>Strings\<close>

lemma cstring_read:
  "uget m a (length b + 1) = b @ [0] \<Longrightarrow> 0 \<notin> set b \<Longrightarrow> cstring m a = Some b"
proof (induction b arbitrary: a)
  case Nil
  then have "m a = 0" by (simp add: uget_def)
  then show ?case by (subst cstring.simps) simp
next
  case (Cons c b)
  have e: "[0..<Suc (Suc (length b))] = 0 # map Suc [0..<Suc (length b)]"
    by (simp only: map_Suc_upt upt_conv_Cons [of 0 "Suc (Suc (length b))"] zero_less_Suc)
  have u: "uget m a (Suc (Suc (length b))) = m a # uget m (a + 1) (Suc (length b))"
    unfolding uget_def e by (simp add: comp_def algebra_simps del: upt_Suc)
  then have c: "m a = c" "uget m (a + 1) (length b + 1) = b @ [0]" using Cons.prems(1) by simp_all
  moreover have "cstring m (a + 1) = Some b" by (rule Cons.IH [OF c(2)]) (use Cons.prems in simp)
  ultimately show ?case using Cons.prems(2) by (subst cstring.simps) simp
qed

section \<open>The stack\<close>

lemma push_args_ok:
  assumes "totalLen args \<le> unat sp" "push_args args sp m = (as, sp', m')"
  shows "length as = length args \<and> unat sp' = unat sp - totalLen args \<and> same_from sp m m' \<and> same_below sp' m m' \<and>
    (\<forall>i < length args. sp' \<le> as ! i \<and> unat (as ! i) + length (args ! i) + 1 \<le> unat sp \<and>
       uget m' (as ! i) (length (args ! i) + 1) = args ! i @ [0])"
  using assms
proof (induction args arbitrary: as sp' m')
  case Nil
  then show ?case by (simp add: totalLen_def)
next
  case (Cons b bs)
  obtain as1 sp1 m1 where r: "push_args bs sp m = (as1, sp1, m1)" by (cases "push_args bs sp m") auto
  let ?n = "length b + 1"
  have t: "totalLen (b # bs) = ?n + totalLen bs" by (simp add: totalLen_def)
  have IH: "length as1 = length bs" "unat sp1 = unat sp - totalLen bs" "same_from sp m m1" "same_below sp1 m m1"
    "\<And>i. i < length bs \<Longrightarrow> sp1 \<le> as1 ! i \<and> unat (as1 ! i) + length (bs ! i) + 1 \<le> unat sp \<and>
       uget m1 (as1 ! i) (length (bs ! i) + 1) = bs ! i @ [0]"
    using Cons.IH [OF _ r] Cons.prems(1) t by auto
  have res: "as = sp' # as1" "sp' = sp1 - of_nat ?n" "m' = uput m1 sp' (b @ [0])"
    using Cons.prems(2) r by (auto simp: Let_def)
  have s: "unat sp' = unat sp1 - ?n" "?n \<le> unat sp1"
    using unat_minus_nat [of ?n sp1] Cons.prems(1) IH(2) t unfolding res(2) by simp_all
  have le: "sp' \<le> sp1" "sp1 \<le> sp" using s IH(2) by (simp_all add: word_le_nat_alt)
  have "unat sp' + length (b @ [0]) \<le> unat sp1" using s by simp
  note p = uput_same [OF this, of m1, folded res(3)]
  have f: "same_from sp m m'" by (rule same_from_trans [OF IH(3) p(1) le(2)])
  have g: "same_below sp' m m'" by (rule same_below_trans [OF IH(4) p(2) le(1)])
  have new: "uget m' sp' (length b + 1) = b @ [0]"
    using uget_uput [of "b @ [0]" m1 sp'] s unat_bound [of sp1] res(3) by simp
  have old: "uget m' (as1 ! i) (length (bs ! i) + 1) = bs ! i @ [0]" if "i < length bs" for i
    using uget_same [OF p(1), of "as1 ! i" "length (bs ! i) + 1"] IH(5) [OF that] unat_bound [of sp] by simp
  have "sp' \<le> as ! i \<and> unat (as ! i) + length ((b # bs) ! i) + 1 \<le> unat sp \<and>
       uget m' (as ! i) (length ((b # bs) ! i) + 1) = (b # bs) ! i @ [0]" if "i < length (b # bs)" for i
  proof (cases i)
    case 0
    then show ?thesis using new s IH(2) Cons.prems(1) t by (simp add: res(1))
  next
    case (Suc j)
    then have j: "j < length bs" using that by simp
    show ?thesis using IH(5) [OF j] old [OF j] le(1) Suc by (auto simp: res(1))
  qed
  then show ?case using IH(1) f g s IH(2) t by (simp add: res(1))
qed

lemma uput32_same:
  assumes "unat a + 4 \<le> unat s"
  shows "same_from s m (uput32 m a v)" "same_below a m (uput32 m a v)"
  using uput_same [of a "to_le32 v" s m] assms by (simp_all add: uput32_def to_le32_def)

lemma uword_same: "same_from s m m' \<Longrightarrow> s \<le> a \<Longrightarrow> unat a + 4 \<le> 2 ^ 32 \<Longrightarrow> uword m' a = uword m a"
  using uget_same [of s m m' a 4] by (simp add: uword_def)

lemma push_words_ok:
  assumes "4 * length ws \<le> unat sp" "push_words ws sp m = (sp', m')"
  shows "unat sp' = unat sp - 4 * length ws \<and> same_from sp m m' \<and> same_below sp' m m' \<and>
    (\<forall>i < length ws. uword m' (sp' + 4 * of_nat i) = ws ! i)"
  using assms
proof (induction ws arbitrary: sp' m')
  case (Cons w ws)
  obtain sp1 m1 where r: "push_words ws sp m = (sp1, m1)" by (cases "push_words ws sp m") auto
  have IH: "unat sp1 = unat sp - 4 * length ws" "same_from sp m m1" "same_below sp1 m m1"
    "\<And>i. i < length ws \<Longrightarrow> uword m1 (sp1 + 4 * of_nat i) = ws ! i"
    using Cons.IH [OF _ r] Cons.prems(1) by auto
  have res: "sp' = sp1 - 4" "m' = uput32 m1 sp' w" using Cons.prems(2) r by (auto simp: Let_def)
  have s: "unat sp' = unat sp1 - 4" "4 \<le> unat sp1"
    using unat_minus_nat [of 4 sp1] Cons.prems(1) IH(1) unfolding res(1) by simp_all
  have le: "sp' \<le> sp1" "sp1 \<le> sp" using s IH(1) by (simp_all add: word_le_nat_alt)
  have "unat sp' + 4 \<le> unat sp1" using s by simp
  note p = uput32_same [OF this, of m1 w, folded res(2)]
  have "uword m' (sp' + 4 * of_nat i) = (w # ws) ! i" if "i < length (w # ws)" for i
  proof (cases i)
    case 0
    then show ?thesis by (simp add: res(2) uword_uput32)
  next
    case (Suc j)
    then have j: "j < length ws" using that by simp
    have e: "sp' + 4 * of_nat i = sp1 + 4 * of_nat j" using Suc by (simp add: res(1) algebra_simps)
    have "unat (sp1 + of_nat (4 * j)) = unat sp1 + 4 * j"
      using add_offset [of sp1 "4 * j + 1" "4 * j"] IH(1) Cons.prems(1) j unat_bound [of sp] by simp
    then have "uword m' (sp1 + 4 * of_nat j) = uword m1 (sp1 + 4 * of_nat j)"
      using uword_same [OF p(1), of "sp1 + 4 * of_nat j"] IH(1) Cons.prems(1) j unat_bound [of sp]
      by (simp add: word_le_nat_alt)
    then show ?thesis unfolding e using IH(4) [OF j] Suc by simp
  qed
  then show ?case
    using s IH(1) same_from_trans [OF IH(2) p(1) le(2)] same_below_trans [OF IH(3) p(2) le(1)] by simp
qed simp

section \<open>Property\<close>

text \<open>
  The stack as the program's start code reads it: the number of arguments, the address of the
  argument vector, and the vector of addresses of strings, ended by a null pointer.
\<close>

definition reads_args :: "memory \<Rightarrow> u32 \<Rightarrow> bytes list \<Rightarrow> bool" where
  "reads_args m sp args \<longleftrightarrow>
     uword m sp = of_nat (length args) \<and>
     (let argv = uword m (sp + 4)
      in (\<forall>i < length args. cstring m (uword m (argv + 4 * of_nat i)) = Some (args ! i)) \<and>
         uword m (argv + 4 * of_nat (length args)) = 0)"

text \<open>
  The stages of \<^verbatim>\<open>exec\<close>'s work on the stack, from its top down: the strings, a null pointer, their
  addresses, and the two words on top. Each leaves what is above and below its own part alone.
\<close>

lemma exec_stages:
  assumes fit: "totalLen args + 4 * length args + 16 \<le> 0x6fffe000" and e: "exec_stack args m = (sp, m')"
  obtains off as sp2 sp3 sp4 sp5 m2 m3 m4 m5 where
    "0 < off" "off \<le> 4" "(totalLen args + off) mod 4 = 0" "length as = length args"
    "same_from (0xefffe000 - of_nat off) m m2" "same_below sp2 m m2"
    "\<And>i. i < length args \<Longrightarrow> sp2 \<le> as ! i \<and> unat (as ! i) + length (args ! i) + 1 \<le> 0xefffe000 - off \<and>
       uget m2 (as ! i) (length (args ! i) + 1) = args ! i @ [0]"
    "m3 = uput32 m2 sp3 0" "same_from sp3 m3 m4" "same_below sp4 m3 m4"
    "\<And>i. i < length args \<Longrightarrow> uword m4 (sp4 + 4 * of_nat i) = as ! i"
    "m5 = uput32 m4 sp5 sp4" "m' = uput32 m5 sp (of_nat (length args))" "sp5 = sp + 4"
    "unat sp + 8 = unat sp4" "unat sp5 + 4 = unat sp4" "unat sp4 + 4 * length args = unat sp3" "unat sp3 + 4 = unat sp2"
    "unat sp2 + (totalLen args + off) = 0xefffe000" "0x80000000 \<le> unat sp"
proof -
  let ?n = "totalLen args" and ?k = "length args" and ?top = "0xefffe000 :: u32"
  define off where "off = (?n + 4) div 4 * 4 - ?n"
  have "(?n + 4) div 4 * 4 \<le> ?n + 4" "?n < (?n + 4) div 4 * 4" by linarith+
  then have off: "0 < off" "off \<le> 4" "(?n + off) mod 4 = 0" by (simp_all add: off_def)
  define sp1 where "sp1 = ?top - of_nat off"
  obtain as sp2 m2 where r2: "push_args args sp1 m = (as, sp2, m2)" by (cases "push_args args sp1 m") auto
  define sp3 where "sp3 = sp2 - 4"
  define m3 where "m3 = uput32 m2 sp3 0"
  obtain sp4 m4 where r4: "push_words as sp3 m3 = (sp4, m4)" by (cases "push_words as sp3 m3") auto
  define sp5 where "sp5 = sp4 - 4"
  define m5 where "m5 = uput32 m4 sp5 sp4"
  have res: "sp = sp5 - 4" "m' = uput32 m5 sp (of_nat ?k)"
    using e r2 r4 unfolding exec_stack_def Let_def sp1_def off_def m3_def sp3_def sp5_def m5_def by auto
  have s1: "unat sp1 = 0xefffe000 - off" using unat_minus_nat [of off ?top] off by (simp add: sp1_def)
  have P: "length as = ?k" "unat sp2 = unat sp1 - ?n" "same_from sp1 m m2" "same_below sp2 m m2"
    "\<And>i. i < ?k \<Longrightarrow> sp2 \<le> as ! i \<and> unat (as ! i) + length (args ! i) + 1 \<le> unat sp1 \<and>
       uget m2 (as ! i) (length (args ! i) + 1) = args ! i @ [0]"
    using push_args_ok [OF _ r2] fit s1 off by auto
  have s3: "unat sp3 = unat sp2 - 4" using unat_minus_nat [of 4 sp2] P(2) s1 off fit by (simp add: sp3_def)
  have W: "unat sp4 = unat sp3 - 4 * ?k" "same_from sp3 m3 m4" "same_below sp4 m3 m4"
    "\<And>i. i < ?k \<Longrightarrow> uword m4 (sp4 + 4 * of_nat i) = as ! i"
    using push_words_ok [OF _ r4] P(1,2) s1 s3 off fit by auto
  have s5: "unat sp5 = unat sp4 - 4" using unat_minus_nat [of 4 sp4] W(1) s3 P(2) s1 off fit by (simp add: sp5_def)
  have s6: "unat sp = unat sp5 - 4" using unat_minus_nat [of 4 sp5] s5 W(1) s3 P(2) s1 off fit by (simp add: res)
  have s: "unat sp + 8 = unat sp4" "unat sp5 + 4 = unat sp4" "unat sp4 + 4 * ?k = unat sp3"
      "unat sp3 + 4 = unat sp2" "unat sp2 + (?n + off) = 0xefffe000" "0x80000000 \<le> unat sp"
    using s6 s5 W(1) s3 P(2) s1 off fit by linarith+
  have "sp5 = sp + 4" by (simp add: res)
  then show thesis
    using that [of off as m2 sp2 m3 sp3 m4 sp4 m5 sp5] off P(1,3-5) W(2-4) s res(2)
    unfolding sp1_def s1 [unfolded sp1_def] m3_def m5_def by blast
qed

text \<open>What is written below the stack afterwards does not matter to it.\<close>

lemma exec_reads:
  assumes nul: "\<forall>b \<in> set args. 0 \<notin> set b" and fit: "totalLen args + 4 * length args + 16 \<le> 0x6fffe000"
    and e: "exec_stack args m = (sp, m')" and l: "same_from sp m' m''"
  shows "reads_args m'' sp args" "unat sp mod 4 = 0" "0x80000000 \<le> unat sp" "unat sp < 0xefffe000"
    "0xefffe000 \<le> unat sp + totalLen args + 4 * length args + 16"
    "same_from 0xefffe000 m m'" "same_below sp m m'"
proof -
  let ?k = "length args"
  obtain off as sp2 sp3 sp4 sp5 m2 m3 m4 m5 where
    o: "0 < off" "off \<le> 4" "(totalLen args + off) mod 4 = 0" "length as = ?k"
    and P: "same_from (0xefffe000 - of_nat off) m m2" "same_below sp2 m m2"
    "\<And>i. i < ?k \<Longrightarrow> sp2 \<le> as ! i \<and> unat (as ! i) + length (args ! i) + 1 \<le> 0xefffe000 - off \<and>
       uget m2 (as ! i) (length (args ! i) + 1) = args ! i @ [0]"
    and W: "m3 = uput32 m2 sp3 0" "same_from sp3 m3 m4" "same_below sp4 m3 m4"
    "\<And>i. i < ?k \<Longrightarrow> uword m4 (sp4 + 4 * of_nat i) = as ! i"
    and T: "m5 = uput32 m4 sp5 sp4" "m' = uput32 m5 sp (of_nat ?k)" "sp5 = sp + 4"
    and s: "unat sp + 8 = unat sp4" "unat sp5 + 4 = unat sp4" "unat sp4 + 4 * ?k = unat sp3" "unat sp3 + 4 = unat sp2"
      "unat sp2 + (totalLen args + off) = 0xefffe000" "0x80000000 \<le> unat sp" by (rule exec_stages [OF fit e]) (rule that)
  have f3: "same_from sp2 m2 m3" "same_below sp3 m2 m3" using uput32_same [of sp3 sp2 m2 0] s by (simp_all add: W(1))
  have f5: "same_from sp4 m4 m5" "same_below sp5 m4 m5" using uput32_same [of sp5 sp4 m4] s by (simp_all add: T(1))
  have f6: "same_from sp5 m5 m'" "same_below sp m5 m'" using uput32_same [of sp sp5 m5] s by (simp_all add: T(2))
  have o2: "unat (0xefffe000 - of_nat off :: u32) = 0xefffe000 - off" using unat_minus_nat [of off "0xefffe000"] s by simp
  have le: "sp \<le> sp5" "sp5 \<le> sp4" "sp4 \<le> sp3" "sp3 \<le> sp2" "sp2 \<le> 0xefffe000 - of_nat off"
      "0xefffe000 - of_nat off \<le> (0xefffe000 :: u32)"
    using s by (simp_all add: word_le_nat_alt o2)
  have "same_from sp2 m2 m'"
    by (rule same_from_trans [OF f3(1) same_from_trans [OF W(2) same_from_trans [OF f5(1) f6(1) le(2)] le(3)] le(4)])
  from same_from_trans [OF P(1) this le(5)] show "same_from 0xefffe000 m m'" using le(6) by (auto simp: same_from_def)
  have from5: "same_from sp5 m5 m''" by (rule same_from_trans [OF f6(1) l le(1)])
  have from4: "same_from sp4 m4 m''" by (rule same_from_trans [OF f5(1) from5 le(2)])
  have from3: "same_from sp3 m3 m''" by (rule same_from_trans [OF W(2) from4 le(3)])
  have from2: "same_from sp2 m2 m''" by (rule same_from_trans [OF f3(1) from3 le(4)])
  show "same_below sp m m'"
    using same_below_trans [OF same_below_trans [OF same_below_trans [OF same_below_trans
      [OF P(2) f3(2) le(4)] W(3) le(3)] f5(2) le(2)] f6(2) le(1)] .
  have argc: "uword m'' sp = of_nat ?k"
    using uword_same [OF l, of sp] s unat_bound [of sp4] by (simp add: T(2) uword_uput32)
  have argv: "uword m'' (sp + 4) = sp4"
    using uword_same [OF from5, of sp5] s unat_bound [of sp4] by (simp add: T(1,3) uword_uput32)
  have word: "unat (sp4 + of_nat (4 * i)) = unat sp4 + 4 * i" if "i \<le> ?k" for i
    using add_offset [of sp4 "4 * i + 1" "4 * i"] s that unat_bound [of sp2] by simp
  have vec: "uword m'' (sp4 + 4 * of_nat i) = as ! i" if "i < ?k" for i
    using uword_same [OF from4, of "sp4 + 4 * of_nat i"] word [of i] that W(4) [OF that] s unat_bound [of sp2]
    by (simp add: word_le_nat_alt)
  have str: "cstring m'' (as ! i) = Some (args ! i)" if "i < ?k" for i
    using uget_same [OF from2, of "as ! i" "length (args ! i) + 1"] P(3) [OF that] nul that by (intro cstring_read) auto
  have "sp4 + 4 * of_nat ?k = sp3" using word [of ?k] s by (simp add: word_unat_eq_iff)
  then have "uword m'' (sp4 + 4 * of_nat ?k) = 0"
    using uword_same [OF from3, of sp3] s unat_bound [of sp2] by (simp add: W(1) uword_uput32)
  then show "reads_args m'' sp args" using argc argv vec str by (simp add: reads_args_def)
  obtain q where "totalLen args + off = 4 * q" using o(3) by (auto simp: mod_eq_0_iff_dvd elim: dvdE)
  then have "unat sp = 4 * (0x3bfff800 - 3 - ?k - q)" using s by arith
  then show "unat sp mod 4 = 0" by simp
  show "0x80000000 \<le> unat sp" "unat sp < 0xefffe000" "0xefffe000 \<le> unat sp + totalLen args + 4 * ?k + 16"
    using s o(2) by linarith+
qed

text \<open>
  \<^verbatim>\<open>exec\<close> hands over its arguments: from the stack pointer it enters the program with, the
  program reads the count and every one of the argument strings as they were passed. The pointer is
  a multiple of four, the stack lies below its top in the private half of the address space, and no
  other memory is written.
\<close>

theorem exec_passes_arguments:
  assumes nul: "\<forall>b \<in> set args. 0 \<notin> set b" and fit: "totalLen args + 4 * length args + 16 \<le> 0x6fffe000"
    and e: "exec_stack args m = (sp, m')"
  shows "reads_args m' sp args \<and> unat sp mod 4 = 0 \<and> 0x80000000 \<le> sp \<and> sp < 0xefffe000 \<and>
    (\<forall>x. x < sp \<or> 0xefffe000 \<le> x \<longrightarrow> m' x = m x)"
  using exec_reads [OF nul fit e same_refl(1)] by (auto simp: same_from_def same_below_def word_le_nat_alt word_less_nat_alt)

theorem exec_passes_arguments_witness:
  "let (sp, m') = exec_stack [[0x73, 0x68], [0x78]] (\<lambda>_. 0)
   in cstring m' (uword m' (uword m' (sp + 4) + 4)) = Some [0x78]"
proof -
  let ?a = "[[0x73, 0x68], [0x78]] :: bytes list"
  obtain sp m' where e: "exec_stack ?a (\<lambda>_. 0) = (sp, m')" by (cases "exec_stack ?a (\<lambda>_. 0)") auto
  have "reads_args m' sp ?a" using exec_passes_arguments [OF _ _ e] by (simp add: totalLen_def)
  then have "\<forall>i < 2. cstring m' (uword m' (uword m' (sp + 4) + 4 * of_nat i)) = Some (?a ! i)"
    by (simp add: reads_args_def Let_def)
  from this [rule_format, of 1] show ?thesis unfolding e by simp
qed

end
