(* ===== verification/Exec_Program.thy ===== *)
theory Exec_Program
  imports Exec Sys_Types Vmm_Props Vmm_Clear
begin

unbundle bit_operations_syntax

text \<open>
  The whole of \<^verbatim>\<open>exec\<close>: an executable of the file system becomes the program of the process, its
  segments in memory as the file and the sizes in its headers say, its arguments on its stack.
\<close>

section \<open>Segments\<close>

definition header_at :: "node \<Rightarrow> nat \<Rightarrow> program_header" where
  "header_at n k = program_header_of (map (node_cont n) [k..<k + sizeof_ProgramHeader])"

text \<open>The program headers of a file, \<open>k\<close> of them, \<open>esize\<close> bytes apart.\<close>

fun headers_at :: "node \<Rightarrow> nat \<Rightarrow> nat \<Rightarrow> nat \<Rightarrow> program_header list" where
  "headers_at n hoff esize 0 = []"
| "headers_at n hoff esize (Suc k) = header_at n hoff # headers_at n (hoff + esize) esize k"

text \<open>An address of a segment that is to be loaded.\<close>

definition in_segment :: "program_header \<Rightarrow> u32 \<Rightarrow> bool" where
  "in_segment ph x \<longleftrightarrow> ph_type ph = 1 \<and> vaddr ph \<le> x \<and> unat x < unat (vaddr ph) + unat (memsz ph)"

text \<open>A segment lies in the private half, below \<open>lim\<close>, and what the file has of it is in the file.\<close>

definition seg_fits :: "u32 \<Rightarrow> u32 \<Rightarrow> node \<Rightarrow> nat \<Rightarrow> program_header \<Rightarrow> bool" where
  "seg_fits ioapic lapic n lim ph \<longleftrightarrow> (ph_type ph = 1 \<longrightarrow>
     0x80000000 \<le> vaddr ph \<and> vaddr ph \<noteq> ioapic \<and> vaddr ph \<noteq> lapic \<and> filesz ph \<le> memsz ph \<and>
     unat (vaddr ph) + unat (memsz ph) \<le> lim \<and>
     unat (ph_offset ph) + unat (filesz ph) \<le> unat (node_size_in_bytes n))"

definition apart :: "program_header \<Rightarrow> program_header \<Rightarrow> bool" where
  "apart a b \<longleftrightarrow> (ph_type a = 1 \<and> ph_type b = 1 \<longrightarrow>
     unat (vaddr a) + unat (memsz a) \<le> unat (vaddr b) \<or> unat (vaddr b) + unat (memsz b) \<le> unat (vaddr a))"

text \<open>A segment in memory: the bytes of the file, then zeros.\<close>

definition seg_loaded :: "node \<Rightarrow> memory \<Rightarrow> program_header \<Rightarrow> bool" where
  "seg_loaded n m ph \<longleftrightarrow> (ph_type ph = 1 \<longrightarrow> (\<forall>i < unat (memsz ph).
     m (vaddr ph + of_nat i) = (if i < unat (filesz ph) then node_cont n (unat (ph_offset ph) + i) else 0)))"

section \<open>Loading\<close>

lemma in_range_iff:
  assumes "unat p + unat n \<le> 2 ^ 32"
  shows "x - p < n \<longleftrightarrow> p \<le> x \<and> unat x < unat p + unat (n :: u32)"
proof -
  have "unat (x - p) = (if unat p \<le> unat x then unat x - unat p else unat x + 2 ^ 32 - unat p)"
    by (simp add: unat_sub_if')
  then show ?thesis using assms unat_bound [of p] by (simp add: word_less_nat_alt word_le_nat_alt) linarith
qed

lemma not_above_max: "\<not> (0xFFFFFFFF :: u32) < x"
  using unat_bound [of x] by (simp add: word_less_nat_alt)

lemma load_segment_ok:
  assumes g: "node_good n" and f: "seg_fits ioapic lapic n lim ph" and l: "lim \<le> 0xf0000000"
  shows "\<exists>m'. load_segment ioapic lapic n ph m = Inr m' \<and> seg_loaded n m' ph \<and>
    (\<forall>x. \<not> in_segment ph x \<longrightarrow> m' x = m x)"
proof (cases "ph_type ph = 1")
  case False
  then show ?thesis by (simp add: load_segment_def seg_loaded_def)
next
  case True
  let ?p = "vaddr ph" and ?fs = "unat (filesz ph)" and ?ms = "unat (memsz ph)"
  let ?b = "map (node_cont n) [unat (ph_offset ph)..<unat (ph_offset ph) + ?fs]"
  have F: "0x80000000 \<le> ?p" "?p \<noteq> ioapic" "?p \<noteq> lapic" "?fs \<le> ?ms" "unat ?p + ?ms \<le> lim"
    "unat (ph_offset ph) + ?fs \<le> unat (node_size_in_bytes n)" using f True by (auto simp: seg_fits_def word_le_nat_alt)
  have p: "0x80000000 \<le> unat ?p" using F(1) by (simp add: word_le_nat_alt)
  have np: "\<not> ?p < 0x80000000" using F(1) by simp
  have r: "node_read_all n (ph_offset ph) (filesz ph) = Inr (int ?fs, ?b)"
  proof -
    have "min ?fs (unat (node_size_in_bytes n) - unat (ph_offset ph)) = ?fs" using F(6) by linarith
    then show ?thesis using node_read_all_ok [OF g, of "ph_offset ph" "filesz ph"] F(6) unfolding Let_def by simp
  qed
  let ?u = "uput m ?p ?b"
  let ?m = "ubzero ?u (?p + filesz ph) (memsz ph - filesz ph)"
  have e: "unat (?p + filesz ph) = unat ?p + ?fs" using F(4,5) l by (subst unat_add_lem [THEN iffD1]) simp_all
  have d: "unat (memsz ph - filesz ph) = ?ms - ?fs" using F(4) by (simp add: unat_sub word_le_nat_alt)
  have pos: "0 < sint (memsz ph - filesz ph) \<longleftrightarrow> ?fs < ?ms"
  proof -
    have "uint (memsz ph - filesz ph) = int (?ms - ?fs)" unfolding d [symmetric] by simp
    moreover have "?ms - ?fs < 2147483648" using F(5) p l by linarith
    ultimately show ?thesis unfolding sint_uint by (simp add: signed_take_bit_int_eq_self)
  qed
  have z: "?m x = (if unat ?p + ?fs \<le> unat x \<and> unat x < unat ?p + ?ms then 0 else ?u x)" for x
    using in_range_iff [of "?p + filesz ph" "memsz ph - filesz ph" x] e d pos F(4,5) l
    by (auto simp: ubzero_def word_le_nat_alt)
  have a: "unat (?p + of_nat i) = unat ?p + i" if "i < ?ms" for i
    using add_offset [of ?p ?ms i] that F(5) l by simp
  have at: "?u (?p + of_nat i) = node_cont n (unat (ph_offset ph) + i)" if "i < ?fs" for i
    using uput_at [of ?b i m ?p] that unat_bound [of "filesz ph"] by simp
  have out: "?u x = m x" if "\<not> in_segment ph x" for x
    by (rule uput_other) (use that a F(4) True in \<open>force simp: in_segment_def word_le_nat_alt\<close>)
  have "load_segment ioapic lapic n ph m = Inr ?m"
    using True F(2,3) np not_above_max by (simp add: load_segment_def Let_def r)
  moreover have "seg_loaded n ?m ph" using a at F(4) by (simp add: seg_loaded_def z)
  moreover have "?m x = m x" if "\<not> in_segment ph x" for x
    using out [OF that] that True by (auto simp: z in_segment_def word_le_nat_alt)
  ultimately show ?thesis by blast
qed

lemma seg_loaded_keep:
  assumes "seg_loaded n m ph" "unat (vaddr ph) + unat (memsz ph) \<le> 2 ^ 32"
    and "\<And>x. in_segment ph x \<Longrightarrow> m' x = m x"
  shows "seg_loaded n m' ph"
  unfolding seg_loaded_def
proof (intro impI allI)
  fix i assume t: "ph_type ph = 1" and i: "i < unat (memsz ph)"
  have "unat (vaddr ph + of_nat i) = unat (vaddr ph) + i" by (rule add_offset [OF assms(2) i])
  then have "in_segment ph (vaddr ph + of_nat i)" using t i by (simp add: in_segment_def word_le_nat_alt)
  then show "m' (vaddr ph + of_nat i) = (if i < unat (filesz ph) then node_cont n (unat (ph_offset ph) + i) else 0)"
    using assms(1,3) t i by (simp add: seg_loaded_def)
qed

lemma apart_segments: "apart a b \<Longrightarrow> in_segment a x \<Longrightarrow> \<not> in_segment b x"
  by (auto simp: apart_def in_segment_def word_le_nat_alt)

definition headers_fit :: "u32 \<Rightarrow> u32 \<Rightarrow> node \<Rightarrow> nat \<Rightarrow> program_header list \<Rightarrow> bool" where
  "headers_fit ioapic lapic n lim phs \<longleftrightarrow> list_all (seg_fits ioapic lapic n lim) phs \<and> sorted_wrt apart phs"

lemma load_loop_ok:
  assumes "node_good n" "lim \<le> 0xf0000000"
    and "\<forall>i < k. unat hoff + i * unat esize + sizeof_ProgramHeader \<le> unat (node_size_in_bytes n)"
    and "headers_fit ioapic lapic n lim (headers_at n (unat hoff) (unat esize) k)"
  shows "\<exists>m'. load_loop k ioapic lapic n hoff esize m = Inr m' \<and>
    list_all (seg_loaded n m') (headers_at n (unat hoff) (unat esize) k) \<and>
    (\<forall>x. list_all (\<lambda>ph. \<not> in_segment ph x) (headers_at n (unat hoff) (unat esize) k) \<longrightarrow> m' x = m x)"
  using assms(3,4)
proof (induction k arbitrary: hoff m)
  case (Suc k)
  let ?ph = "header_at n (unat hoff)" and ?hs = "headers_at n (unat hoff + unat esize) (unat esize) k"
  have F: "seg_fits ioapic lapic n lim ?ph" "headers_fit ioapic lapic n lim ?hs" "list_all (apart ?ph) ?hs"
    using Suc.prems(2) by (simp_all add: headers_fit_def list_all_iff)
  have rd: "node_read n hoff sizeof_ProgramHeader = Inr (map (node_cont n) [unat hoff..<unat hoff + sizeof_ProgramHeader])"
    using Suc.prems(1) by (intro node_read_ok [OF assms(1)]) auto
  obtain m1 where m1: "load_segment ioapic lapic n ?ph m = Inr m1" "seg_loaded n m1 ?ph"
    "\<And>x. \<not> in_segment ?ph x \<Longrightarrow> m1 x = m x"
    using load_segment_ok [OF assms(1) F(1) assms(2), of m] by blast
  have "\<exists>m'. load_loop k ioapic lapic n (hoff + esize) esize m1 = Inr m' \<and>
    list_all (seg_loaded n m') ?hs \<and> (\<forall>x. list_all (\<lambda>ph. \<not> in_segment ph x) ?hs \<longrightarrow> m' x = m1 x)"
  proof (cases k)
    case 0
    then show ?thesis by simp
  next
    case (Suc j)
    have "unat hoff + unat esize + sizeof_ProgramHeader \<le> unat (node_size_in_bytes n)"
      using Suc.prems(1) [rule_format, of 1] Suc by simp
    then have u: "unat (hoff + esize) = unat hoff + unat esize"
      using unat_bound [of "node_size_in_bytes n"] by (subst unat_add_lem [THEN iffD1]) (simp_all add: sizeof_ProgramHeader_def)
    have "\<forall>i < k. unat (hoff + esize) + i * unat esize + sizeof_ProgramHeader \<le> unat (node_size_in_bytes n)"
      using Suc.prems(1) unfolding u by (metis Suc_mono add.assoc mult_Suc)
    then show ?thesis using Suc.IH [of "hoff + esize" m1] F(2) by (simp add: u)
  qed
  then obtain m' where m': "load_loop k ioapic lapic n (hoff + esize) esize m1 = Inr m'" "list_all (seg_loaded n m') ?hs"
    "\<And>x. list_all (\<lambda>ph. \<not> in_segment ph x) ?hs \<Longrightarrow> m' x = m1 x" by blast
  have "m' x = m1 x" if "in_segment ?ph x" for x
    using m'(3) F(3) apart_segments [OF _ that] by (auto simp: list_all_iff)
  moreover have "unat (vaddr ?ph) + unat (memsz ?ph) \<le> 2 ^ 32" if "ph_type ?ph = 1"
    using F(1) that assms(2) by (simp add: seg_fits_def)
  ultimately have "seg_loaded n m' ?ph"
    using seg_loaded_keep [OF m1(2), of m'] by (cases "ph_type ?ph = 1") (simp, simp add: seg_loaded_def)
  then show ?case using m1 m' rd by (simp add: header_at_def [symmetric])
qed simp

section \<open>Executables\<close>

definition elf_header_at :: "node \<Rightarrow> elf_header" where
  "elf_header_at n = elf_header_of (map (node_cont n) [0..<sizeof_ElfHeader])"

definition program_headers :: "node \<Rightarrow> program_header list" where
  "program_headers n =
     (let h = elf_header_at n in headers_at n (unat (phoff h)) (unat (phentsize h)) (unat (phnum h)))"

text \<open>A file that is a valid executable, with its headers in the file and its segments below \<open>lim\<close>.\<close>

definition executable :: "u32 \<Rightarrow> u32 \<Rightarrow> nat \<Rightarrow> node \<Rightarrow> bool" where
  "executable ioapic lapic lim n \<longleftrightarrow>
     node_good n \<and> sizeof_ElfHeader \<le> unat (node_size_in_bytes n) \<and> elf_valid (elf_header_at n) \<and>
     (\<forall>i < unat (phnum (elf_header_at n)).
        unat (phoff (elf_header_at n)) + i * unat (phentsize (elf_header_at n)) + sizeof_ProgramHeader
          \<le> unat (node_size_in_bytes n)) \<and>
     headers_fit ioapic lapic n lim (program_headers n)"

lemma read_elf_header:
  "executable ioapic lapic lim n \<Longrightarrow> node_read n 0 sizeof_ElfHeader = Inr (map (node_cont n) [0..<sizeof_ElfHeader])"
  using node_read_ok [of n 0 sizeof_ElfHeader] by (simp add: executable_def)

lemma load_ok:
  assumes e: "executable ioapic lapic lim n" and l: "lim \<le> 0xf0000000"
  obtains m' where "load ioapic lapic (Some n) m = Inr (elf_entry (elf_header_at n), m')"
    "list_all (seg_loaded n m') (program_headers n)"
    "\<And>x. list_all (\<lambda>ph. \<not> in_segment ph x) (program_headers n) \<Longrightarrow> m' x = m x"
proof -
  let ?h = "elf_header_at n"
  have u: "unat (ucast (phentsize ?h) :: u32) = unat (phentsize ?h)" 
    using unsigned_less [of "phentsize ?h", where 'a = nat] by (simp add: unsigned_ucast_eq take_bit_nat_eq_self)
  have "node_good n" "elf_valid ?h" using e by (simp_all add: executable_def)
  moreover obtain m' where "load_loop (unat (phnum ?h)) ioapic lapic n (phoff ?h) (ucast (phentsize ?h)) m = Inr m'"
    "list_all (seg_loaded n m') (program_headers n)"
    "\<And>x. list_all (\<lambda>ph. \<not> in_segment ph x) (program_headers n) \<Longrightarrow> m' x = m x"
    using load_loop_ok [of n lim "unat (phnum ?h)" "phoff ?h" "ucast (phentsize ?h)" ioapic lapic m] e l
    by (auto simp: executable_def program_headers_def u Let_def)
  ultimately show thesis
    using that [of m'] read_elf_header [OF e] by (simp add: load_def Let_def elf_header_at_def)
qed

lemma cstring_no_nul: "cstring m a = Some b \<Longrightarrow> 0 \<notin> set b"
  by (erule cstring.raw_induct [where P = "\<lambda>m a b. 0 \<notin> set b", rotated])
    (auto simp: bind_eq_Some_conv split: if_splits)

lemma ustrings_no_nul: "ustrings m ps = Inr bs \<Longrightarrow> \<forall>b \<in> set bs. 0 \<notin> set b"
proof (induction ps arbitrary: bs)
  case (Cons p ps)
  then show ?case by (auto simp: bindR_eq_Inr ustring_def dest: cstring_no_nul split: option.splits)
qed simp

section \<open>Property\<close>

text \<open>
  C32. \<^verbatim>\<open>exec\<close> enters the program of the file. For an executable with its segments apart from each
  other, in the private half and below 0xE0000000, and arguments that fit above, it enters user mode
  at the entry point with every loadable segment in memory, the bytes of the file followed by zeros,
  and the arguments where the program looks for them, on an aligned stack. The old private pages
  are unmapped, the rest of the private half reads as zeros, and no other memory is written.
\<close>

theorem exec_enters_program:
  assumes pr: "the_process s = Inr pr"
    and vm: "vheld start T (k_vm (kern s)) A" "aspace (k_vm (kern s)) A (pd pr)" "vmm.cr3 (k_vm (kern s)) = pd pr"
    and name: "ustring (umem s) path = Inr name"
    and found: "ext2_find (root_fs s) (ext2.root (root_fs s)) name = Inr (Some n)" "is_file (nd_data n)"
    and args: "ustrings (umem s) argv = Inr args" "totalLen args + 4 * length args + 16 \<le> 0xfffe000"
    and exe: "executable (ioAPIC (kConfig (k_vm (kern s)))) (localAPIC (kConfig (k_vm (kern s)))) 0xE0000000 n"
  shows "\<exists>sp v m. exec path argv s =
      Inr (EntersUser (elf_entry (elf_header_at n)) sp, s\<lparr>kern := (kern s)\<lparr>k_vm := v\<rparr>, umem := m\<rparr>) \<and>
    list_all (seg_loaded n m) (program_headers n) \<and>
    reads_args m sp args \<and> unat sp mod 4 = 0 \<and> 0xE0000000 \<le> sp \<and> sp < 0xefffe000 \<and>
    (\<forall>x. list_all (\<lambda>ph. \<not> in_segment ph x) (program_headers n) \<and> (x < sp \<or> 0xefffe000 \<le> x) \<longrightarrow>
       m x = (if is_special (k_vm (kern s)) (framedown x) then umem s x else 0)) \<and>
    (\<forall>va. lookup v (pd pr) va =
       (if 512 \<le> pdi_of va \<and> \<not> is_special (k_vm (kern s)) (framedown va) then None else lookup (k_vm (kern s)) (pd pr) va))"
proof -
  let ?v = "k_vm (kern s)" let ?io = "ioAPIC (kConfig ?v)" and ?la = "localAPIC (kConfig ?v)"
  obtain v where v: "delete_private ?v (pd pr) = Inr v" "rows_cleared start T A (pd pr) ?v 1024 v"
    using delete_private_ok [OF vm] by blast
  obtain sp m1 where st: "exec_stack args (Sys.cleared ?v (umem s)) = (sp, m1)"
    by (cases "exec_stack args (Sys.cleared ?v (umem s))") auto
  obtain m where ld: "load ?io ?la (Some n) m1 = Inr (elf_entry (elf_header_at n), m)"
    "list_all (seg_loaded n m) (program_headers n)"
    "\<And>x. list_all (\<lambda>ph. \<not> in_segment ph x) (program_headers n) \<Longrightarrow> m x = m1 x"
    by (rule load_ok [OF exe, of m1]) (simp, rule that)
  have low: "list_all (\<lambda>ph. \<not> in_segment ph x) (program_headers n)" if "0xE0000000 \<le> x" for x
    using exe that by (force simp: executable_def headers_fit_def seg_fits_def in_segment_def list_all_iff word_le_nat_alt)
  have fit: "totalLen args + 4 * length args + 16 \<le> 0x6fffe000" using args(2) by simp
  note R = exec_reads [OF ustrings_no_nul [OF args(1)] fit st]
  have sp: "0xE0000000 \<le> unat sp" "unat sp < 0xefffe000" using R(4,5) [OF same_refl(1)] args(2) by linarith+
  have "same_from sp m1 m" unfolding same_from_def
    using low ld(3) sp(1) by (auto simp: word_le_nat_alt)
  note R' = R(1,2) [OF this] R(6,7) [OF same_refl(1)]
  have "exec path argv s = Inr (EntersUser (elf_entry (elf_header_at n)) sp, s\<lparr>kern := (kern s)\<lparr>k_vm := v\<rparr>, umem := m\<rparr>)"
    using pr name found args(1) read_elf_header [OF exe] exe ld(1) v(1)
    by (simp add: exec_def clear_private_def st Let_def executable_def elf_header_at_def)
  moreover have "m x = (if is_special ?v (framedown x) then umem s x else 0)"
    if "list_all (\<lambda>ph. \<not> in_segment ph x) (program_headers n) \<and> (x < sp \<or> 0xefffe000 \<le> x)" for x
    using ld(3) [of x] that R'(3,4) by (auto simp: same_from_def same_below_def Sys.cleared_def)
  moreover have "\<forall>va. lookup v (pd pr) va =
       (if 512 \<le> pdi_of va \<and> \<not> is_special ?v (framedown va) then None else lookup ?v (pd pr) va)"
    using v(2) by (simp add: rows_cleared_def)
  ultimately show ?thesis
    using ld(2) R'(1,2) sp by (intro exI [of _ sp] exI [of _ v] exI [of _ m]) (simp add: word_le_nat_alt word_less_nat_alt)
qed

text \<open>A program of 88 bytes: the header, one program header, and four bytes of code that loop.\<close>

definition demo_elf :: bytes where
  "demo_elf = [0x7f, 69, 76, 70, 1, 1, 1, 0, 0, 0, 0, 0, 0, 0, 0, 0, 2, 0, 3, 0, 1, 0,
     0, 0, 0, 0, 0, 0x80, 52, 0, 0, 0, 0, 0, 0, 0, 0, 0, 0, 0, 52, 0, 32, 0,
     1, 0, 0, 0, 0, 0, 0, 0, 1, 0, 0, 0, 84, 0, 0, 0, 0, 0, 0, 0x80, 0, 0,
     0, 0, 4, 0, 0, 0, 8, 0, 0, 0, 0, 0, 0, 0, 0, 0, 0, 0, 0xeb, 0xfe, 0x90, 0x90]"

definition demo_exe :: node where
  "demo_exe = (demo_node demo_elf 88)\<lparr>nd_data := (nd_data (demo_node demo_elf 88))\<lparr>mode := 0x8000\<rparr>\<rparr>"

text \<open>The mode says nothing about the contents.\<close>

lemma mode_update:
  fixes n x defines "n' \<equiv> n\<lparr>nd_data := (nd_data n)\<lparr>mode := x\<rparr>\<rparr>"
  shows "node_good n' \<longleftrightarrow> node_good n" "node_cont n' = node_cont n" "node_size_in_bytes n' = node_size_in_bytes n"
proof -
  have f: "file_block n' = file_block n" "tables_on_disk n' = tables_on_disk n"
    by (simp_all add: fun_eq_iff n'_def file_block_def tables_on_disk_def Let_def)
  show s: "node_size_in_bytes n' = node_size_in_bytes n" by (simp add: n'_def node_size_in_bytes_def)
  show "node_cont n' = node_cont n" unfolding node_cont_def f by (simp add: n'_def)
  show "node_good n' \<longleftrightarrow> node_good n" unfolding node_good_def node_shape_def f s by (simp add: n'_def)
qed

lemma demo_exe_good: "node_good demo_exe"
  using demo_node_good [of 88 demo_elf] by (simp add: demo_exe_def mode_update)

lemma demo_elf_length: "length demo_elf = 88"
  by (simp add: demo_elf_def)

lemma demo_exe_cont: "k < 88 \<Longrightarrow> node_cont demo_exe k = demo_elf ! k"
  using demo_node_cont [of k demo_elf 88] by (simp add: demo_exe_def mode_update demo_elf_length)

lemma demo_exe_part: "n + k \<le> 88 \<Longrightarrow> map (node_cont demo_exe) [n..<n + k] = take k (drop n demo_elf)"
  by (intro nth_equalityI) (simp_all add: demo_exe_cont demo_elf_length)

lemma demo_exe_header: "elf_header_at demo_exe = elf_header_of (take 52 demo_elf)"
  using demo_exe_part [of 0 52] by (simp add: elf_header_at_def sizeof_ElfHeader_def)

lemma demo_elf_fields:
  "elf_valid (elf_header_of (take 52 demo_elf))" "phnum (elf_header_of (take 52 demo_elf)) = 1"
  "phoff (elf_header_of (take 52 demo_elf)) = 52" "phentsize (elf_header_of (take 52 demo_elf)) = 32"
  "elf_entry (elf_header_of (take 52 demo_elf)) = 0x80000000"
  "program_header_of (take 32 (drop 52 demo_elf)) = \<lparr>ph_type = 1, ph_offset = 84, vaddr = 0x80000000, paddr = 0,
     filesz = 4, memsz = 8, ph_flags = 0, ph_align = 0\<rparr>"
  by code_simp+

lemma demo_exe_headers: "program_headers demo_exe = [\<lparr>ph_type = 1, ph_offset = 84, vaddr = 0x80000000, paddr = 0,
     filesz = 4, memsz = 8, ph_flags = 0, ph_align = 0\<rparr>]"
  using demo_exe_part [of 52 32] demo_elf_fields
  by (simp add: program_headers_def Let_def demo_exe_header header_at_def sizeof_ProgramHeader_def)

lemma demo_exe_executable: "executable 0xFEC00000 0xFEE00000 0xE0000000 demo_exe"
proof -
  have "unat (node_size_in_bytes demo_exe) = 88" by (simp add: demo_exe_def demo_node_def node_size_in_bytes_def)
  then show ?thesis unfolding executable_def
    by (simp add: demo_exe_good demo_exe_header demo_elf_fields demo_exe_headers headers_fit_def seg_fits_def
        sizeof_ElfHeader_def sizeof_ProgramHeader_def)
qed

definition demo_exec :: sys where
  "demo_exec = demo_sys\<lparr>kern := demo_kernel\<lparr>k_vm := ex_vmm,
      procs := [2 \<mapsto> (the (procs demo_kernel 2))\<lparr>pd := 0x100000\<rparr>]\<rparr>,
    umem := (\<lambda>a. if a = 0x90000000 then 0x2F else 0), root_fs := (root_fs demo_sys)\<lparr>root := Some demo_exe\<rparr>\<rparr>"

theorem exec_enters_program_witness:
  "\<exists>sp s'. exec 0x90000000 [0x90000000] demo_exec = Inr (EntersUser 0x80000000 sp, s') \<and>
    umem s' 0x80000001 = 0xFE \<and> umem s' 0x80000004 = 0 \<and>
    cstring (umem s') (uword (umem s') (uword (umem s') (sp + 4))) = Some [0x2F]"
proof -
  let ?pr = "(the (procs demo_kernel 2))\<lparr>pd := 0x100000\<rparr>"
  have k: "k_vm (kern demo_exec) = ex_vmm" by (simp add: demo_exec_def)
  have pr: "the_process demo_exec = Inr ?pr" "pd ?pr = 0x100000"
    by (simp_all add: the_process_def demo_exec_def demo_sys_def)
  have "cstring (umem demo_exec) 0x90000000 = Some [0x2F]"
    by (subst cstring.simps, subst cstring.simps) (simp add: demo_exec_def)
  then have name: "ustring (umem demo_exec) 0x90000000 = Inr [0x2F]" by (simp add: ustring_def)
  then have args: "ustrings (umem demo_exec) [0x90000000] = Inr [[0x2F]]" by simp
  have found: "ext2_find (root_fs demo_exec) (ext2.root (root_fs demo_exec)) [0x2F] = Inr (Some demo_exe)"
    by (subst ext2_find.simps) (simp add: demo_exec_def slash_def)
  have isf: "is_file (nd_data demo_exe)" by (simp add: demo_exe_def is_file_def get_type_def)
  obtain sp v m where E: "exec 0x90000000 [0x90000000] demo_exec = Inr (EntersUser 0x80000000 sp,
      demo_exec\<lparr>kern := (kern demo_exec)\<lparr>k_vm := v\<rparr>, umem := m\<rparr>)"
    "list_all (seg_loaded demo_exe m) (program_headers demo_exe)" "reads_args m sp [[0x2F]]"
    using exec_enters_program [where s = demo_exec and pr = ?pr and start = "0x100000" and T = 256 and A = "{0x100000}" and path = "0x90000000"
        and name = "[0x2F]" and n = demo_exe and argv = "[0x90000000]" and args = "[[0x2F]]"]
      pr(1)
      ex_held ex_aspace ex_sel name found isf args demo_exe_executable
    by (auto simp: k pr(2) ex_conf_def totalLen_def demo_exe_header demo_elf_fields)
  have L: "\<forall>i < 8. m (0x80000000 + of_nat i) = (if i < 4 then node_cont demo_exe (84 + i) else 0)"
    using E(2) by (simp add: demo_exe_headers seg_loaded_def)
  have "m 0x80000001 = 0xFE" "m 0x80000004 = 0"
    using L [rule_format, of 1] L [rule_format, of 4] by (simp_all add: demo_exe_cont demo_elf_def)
  moreover have "cstring m (uword m (uword m (sp + 4))) = Some [0x2F]"
    using E(3) by (simp add: reads_args_def Let_def)
  ultimately show ?thesis using E(1) by simp
qed

end
