(* ===== verification/Audio_Play.thy ===== *)
theory Audio_Play
  imports Audio
begin

text \<open>
  What the sound card is given to play: the samples of the WAV file, in order and without gaps,
  whatever their number.
\<close>

section \<open>Reading a piece of the file\<close>

lemma file_read_piece:
  assumes "file_ok (OpenFileStruct n off)" "unat off + unat k \<le> unat (node_size_in_bytes n)"
  shows "file_read (OpenFileStruct n off) k con =
      Inr (int (unat k), map (node_cont n) [unat off..<unat off + unat k], OpenFileStruct n (off + k), con)"
    and "file_ok (OpenFileStruct n (off + k))" "unat (off + k) = unat off + unat k"
proof -
  have m: "min (unat k) (unat (node_size_in_bytes n) - unat off) = unat k" using assms(2) by simp
  show r: "file_read (OpenFileStruct n off) k con =
      Inr (int (unat k), map (node_cont n) [unat off..<unat off + unat k], OpenFileStruct n (off + k), con)" for con
    unfolding file_read_ok [OF assms(1)] m by (simp add: Let_def)
  show "file_ok (OpenFileStruct n (off + k))" using file_read_keeps [OF assms(1) r] .
  have "unat (node_size_in_bytes n) < 2 ^ 32" using unat_bound [of "node_size_in_bytes n"] by simp
  then show "unat (off + k) = unat off + unat k"
    using assms(2) by (subst unat_add_lem [THEN iffD1]) auto
qed

section \<open>Filling the buffers\<close>

definition bufs_ok :: "audio \<Rightarrow> bool" where
  "bufs_ok a \<longleftrightarrow> length (audio_buffers a) = NUM_BUFFERS \<and>
     (\<forall>d \<in> set (audio_buffers a). length (snd d) = unat BUFFER_SIZE)"

lemma buffer_size [simp]: "unat BUFFER_SIZE = 131070" "NUM_BUFFERS = 32"
  by (simp_all add: BUFFER_SIZE_def NUM_BUFFERS_def)

definition samples :: "(u16 \<times> bytes) list \<Rightarrow> bytes" where
  "samples ds = concat (map snd ds)"

lemma samples_length:
  "\<forall>d \<in> set ds. length (snd d) = 131070 \<Longrightarrow> length (samples ds) = 131070 * length ds"
  unfolding samples_def by (induction ds) auto

lemma bufs_update:
  assumes "bufs_ok a" "length b = 131070"
  shows "bufs_ok (a\<lparr>audio_buffers := (audio_buffers a)[i := (l, b)]\<rparr>)"
  using assms set_update_subset_insert [of "audio_buffers a" i "(l, b)"] by (fastforce simp: bufs_ok_def)

lemma fill_step:
  assumes f: "file_ok (OpenFileStruct n off)" and b: "bufs_ok a" and i: "i < 32"
    and r: "unat off + 131070 \<le> unat (node_size_in_bytes n)"
  shows "fill_one i (OpenFileStruct n off, con, a, ds, ts) =
      Inr (OpenFileStruct n (off + BUFFER_SIZE), con,
        a\<lparr>audio_buffers := (audio_buffers a)[i := (0xFFFE, map (node_cont n) [unat off..<unat off + 131070])]\<rparr>,
        ds - BUFFER_SIZE, ts - 0xFFFF)"
proof -
  have "unat off + unat BUFFER_SIZE \<le> unat (node_size_in_bytes n)" using r by simp
  note R = file_read_piece [OF f this]
  have "length (snd (audio_buffers a ! i)) = 131070" using b i by (simp add: bufs_ok_def)
  then show ?thesis by (simp add: fill_one_def R(1) Let_def del: file_read.simps)
qed

text \<open>After \<open>k\<close> rounds the first \<open>k\<close> buffers hold the next bytes of the file.\<close>

definition filled :: "node \<Rightarrow> u32 \<Rightarrow> audio \<Rightarrow> u32 \<Rightarrow> nat \<Rightarrow> kfile \<times> console \<times> audio \<times> u32 \<times> u32 \<Rightarrow> bool" where
  "filled n off a ds k = (\<lambda>(f, con, a', ds', ts').
     \<exists>bs. f = OpenFileStruct n (off + of_nat k * BUFFER_SIZE) \<and> file_ok f \<and>
       unat (off + of_nat k * BUFFER_SIZE) = unat off + k * 131070 \<and>
       a' = a\<lparr>audio_buffers := bs\<rparr> \<and> bufs_ok a' \<and> ds' = ds - of_nat k * BUFFER_SIZE \<and>
       samples (take k bs) = map (node_cont n) [unat off..<unat off + k * 131070])"

lemma fill_loop:
  assumes f: "file_ok (OpenFileStruct n off)" and b: "bufs_ok a" and k: "k \<le> 32"
    and r: "unat off + k * 131070 \<le> unat (node_size_in_bytes n)"
  shows "\<exists>s. foldM fill_one [0..<k] (OpenFileStruct n off, con, a, ds, ts) = Inr s \<and>
    filled n off a ds k s \<and> fst (snd s) = con"
proof (rule foldM_upt_inv [where P = "\<lambda>i s. filled n off a ds i s \<and> fst (snd s) = con"])
    show "filled n off a ds 0 (OpenFileStruct n off, con, a, ds, ts) \<and>
      fst (snd (OpenFileStruct n off, con, a, ds, ts)) = con"
      using f b by (auto simp: filled_def samples_def intro!: exI [of _ "audio_buffers a"])
    fix i s assume i: "i < k" and F: "filled n off a ds i s \<and> fst (snd s) = con"
    obtain fl cn a' ds' ts' where s: "s = (fl, cn, a', ds', ts')" by (cases s)
    let ?o = "off + of_nat i * BUFFER_SIZE"
    obtain bs where I: "fl = OpenFileStruct n ?o" "file_ok (OpenFileStruct n ?o)"
      "unat ?o = unat off + i * 131070" "a' = a\<lparr>audio_buffers := bs\<rparr>" "bufs_ok a'" "ds' = ds - of_nat i * BUFFER_SIZE"
      "samples (take i bs) = map (node_cont n) [unat off..<unat off + i * 131070]" "cn = con"
      using F by (auto simp: filled_def s)
    have le: "Suc i * 131070 \<le> k * 131070" using i by (intro mult_le_mono1) simp
    have fit: "unat ?o + 131070 \<le> unat (node_size_in_bytes n)" using le r unfolding I(3) by simp
    have i32: "i < 32" using i k by simp
    let ?b = "map (node_cont n) [unat ?o..<unat ?o + 131070]"
    have step: "fill_one i s = Inr (OpenFileStruct n (?o + BUFFER_SIZE), con,
        a'\<lparr>audio_buffers := (audio_buffers a')[i := (0xFFFE, ?b)]\<rparr>, ds' - BUFFER_SIZE, ts' - 0xFFFF)"
      unfolding s I(1,8) by (rule fill_step [OF I(2,5) i32 fit])
    have R: "file_ok (OpenFileStruct n (?o + BUFFER_SIZE))" "unat (?o + BUFFER_SIZE) = unat ?o + 131070"
      using file_read_piece(2,3) [OF I(2), of BUFFER_SIZE] fit by simp_all
    have o: "off + of_nat (Suc i) * BUFFER_SIZE = ?o + BUFFER_SIZE" by (simp add: algebra_simps)
    have d: "ds - of_nat (Suc i) * BUFFER_SIZE = ds' - BUFFER_SIZE" unfolding I(6) by (simp add: algebra_simps)
    have bl: "length bs = 32" using I(4,5) by (simp add: bufs_ok_def)
    have "samples (take (Suc i) (bs[i := (0xFFFE, ?b)])) = samples (take i bs) @ ?b"
      using bl i32 by (simp add: take_Suc_conv_app_nth samples_def)
    also have "\<dots> = map (node_cont n) ([unat off..<unat off + i * 131070] @ [unat ?o..<unat ?o + 131070])"
      unfolding I(7) by simp
    also have "[unat off..<unat off + i * 131070] @ [unat ?o..<unat ?o + 131070] = [unat off..<unat off + Suc i * 131070]"
      unfolding I(3) using upt_add_eq_append [of "unat off" "unat off + i * 131070" 131070] by (simp add: ac_simps)
    finally have sm: "samples (take (Suc i) (bs[i := (0xFFFE, ?b)])) =
        map (node_cont n) [unat off..<unat off + Suc i * 131070]" .
    have "bufs_ok (a'\<lparr>audio_buffers := (audio_buffers a')[i := (0xFFFE, ?b)]\<rparr>)"
      by (rule bufs_update [OF I(5)]) simp
    then have "filled n off a ds (Suc i) (OpenFileStruct n (?o + BUFFER_SIZE), con,
        a'\<lparr>audio_buffers := (audio_buffers a')[i := (0xFFFE, ?b)]\<rparr>, ds' - BUFFER_SIZE, ts' - 0xFFFF)"
      unfolding filled_def o d using R sm I(3,4)
      by (auto intro!: exI [of _ "bs[i := (0xFFFE, ?b)]"])
    then show "\<exists>s'. fill_one i s = Inr s' \<and> filled n off a ds (Suc i) s' \<and> fst (snd s') = con"
      using step by auto
qed simp

lemma fill_loopE:
  assumes "file_ok (OpenFileStruct n off)" "bufs_ok a" "k \<le> 32" "unat off + k * 131070 \<le> unat (node_size_in_bytes n)"
  obtains bs ts' where
    "foldM fill_one [0..<k] (OpenFileStruct n off, con, a, ds, ts) =
       Inr (OpenFileStruct n (off + of_nat k * BUFFER_SIZE), con, a\<lparr>audio_buffers := bs\<rparr>, ds - of_nat k * BUFFER_SIZE, ts')"
    "file_ok (OpenFileStruct n (off + of_nat k * BUFFER_SIZE))"
    "unat (off + of_nat k * BUFFER_SIZE) = unat off + k * 131070"
    "bufs_ok (a\<lparr>audio_buffers := bs\<rparr>)" "length bs = 32"
    "samples (take k bs) = map (node_cont n) [unat off..<unat off + k * 131070]"
proof -
  obtain s where L: "foldM fill_one [0..<k] (OpenFileStruct n off, con, a, ds, ts) = Inr s"
    and F: "filled n off a ds k s" and c: "fst (snd s) = con"
    using fill_loop [OF assms, of con ds ts] by (elim exE conjE) (rule that)
  obtain fl cn a' ds' ts' where s: "s = (fl, cn, a', ds', ts')" by (cases s)
  obtain bs where I: "fl = OpenFileStruct n (off + of_nat k * BUFFER_SIZE)" "file_ok fl"
    "unat (off + of_nat k * BUFFER_SIZE) = unat off + k * 131070"
    "a' = a\<lparr>audio_buffers := bs\<rparr>" "bufs_ok a'" "ds' = ds - of_nat k * BUFFER_SIZE"
    "samples (take k bs) = map (node_cont n) [unat off..<unat off + k * 131070]"
    using F unfolding filled_def s prod.case by (elim exE conjE) (rule that)
  have "length bs = 32" using I(4,5) by (simp add: bufs_ok_def)
  moreover have "cn = con" using c s by simp
  ultimately show ?thesis using that L I unfolding s by blast
qed

text \<open>What \<^verbatim>\<open>fillBuffers\<close> hands over: \<open>m\<close> bytes of the file from \<open>off\<close> on.\<close>

definition handed :: "node \<Rightarrow> u32 \<Rightarrow> nat \<Rightarrow> audio \<Rightarrow> audio \<Rightarrow> bool" where
  "handed n off m a a' \<longleftrightarrow> bufs_ok a' \<and> plays a' = plays a \<and>
     take m (samples (audio_buffers a')) = map (node_cont n) [unat off..<unat off + m]"

lemma fill_keeps [simp]:
  "audio_buffers (out p v a) = audio_buffers a" "plays (out p v a) = plays a"
  "audio_buffers (ac97_set_sample_rate r a) = audio_buffers a" "plays (ac97_set_sample_rate r a) = plays a"
  "bufs_ok (out p v a) = bufs_ok a" "bufs_ok (ac97_set_sample_rate r a) = bufs_ok a"
  by (simp_all add: out_def ac97_set_sample_rate_def Let_def bufs_ok_def)

text \<open>The bytes of a full round.\<close>

definition ROUND :: nat where "ROUND = 32 * 131070"

lemma samples_all: "bufs_ok a \<Longrightarrow> length (samples (audio_buffers a)) = ROUND"
  by (simp add: bufs_ok_def samples_length ROUND_def)

lemma fill_full:
  assumes f: "file_ok (OpenFileStruct n off)" and b: "bufs_ok a"
    and r: "unat off + ROUND \<le> unat (node_size_in_bytes n)"
  shows "\<exists>a'. fillBuffers rate False ds ts (OpenFileStruct n off, con, a) =
      Inr (OpenFileStruct n (off + of_nat ROUND), con, a') \<and> handed n off ROUND a a'"
    and "file_ok (OpenFileStruct n (off + of_nat ROUND))" "unat (off + of_nat ROUND) = unat off + ROUND"
proof -
  let ?a = "out (BAR1 (out (BAR1 a) (buffers_at a) a) + 5) (ucast (ucast (32 :: u32) + -1 :: u8)) (out (BAR1 a) (buffers_at a) a)"
  have k: "(32 :: nat) \<le> 32" "bufs_ok ?a" "unat off + 32 * 131070 \<le> unat (node_size_in_bytes n)"
    using b r by (simp_all add: ROUND_def)
  obtain bs ts' where L: "foldM fill_one [0..<32] (OpenFileStruct n off, con, ?a, ds, ts) =
       Inr (OpenFileStruct n (off + of_nat 32 * BUFFER_SIZE), con, ?a\<lparr>audio_buffers := bs\<rparr>, ds - of_nat 32 * BUFFER_SIZE, ts')"
    and I: "file_ok (OpenFileStruct n (off + of_nat 32 * BUFFER_SIZE))"
    "unat (off + of_nat 32 * BUFFER_SIZE) = unat off + 32 * 131070"
    "bufs_ok (?a\<lparr>audio_buffers := bs\<rparr>)" "length bs = 32"
    "samples (take 32 bs) = map (node_cont n) [unat off..<unat off + 32 * 131070]"
    by (rule fill_loopE [OF f k(2,1,3)])
  have o: "off + of_nat ROUND = off + of_nat 32 * BUFFER_SIZE" by (simp add: BUFFER_SIZE_def ROUND_def)
  have u: "unat (32 :: u32) = 32" by simp
  show "file_ok (OpenFileStruct n (off + of_nat ROUND))" using I(1) unfolding o .
  show "unat (off + of_nat ROUND) = unat off + ROUND" unfolding o unfolding ROUND_def by (rule I(2))
  have "fillBuffers rate False ds ts (OpenFileStruct n off, con, a) =
      Inr (OpenFileStruct n (off + of_nat 32 * BUFFER_SIZE), con,
        out (BAR1 (ac97_set_sample_rate (ucast rate) (?a\<lparr>audio_buffers := bs\<rparr>)) + 0xB) 2
          (ac97_set_sample_rate (ucast rate) (?a\<lparr>audio_buffers := bs\<rparr>)))" (is "_ = Inr (_, _, ?r)")
    unfolding fillBuffers_def Let_def prod.case if_False u L bindR_Inr ..
  moreover have "handed n off ROUND a ?r"
    unfolding handed_def ROUND_def using I(3,4,5) by (simp add: samples_all [OF I(3), unfolded ROUND_def, simplified])
  ultimately show "\<exists>a'. fillBuffers rate False ds ts (OpenFileStruct n off, con, a) =
      Inr (OpenFileStruct n (off + of_nat ROUND), con, a') \<and> handed n off ROUND a a'"
    unfolding o by blast
qed

lemma last_buffer:
  assumes "samples (take k bs) = xs" "k < length bs" "length c \<le> 131070" "length (snd (bs ! k)) = 131070"
  shows "take (length xs + length c) (samples (bs[k := (l, c @ drop (length c) (snd (bs ! k)))])) = xs @ c"
proof -
  have "samples (bs[k := (l, c @ drop (length c) (snd (bs ! k)))]) =
      xs @ c @ drop (length c) (snd (bs ! k)) @ samples (drop (Suc k) bs)"
    using assms(1,2) by (simp add: upd_conv_take_nth_drop samples_def)
  then show ?thesis by simp
qed

lemma fill_rest:
  assumes f: "file_ok (OpenFileStruct n off)" and b: "bufs_ok a"
    and d: "unat ds < ROUND" and r: "unat off + unat ds \<le> unat (node_size_in_bytes n)"
  shows "\<exists>a'. fillBuffers rate True ds ts (OpenFileStruct n off, con, a) =
      Inr (OpenFileStruct n (off + ds), con, a') \<and> handed n off (unat ds) a a'"
proof -
  define k where "k = unat ds div 131070"
  let ?a = "out (BAR1 (out (BAR1 a) (buffers_at a) a) + 5) (ucast (ucast (ds div BUFFER_SIZE) + 0 :: u8)) (out (BAR1 a) (buffers_at a) a)"
  have k: "k \<le> 32" "k < 32" "bufs_ok ?a" "unat (ds div BUFFER_SIZE) = k"
    using b d by (simp_all add: k_def ROUND_def unat_div)
  have kd: "k * 131070 + unat ds mod 131070 = unat ds" unfolding k_def by (rule div_mult_mod_eq)
  have fit: "unat off + k * 131070 \<le> unat (node_size_in_bytes n)" using r kd by linarith
  obtain bs ts' where L: "foldM fill_one [0..<k] (OpenFileStruct n off, con, ?a, ds, ts) =
       Inr (OpenFileStruct n (off + of_nat k * BUFFER_SIZE), con, ?a\<lparr>audio_buffers := bs\<rparr>, ds - of_nat k * BUFFER_SIZE, ts')"
    and I: "file_ok (OpenFileStruct n (off + of_nat k * BUFFER_SIZE))"
    "unat (off + of_nat k * BUFFER_SIZE) = unat off + k * 131070"
    "bufs_ok (?a\<lparr>audio_buffers := bs\<rparr>)" "length bs = 32"
    "samples (take k bs) = map (node_cont n) [unat off..<unat off + k * 131070]"
    by (rule fill_loopE [OF f k(3,1) fit])
  let ?o = "off + of_nat k * BUFFER_SIZE" and ?r = "ds - of_nat k * BUFFER_SIZE"
  have "ds = of_nat (k * 131070 + unat ds mod 131070)" unfolding kd by simp
  then have rw: "?r = of_nat (unat ds mod 131070)" by (simp add: BUFFER_SIZE_def algebra_simps)
  have ur: "unat ?r = unat ds mod 131070" unfolding rw by (simp add: unat_of_nat)
  have fit2: "unat ?o + unat ?r \<le> unat (node_size_in_bytes n)" using r kd unfolding I(2) ur by linarith
  note R = file_read_piece(1) [OF I(1) fit2]
  define c where "c = map (node_cont n) [unat ?o..<unat ?o + unat ?r]"
  define bs' where "bs' = bs[k := (ucast (ts' - 1) :: u16, c @ drop (length c) (snd (bs ! k)))]"
  have lc: "length c = unat ds mod 131070" unfolding c_def ur by simp
  have lb: "length (snd (bs ! k)) = 131070" using I(3,4) k(2) by (simp add: bufs_ok_def)
  have cc: "length c \<le> 131070" unfolding lc by simp
  have B: "bufs_ok (?a\<lparr>audio_buffers := bs'\<rparr>)"
    using bufs_update [OF I(3), of "c @ drop (length c) (snd (bs ! k))" k "ucast (ts' - 1)"] lb cc by (simp add: bs'_def)
  have o: "?o + ?r = off + ds" by simp
  have nl: "\<not> 32 \<le> k" using k(2) by simp
  have ab: "audio_buffers (?a\<lparr>audio_buffers := bs\<rparr>) = bs" by simp
  have fb: "fillBuffers rate True ds ts (OpenFileStruct n off, con, a) =
      Inr (OpenFileStruct n (?o + ?r), con,
        out (BAR1 (ac97_set_sample_rate (ucast rate) (?a\<lparr>audio_buffers := bs'\<rparr>)) + 0xB) 2
          (ac97_set_sample_rate (ucast rate) (?a\<lparr>audio_buffers := bs'\<rparr>)))" (is "_ = Inr (_, _, ?a')")
    unfolding fillBuffers_def Let_def prod.case if_True k(4) L bindR_Inr ab I(4) if_not_P [OF nl] R bs'_def c_def
    by simp
  have "take (length (map (node_cont n) [unat off..<unat off + k * 131070]) + length c) (samples bs') =
      map (node_cont n) [unat off..<unat off + k * 131070] @ c"
    unfolding bs'_def by (rule last_buffer [OF I(5) _ cc lb]) (simp add: I(4) k(2))
  also have "\<dots> = map (node_cont n) ([unat off..<unat off + k * 131070] @ [unat ?o..<unat ?o + unat ?r])"
    unfolding c_def by simp
  also have "[unat off..<unat off + k * 131070] @ [unat ?o..<unat ?o + unat ?r] = [unat off..<unat off + unat ds]"
    unfolding I(2) ur using upt_add_eq_append [of "unat off" "unat off + k * 131070" "unat ds mod 131070"] kd
    by (simp add: add.assoc)
  finally have sm: "take (unat ds) (samples bs') = map (node_cont n) [unat off..<unat off + unat ds]"
    using kd by (simp add: lc)
  have "handed n off (unat ds) a ?a'" unfolding handed_def using B sm by simp
  then show ?thesis using fb unfolding o by blast
qed

section \<open>The rounds\<close>

lemma play_keeps [simp]:
  "plays (play d js a) = plays a @ [audio_buffers a]" "audio_buffers (play d js a) = audio_buffers a"
  "bufs_ok (play d js a) = bufs_ok a"
  by (simp_all add: play_def Let_def bufs_ok_def out_def)

lemma round_word: "unat (32 * 131070 :: u32) = ROUND" "(32 * 131070 :: u32) = of_nat ROUND" "0 < ROUND"
  by (simp_all add: ROUND_def)

text \<open>A round is shorter than the largest word, so its duration is not \<^verbatim>\<open>-1\<close>.\<close>

lemma duration_fits: "unat (d :: u32) \<le> ROUND \<Longrightarrow> d div e \<noteq> -1"
proof
  assume d: "unat d \<le> ROUND" and e: "d div e = -1"
  have "unat (d div e) \<le> unat d" by (simp add: unat_div)
  moreover have "unat (-1 :: u32) = 0xFFFFFFFF" by (simp add: unsigned_minus_1_eq_mask mask_eq_exp_minus_1)
  ultimately show False using d e by (simp add: ROUND_def)
qed

lemma play_loop_end: "play_loop rate eq 0 ts (f, con, a) = Inr (1, f, con, a)"
  by (subst play_loop.simps) simp

text \<open>What the card has been given by a list of rounds.\<close>

definition played :: "(u16 \<times> bytes) list list \<Rightarrow> bytes" where
  "played rs = concat (map samples rs)"

lemma play_rounds:
  assumes "file_ok (OpenFileStruct n off)" "bufs_ok a" "eq \<noteq> 0" "unat off + unat ds \<le> unat (node_size_in_bytes n)"
  shows "\<exists>a' rs. play_loop rate eq ds ts (OpenFileStruct n off, con, a) = Inr (1, OpenFileStruct n (off + ds), con, a') \<and>
      bufs_ok a' \<and> plays a' = plays a @ rs \<and> length rs = (unat ds + (ROUND - 1)) div ROUND \<and>
      take (unat ds) (played rs) = map (node_cont n) [unat off..<unat off + unat ds]"
  using assms
proof (induction "unat ds" arbitrary: ds off ts a rule: less_induct)
  case less
  consider "ds = 0" | "0 < unat ds" "unat ds < ROUND" | "ROUND \<le> unat ds"
    by (metis not_less unat_eq_zero gr0I)
  then show ?case
  proof cases
    case 1
    then show ?thesis using less.prems(2) by (auto simp: play_loop_end played_def round_word ROUND_def)
  next
    case 2
    obtain a' where F: "fillBuffers rate True ds ts (OpenFileStruct n off, con, a) = Inr (OpenFileStruct n (off + ds), con, a')"
      and H: "handed n off (unat ds) a a'"
      using fill_rest [OF less.prems(1,2) 2(2) less.prems(4), of rate ts con] by (elim exE conjE)
    have c: "(0 < ds) = True" "(ds < 32 * 131070) = True"
      using 2 unfolding word_less_nat_alt round_word(1) by simp_all
    have nd: "(ds div eq = -1) = False" using duration_fits [of ds eq] 2(2) by simp
    have e0: "(eq = 0) = False" using less.prems(3) by simp
    have one: "(unat ds + (ROUND - 1)) div ROUND = 1"
      using 2 by (simp add: div_if) linarith
    have L: "play_loop rate eq ds ts (OpenFileStruct n off, con, a) = Inr (1, OpenFileStruct n (off + ds), con,
        play (ds div eq) ((ds mod eq) * 1000 div eq) (out (BAR0 a' + 2) 0 a'))"
      unfolding play_loop.simps [of rate eq ds ts] c if_True F bindR_Inr prod.case Let_def e0 if_False nd play_loop_end ..
    show ?thesis
      by (intro exI [of _ "play (ds div eq) ((ds mod eq) * 1000 div eq) (out (BAR0 a' + 2) 0 a')"]
          exI [of _ "[audio_buffers a']"] conjI L) (use H one in \<open>simp_all add: handed_def played_def\<close>)
  next
    case 3
    let ?R = "of_nat ROUND :: u32"
    have r: "unat off + ROUND \<le> unat (node_size_in_bytes n)" using 3 less.prems(4) by simp
    obtain a1 where F: "fillBuffers rate False ds ts (OpenFileStruct n off, con, a) = Inr (OpenFileStruct n (off + ?R), con, a1)"
      and H: "handed n off ROUND a a1"
      using fill_full(1) [OF less.prems(1,2) r, of rate ds ts con] by (elim exE conjE)
    note N = fill_full(2,3) [OF less.prems(1,2) r]
    have uR: "unat ?R = ROUND" by (simp add: ROUND_def)
    have le: "?R \<le> ds" using 3 uR by (simp add: word_le_nat_alt)
    have ud: "unat (ds - ?R) = unat ds - ROUND" using unat_sub [OF le] uR by simp
    have c: "(0 < ds) = True" "(ds < ?R) = False"
      using 3 round_word(3) unfolding word_less_nat_alt uR by simp_all
    have nd: "(?R div eq = -1) = False" using duration_fits [of ?R eq] unfolding uR by simp
    have e0: "(eq = 0) = False" using less.prems(3) by simp
    let ?a = "play ((32 * 131070) div eq) (((32 * 131070) mod eq) * 1000 div eq) (out (BAR0 a1 + 2) 0 a1)"
    have L: "play_loop rate eq ds ts (OpenFileStruct n off, con, a) =
        play_loop rate eq (ds - ?R) (ts - 0xFFFF * 32) (OpenFileStruct n (off + ?R), con, ?a)"
      unfolding play_loop.simps [of rate eq ds ts] c if_True F bindR_Inr prod.case Let_def e0 if_False nd round_word(2) ..
    have A: "bufs_ok ?a" using H by (simp add: handed_def)
    have fit: "unat (off + ?R) + unat (ds - ?R) \<le> unat (node_size_in_bytes n)" using less.prems(4) N(2) ud 3 by simp
    have less': "unat (ds - ?R) < unat ds" using ud 3 round_word(3) by simp
    obtain a' rs where I: "play_loop rate eq (ds - ?R) (ts - 0xFFFF * 32) (OpenFileStruct n (off + ?R), con, ?a) =
        Inr (1, OpenFileStruct n (off + ?R + (ds - ?R)), con, a')" "bufs_ok a'" "plays a' = plays ?a @ rs"
      "length rs = (unat (ds - ?R) + (ROUND - 1)) div ROUND"
      "take (unat (ds - ?R)) (played rs) = map (node_cont n) [unat (off + ?R)..<unat (off + ?R) + unat (ds - ?R)]"
      using less.hyps [OF less' N(1) A less.prems(3) fit, of "ts - 0xFFFF * 32"] by (elim exE conjE) (rule that)
    have "length (samples (audio_buffers a1)) = ROUND" using H samples_all by (simp add: handed_def)
    then have sm: "take (unat ds) (played (audio_buffers a1 # rs)) = map (node_cont n) [unat off..<unat off + unat ds]"
      using H I(5) 3 upt_add_eq_append [of "unat off" "unat off + ROUND" "unat ds - ROUND"]
      unfolding ud N(2) by (simp add: played_def handed_def add.assoc)
    have "(unat ds + (ROUND - 1)) div ROUND = Suc ((unat ds - ROUND + (ROUND - 1)) div ROUND)"
      using 3 round_word(3) by (simp add: div_if)
    then show ?thesis
      by (intro exI [of _ a'] exI [of _ "audio_buffers a1 # rs"] conjI)
        (use H I(1-4) L sm ud in \<open>simp_all add: handed_def\<close>)
  qed
qed

section \<open>The header\<close>

text \<open>The header area once the first \<open>k\<close> bytes of the file are in it.\<close>

definition header_area :: "node \<Rightarrow> nat \<Rightarrow> bytes \<Rightarrow> bytes" where
  "header_area n k h = map (node_cont n) [0..<k] @ drop k h"

definition header_of :: "node \<Rightarrow> bytes" where
  "header_of n = map (node_cont n) [0..<sizeof_WAVHeader]"

lemma header_area_fields:
  assumes "length h = 44" "k \<le> 44"
  shows "j + l \<le> k \<Longrightarrow> part j l (header_area n k h) = part j l (header_of n)"
    and "j + 4 \<le> k \<Longrightarrow> f32 (header_area n k h) j = f32 (header_of n) j"
    and "header_area n 44 h = header_of n"
proof -
  show "part j l (header_area n k h) = part j l (header_of n)" if "j + l \<le> k"
    using assms that unfolding part_def by (intro nth_equalityI) (auto simp: header_area_def header_of_def sizeof_WAVHeader_def nth_append)
  show "f32 (header_area n k h) j = f32 (header_of n) j" if "j + 4 \<le> k"
    using assms that by (simp add: f32_def le32_def header_area_def header_of_def sizeof_WAVHeader_def nth_append)
  show "header_area n 44 h = header_of n"
    using assms by (simp add: header_area_def header_of_def sizeof_WAVHeader_def)
qed

lemma hdr_step:
  assumes f: "file_ok (OpenFileStruct n 0)" and h: "length h = 44" and k: "k + m \<le> 44" and s: "44 \<le> unat (node_size_in_bytes n)"
  shows "hdr_read k (of_nat m) (header_area n k h, OpenFileStruct n (of_nat k), con) =
    Inr (header_area n (k + m) h, OpenFileStruct n (of_nat (k + m)), con)"
proof -
  have u: "unat (of_nat k :: u32) = k" "unat (of_nat m :: u32) = m" using k by (simp_all add: unat_of_nat)
  have "file_ok (OpenFileStruct n (of_nat k))" using f s u k by (simp add: file_ok_def word_le_nat_alt)
  moreover have "unat (of_nat k :: u32) + unat (of_nat m :: u32) \<le> unat (node_size_in_bytes n)" using u k s by simp
  ultimately have R: "file_read (OpenFileStruct n (of_nat k)) (of_nat m) con =
      Inr (int m, map (node_cont n) [k..<k + m], OpenFileStruct n (of_nat (k + m)), con)"
    using file_read_piece(1) [of n "of_nat k" "of_nat m" con] u by simp
  have "put_bytes k (map (node_cont n) [k..<k + m]) (header_area n k h) = Inr (header_area n (k + m) h)"
    using h k upt_add_eq_append [of 0 k m] by (simp add: put_bytes_def header_area_def add.commute)
  then show ?thesis unfolding hdr_read_def prod.case R bindR_Inr by simp
qed

lemma find_canonical_header:
  assumes f: "file_ok (OpenFileStruct n 0)" and h: "length h = sizeof_WAVHeader" and s: "44 \<le> unat (node_size_in_bytes n)"
    and H: "hdr_fmt (header_of n) = FMT" "hdr_fmt_length (header_of n) = 16" "hdr_data (header_of n) = DATA"
  shows "findWavHDR (Suc fuel) (h, OpenFileStruct n 0, con) = Inr (header_of n, OpenFileStruct n 44, con)"
proof -
  have l: "length h = 44" using h by (simp add: sizeof_WAVHeader_def)
  note step = hdr_step [OF f l _ s, of _ _ con]
  note F = header_area_fields [OF l]
  have s1: "hdr_read 0 16 (h, OpenFileStruct n 0, con) = Inr (header_area n 16 h, OpenFileStruct n 16, con)"
    using step [of 0 16] by (simp add: header_area_def)
  have s2: "hdr_read 16 4 (header_area n 16 h, OpenFileStruct n 16, con) = Inr (header_area n 20 h, OpenFileStruct n 20, con)"
    using step [of 16 4] by simp
  have s3: "hdr_read 20 20 (header_area n 20 h, OpenFileStruct n 20, con) = Inr (header_area n 40 h, OpenFileStruct n 40, con)"
    using step [of 20 20] by simp
  have s4: "hdr_read 40 4 (header_area n 40 h, OpenFileStruct n 40, con) = Inr (header_of n, OpenFileStruct n 44, con)"
    using step [of 40 4] F(3) [of 44] by simp
  have "hdr_fmt (header_area n 16 h) = FMT" "hdr_fmt_length (header_area n 20 h) = 16" "hdr_data (header_area n 40 h) = DATA"
    using H F(1) [of 16 12 4 n] F(2) [of 20 16 n] F(1) [of 40 36 4 n] by (simp_all add: hdr_fmt_def hdr_fmt_length_def hdr_data_def)
  then show ?thesis by (simp add: findWavHDR_def s1 s2 s3 s4)
qed

section \<open>The whole file\<close>

definition canonical_wav :: "node \<Rightarrow> u32 \<Rightarrow> bool" where
  "canonical_wav n sz \<longleftrightarrow> file_ok (OpenFileStruct n 0) \<and> hdr_magic (header_of n) = WAVE \<and> hdr_fmt (header_of n) = FMT \<and>
     hdr_fmt_length (header_of n) = 16 \<and> hdr_data (header_of n) = DATA \<and> hdr_sample_rate_eq (header_of n) \<noteq> 0 \<and>
     hdr_data_size (header_of n) = sz \<and> 44 + unat sz \<le> unat (node_size_in_bytes n)"

lemma wav_played:
  assumes "canonical_wav n sz" "bufs_ok a" "length h = sizeof_WAVHeader"
  shows "\<exists>a' rs. play_audio (Suc fuel) h (OpenFileStruct n 0, con, a) = Inr (1, OpenFileStruct n (44 + sz), con, a') \<and>
    bufs_ok a' \<and> plays a' = plays a @ rs \<and> length rs = (unat sz + (ROUND - 1)) div ROUND \<and>
    take (unat sz) (played rs) = map (node_cont n) [44..<44 + unat sz]"
proof -
  let ?h = "header_of n" and ?ts = "hdr_sample_rate (header_of n) * ucast (hdr_bitsPerSample (header_of n) div 8) div 2"
  have w: "file_ok (OpenFileStruct n 0)" "hdr_magic ?h = WAVE" "hdr_fmt ?h = FMT" "hdr_fmt_length ?h = 16" "hdr_data ?h = DATA"
    "hdr_sample_rate_eq ?h \<noteq> 0" "hdr_data_size ?h = sz" "44 + unat sz \<le> unat (node_size_in_bytes n)"
    using assms(1) by (simp_all add: canonical_wav_def)
  have s: "44 \<le> unat (node_size_in_bytes n)" using w(8) by simp
  have f: "file_ok (OpenFileStruct n 44)" using w(1) s by (simp add: file_ok_def word_le_nat_alt)
  have "play_audio (Suc fuel) h (OpenFileStruct n 0, con, a) =
      play_loop (hdr_sample_rate ?h) (hdr_sample_rate_eq ?h) sz ?ts (OpenFileStruct n 44, con, a)"
    using w(2) find_canonical_header [OF w(1) assms(3) s w(3-5)] by (simp add: play_audio_def Let_def w(7))
  then show ?thesis
    using play_rounds [OF f assms(2) w(6), of sz "hdr_sample_rate ?h" ?ts con] w(8) by auto
qed

text \<open>
  C30. Playing a WAV file whose format and data chunks are where the usual header has them starts
  the card on buffers that hold the bytes of the data chunk, all of them, in order and without a
  gap, in as many rounds of 32 buffers as they need, and leaves the file position behind them.
\<close>

theorem wav_file_is_played:
  assumes "file_ok (OpenFileStruct n 0)" "bufs_ok a" "length h = sizeof_WAVHeader"
    and "hdr_magic (header_of n) = WAVE" "hdr_fmt (header_of n) = FMT" "hdr_fmt_length (header_of n) = 16"
      "hdr_data (header_of n) = DATA" "hdr_sample_rate_eq (header_of n) \<noteq> 0"
    and "hdr_data_size (header_of n) = sz" "44 + unat sz \<le> unat (node_size_in_bytes n)"
  shows "\<exists>a' rs. play_audio (Suc fuel) h (OpenFileStruct n 0, con, a) = Inr (1, OpenFileStruct n (44 + sz), con, a') \<and>
    plays a' = plays a @ rs \<and> length rs = (unat sz + (ROUND - 1)) div ROUND \<and>
    take (unat sz) (played rs) = map (node_cont n) [44..<44 + unat sz]"
  using wav_played [of n sz a h fuel con] assms unfolding canonical_wav_def by blast

text \<open>A file of 48 bytes: the header, and two samples.\<close>

definition demo_wav :: bytes where
  "demo_wav = [0x52, 0x49, 0x46, 0x46, 40, 0, 0, 0] @ WAVE @ FMT @ [16, 0, 0, 0, 1, 0, 1, 0, 0x40, 0x1F, 0, 0, 0x80, 0x3E, 0, 0, 2, 0, 16, 0]
     @ DATA @ [4, 0, 0, 0] @ [1, 2, 3, 4]"

definition silent :: audio where
  "silent = \<lparr>BAR0 = 0, BAR1 = 0, GCR = 0, audio_buffers = replicate 32 (0xFFFE, replicate 131070 0), buffers_at = 0,
     setupBuffers = True, outs = [], jiffies = 0, jiffiesPerSecond = 1000, plays = []\<rparr>"

lemma demo_header: "header_of (demo_node demo_wav 48) = take 44 demo_wav"
  "map (node_cont (demo_node demo_wav 48)) [44..<48] = [1, 2, 3, 4]"
  "file_ok (OpenFileStruct (demo_node demo_wav 48) 0)" "node_size_in_bytes (demo_node demo_wav 48) = 48"
proof -
  have l: "length demo_wav = 48" by (simp add: demo_wav_def WAVE_def FMT_def DATA_def)
  have c: "node_cont (demo_node demo_wav 48) k = demo_wav ! k" if "k < 48" for k
    using demo_node_cont [of k demo_wav 48] that l by simp
  show "header_of (demo_node demo_wav 48) = take 44 demo_wav"
    by (intro nth_equalityI) (simp_all add: header_of_def sizeof_WAVHeader_def l c)
  show "map (node_cont (demo_node demo_wav 48)) [44..<48] = [1, 2, 3, 4]"
    by (simp add: c) (simp add: demo_wav_def WAVE_def FMT_def DATA_def)
  show "node_size_in_bytes (demo_node demo_wav 48) = 48" by (simp add: demo_node_def node_size_in_bytes_def)
  then show "file_ok (OpenFileStruct (demo_node demo_wav 48) 0)"
    using demo_node_good [of 48 demo_wav] by (simp add: file_ok_def)
qed

lemma demo_fields:
  "hdr_magic (header_of (demo_node demo_wav 48)) = WAVE" "hdr_fmt (header_of (demo_node demo_wav 48)) = FMT"
  "hdr_fmt_length (header_of (demo_node demo_wav 48)) = 16" "hdr_data (header_of (demo_node demo_wav 48)) = DATA"
  "hdr_sample_rate_eq (header_of (demo_node demo_wav 48)) \<noteq> 0" "hdr_data_size (header_of (demo_node demo_wav 48)) = 4"
  unfolding demo_header by code_simp+

lemma demo_canonical: "canonical_wav (demo_node demo_wav 48) 4"
  unfolding canonical_wav_def by (simp add: demo_fields demo_header(3,4))

theorem wav_file_is_played_witness:
  "\<exists>a' rs. play_audio 1 (replicate 44 0) (OpenFileStruct (demo_node demo_wav 48) 0, \<lparr>con_in = [], con_out = []\<rparr>, silent) =
      Inr (1, OpenFileStruct (demo_node demo_wav 48) 48, \<lparr>con_in = [], con_out = []\<rparr>, a') \<and>
    plays a' = rs \<and> length rs = 1 \<and> take 4 (played rs) = [1, 2, 3, 4]"
proof -
  let ?n = "demo_node demo_wav 48"
  have b: "bufs_ok silent" "length (replicate 44 (0 :: u8)) = sizeof_WAVHeader"
    by (simp_all add: bufs_ok_def silent_def sizeof_WAVHeader_def)
  have p: "plays silent = []" by (simp add: silent_def)
  have "44 + unat (4 :: u32) \<le> unat (node_size_in_bytes ?n)" unfolding demo_header by simp
  from wav_file_is_played [OF demo_header(3) b(1) b(2) demo_fields this, of 0 "\<lparr>con_in = [], con_out = []\<rparr>"] demo_header(2) p
  show ?thesis by (simp add: ROUND_def)
qed

end
