(* ===== verification/User_Init.thy ===== *)
theory User_Init
  imports Exec Sys_Types Audio_Play Printf
begin

unbundle bit_operations_syntax

text \<open>
  The first user program, \<^verbatim>\<open>src/t0.dir/sbin/init.c\<close>, on top of the kernel: a call of the C library
  puts its arguments on the user stack and enters the handler of system calls. Where the compiler
  and the linker put things is a parameter: the stack pointer at the calls, a byte on the
  stack for \<^verbatim>\<open>putchar\<close>, and the addresses of the two file names.
\<close>

section \<open>Calls\<close>





section \<open>The program\<close>






section \<open>Arguments and strings\<close>


definition same_outside :: "u32 set \<Rightarrow> memory \<Rightarrow> memory \<Rightarrow> bool" where
  "same_outside X m m' \<longleftrightarrow> (\<forall>a. a \<notin> X \<longrightarrow> m' a = m a)"

lemma same_outside_trans [trans]: "same_outside X m m' \<Longrightarrow> same_outside X m' m'' \<Longrightarrow> same_outside X m m''"
  by (simp add: same_outside_def)







section \<open>What the calls do\<close>







text \<open>The three calls leave the process's table of files as it was.\<close>

definition song_state :: "node \<Rightarrow> u32 \<Rightarrow> memory \<Rightarrow> audio \<Rightarrow> sys \<Rightarrow> sys" where
  "song_state n sz m a s = s\<lparr>kern := (kern s)\<lparr>next_obj := next_obj (kern s) + 1,
     file_objs := (file_objs (kern s))(next_obj (kern s) := OpenFileStruct n (44 + sz))\<rparr>, umem := m, card := a\<rparr>"


section \<open>Printing\<close>







section \<open>The program\<close>

lemma song_keeps [simp]:
  "cur (song_state n sz m a s) = cur s" "procs (kern (song_state n sz m a s)) = procs (kern s)"
  "root_fs (song_state n sz m a s) = root_fs s" "umem (song_state n sz m a s) = m" "card (song_state n sz m a s) = a"
  "bad_pointer (song_state n sz m a s) p = bad_pointer s p" "k_con (kern (song_state n sz m a s)) = k_con (kern s)"
  "u < next_obj (kern s) \<Longrightarrow> file_objs (kern (song_state n sz m a s)) u = file_objs (kern s) u"
  "next_obj (kern (song_state n sz m a s)) = next_obj (kern s) + 1"
  by (simp_all add: song_state_def bad_pointer_def)


section \<open>An example\<close>



end
