(* ===== verification/Context.thy ===== *)
theory Context
  imports Prelude
begin

unbundle bit_operations_syntax

text \<open>
  The switch between two threads, instruction by instruction: \<^verbatim>\<open>gheith_contextSwitch\<close> of
  \<^verbatim>\<open>src/kernel/context.s\<close>, the save areas and stacks of \<^verbatim>\<open>threads.h\<close>, and the first frame that
  \<^verbatim>\<open>threads.cc\<close> puts on a new stack. Memory is a function from addresses to words, all of
  them aligned; the save areas and stacks lie in the part that all address spaces map alike, so that
  \<^verbatim>\<open>cr3\<close> does not matter to them. The scheduler's model switches control blocks; this theory says
  that the processor follows.
\<close>

section \<open>The processor\<close>

record cpu =
  eax :: u32
  ebx :: u32
  ecx :: u32
  edx :: u32
  esi :: u32
  edi :: u32
  ebp :: u32
  esp :: u32
  eip :: u32
  eflags :: u32
  cr2 :: u32
  cr3 :: u32
  mem :: "u32 \<Rightarrow> u32"

definition EFLAGS_IF :: u32 where "EFLAGS_IF = 0x200"

definition interrupts_enabled :: "cpu \<Rightarrow> bool" where
  "interrupts_enabled c \<longleftrightarrow> eflags c AND EFLAGS_IF \<noteq> 0"

definition store_word :: "u32 \<Rightarrow> u32 \<Rightarrow> cpu \<Rightarrow> cpu" where
  "store_word a v c = c\<lparr>mem := (mem c)(a := v)\<rparr>"

definition push_word :: "u32 \<Rightarrow> cpu \<Rightarrow> cpu" where
  "push_word v c = store_word (esp c - 4) v (c\<lparr>esp := esp c - 4\<rparr>)"

definition do_popf :: "cpu \<Rightarrow> cpu" where
  "do_popf c = c\<lparr>eflags := mem c (esp c), esp := esp c + 4\<rparr>"

definition do_ret :: "cpu \<Rightarrow> cpu" where
  "do_ret c = c\<lparr>eip := mem c (esp c), esp := esp c + 4\<rparr>"

definition do_cli :: "cpu \<Rightarrow> cpu" where
  "do_cli c = c\<lparr>eflags := eflags c AND NOT EFLAGS_IF\<rparr>"

definition do_sti :: "cpu \<Rightarrow> cpu" where
  "do_sti c = c\<lparr>eflags := eflags c OR EFLAGS_IF\<rparr>"

section \<open>The switch\<close>

text \<open>
  At its entry the return address is on top of the stack, the four arguments above it: the two
  save areas, the handler and its argument. A save area has nine words; the instructions use their
  offsets as numbers.
\<close>

definition save_area :: "u32 \<Rightarrow> u32 list" where
  "save_area a = map (\<lambda>k. a + 4 * of_nat k) [0..<9]"

definition save_source :: "cpu \<Rightarrow> cpu" where
  "save_source c =
     (let c = c\<lparr>eax := mem c (esp c + 4)\<rparr>;
          c = c\<lparr>ecx := mem c (esp c + 8)\<rparr>;
          c = c\<lparr>edx := mem c (esp c + 12)\<rparr>;
          c = push_word (eflags c) c;
          c = store_word (eax c) (ebx c) c;
          c = store_word (eax c + 4) (esp c) c;
          c = store_word (eax c + 8) (ebp c) c;
          c = store_word (eax c + 12) (esi c) c;
          c = store_word (eax c + 16) (edi c) c;
          c = c\<lparr>edi := cr2 c\<rparr>
      in store_word (eax c + 28) (edi c) c)"

definition clear_no_preempt :: "cpu \<Rightarrow> cpu" where
  "clear_no_preempt c =
     (let c = do_cli c;
          c = store_word (eax c + 20) 0 c
      in store_word (ecx c + 20) 0 c)"

definition restore_target :: "cpu \<Rightarrow> cpu" where
  "restore_target c =
     (let c = c\<lparr>eax := esp c\<rparr>;
          c = c\<lparr>edi := mem c (ecx c + 28)\<rparr>;
          c = c\<lparr>cr2 := edi c\<rparr>;
          c = c\<lparr>edi := mem c (ecx c + 32)\<rparr>;
          c = c\<lparr>cr3 := edi c\<rparr>;
          c = c\<lparr>ebx := mem c (ecx c)\<rparr>;
          c = c\<lparr>esp := mem c (ecx c + 4)\<rparr>;
          c = c\<lparr>ebp := mem c (ecx c + 8)\<rparr>;
          c = c\<lparr>esi := mem c (ecx c + 12)\<rparr>
      in c\<lparr>edi := mem c (ecx c + 16)\<rparr>)"

text \<open>
  The handler is code of the callers of \<^verbatim>\<open>block\<close>: a parameter that maps its address and the
  state before the call to the state after it has returned.
\<close>

type_synonym handler = "u32 \<Rightarrow> cpu \<Rightarrow> cpu"

definition call_handler :: "handler \<Rightarrow> cpu \<Rightarrow> cpu" where
  "call_handler call c =
     (let c = push_word (mem c (eax c + 20)) c;
          c = push_word (mem c (eax c + 8)) c;
          c = call (edx c) c
      in c\<lparr>esp := esp c + 8\<rparr>)"

definition gheith_contextSwitch :: "handler \<Rightarrow> cpu \<Rightarrow> cpu" where
  "gheith_contextSwitch call c =
     do_ret (do_popf (call_handler call (restore_target (clear_no_preempt (save_source c)))))"

section \<open>New threads\<close>

definition STACK_WORDS :: u32 where "STACK_WORDS = 8 * 1024 div 4"

text \<open>
  A control block with a stack at \<open>stk\<close>, the save area at \<open>sa\<close>, in the address space \<open>pd\<close>. The word at
  offset 24 points back to the control block.
\<close>

definition TCBWithStack :: "u32 \<Rightarrow> u32 \<Rightarrow> u32 \<Rightarrow> u32 \<Rightarrow> u32 \<Rightarrow> (u32 \<Rightarrow> u32) \<Rightarrow> (u32 \<Rightarrow> u32)" where
  "TCBWithStack tcb sa stk pd entry m =
     (let m = m(sa + 24 := tcb);
          m = m(sa + 32 := pd);
          m = m(stk + 4 * (STACK_WORDS - 2) := 0x200);
          m = m(stk + 4 * (STACK_WORDS - 1) := entry);
          m = m(sa + 20 := 0)
      in m(sa + 4 := stk + 4 * (STACK_WORDS - 2)))"

definition interruptEsp :: "u32 \<Rightarrow> u32" where
  "interruptEsp stk = stk + 4 * 2047"

text \<open>
  Where a new thread starts. Turning paging on again loads the page directory; the work
  of the thread is a parameter.
\<close>

definition entry :: "u32 \<Rightarrow> (cpu \<Rightarrow> cpu) \<Rightarrow> (cpu \<Rightarrow> 'a) \<Rightarrow> cpu \<Rightarrow> 'a" where
  "entry pd doYourThing stop c = stop (doYourThing (do_sti (c\<lparr>cr3 := pd\<rparr>)))"

section \<open>What a switch does\<close>

text \<open>
  A handler keeps to the calling convention: called with interrupts disabled, it gives back the
  stack pointer and the registers its caller may rely on, does not fault, and leaves alone the words in
  \<open>ws\<close>. Its arguments are its own.
\<close>

definition handler_keeps :: "u32 set \<Rightarrow> handler \<Rightarrow> bool" where
  "handler_keeps ws call \<longleftrightarrow> (\<forall>f c. \<not> interrupts_enabled c \<longrightarrow>
     esp (call f c) = esp c \<and> ebx (call f c) = ebx c \<and> ebp (call f c) = ebp c \<and> esi (call f c) = esi c \<and>
     edi (call f c) = edi c \<and> cr2 (call f c) = cr2 c \<and> cr3 (call f c) = cr3 c \<and>
     (\<forall>w \<in> ws. mem (call f c) w = mem c w))"

definition source_area :: "cpu \<Rightarrow> u32" where "source_area c = mem c (esp c + 4)"
definition target_area :: "cpu \<Rightarrow> u32" where "target_area c = mem c (esp c + 8)"

text \<open>What the save area and the top of the stack of a thread hold while it does not run: a context, to be
  resumed.\<close>

record thread_context =
  x_ebx :: u32
  x_ebp :: u32
  x_esi :: u32
  x_edi :: u32
  x_cr2 :: u32
  x_cr3 :: u32
  x_flags :: u32
  x_ip :: u32
  x_sp :: u32

definition suspended :: "(u32 \<Rightarrow> u32) \<Rightarrow> u32 \<Rightarrow> thread_context" where
  "suspended m a = \<lparr>x_ebx = m a, x_ebp = m (a + 8), x_esi = m (a + 12), x_edi = m (a + 16), x_cr2 = m (a + 28),
     x_cr3 = m (a + 32), x_flags = m (m (a + 4)), x_ip = m (m (a + 4) + 4), x_sp = m (a + 4) + 8\<rparr>"

definition running :: "cpu \<Rightarrow> thread_context" where
  "running c = \<lparr>x_ebx = ebx c, x_ebp = ebp c, x_esi = esi c, x_edi = edi c, x_cr2 = cr2 c, x_cr3 = cr3 c,
     x_flags = eflags c, x_ip = eip c, x_sp = esp c\<rparr>"

text \<open>The caller's context when the switch returns to it.\<close>

definition after_switch :: "cpu \<Rightarrow> thread_context" where
  "after_switch c = \<lparr>x_ebx = ebx c, x_ebp = ebp c, x_esi = esi c, x_edi = edi c, x_cr2 = cr2 c,
     x_cr3 = mem c (source_area c + 32), x_flags = eflags c, x_ip = mem c (esp c), x_sp = esp c + 4\<rparr>"

definition switched :: "cpu \<Rightarrow> cpu" where
  "switched c = restore_target (clear_no_preempt (save_source c))"

lemmas switch_defs = save_source_def clear_no_preempt_def restore_target_def push_word_def store_word_def do_cli_def Let_def

lemma switched_mem:
  "mem (switched c) = (let a = source_area c; b = target_area c in
     (mem c)(esp c - 4 := eflags c, a := ebx c, a + 4 := esp c - 4, a + 8 := ebp c, a + 12 := esi c, a + 16 := edi c,
       a + 28 := cr2 c, a + 20 := 0, b + 20 := 0))"
  by (simp add: switched_def switch_defs source_area_def target_area_def)

lemma switched_regs:
  "esp (switched c) = mem (switched c) (target_area c + 4)" "ebx (switched c) = mem (switched c) (target_area c)"
  "ebp (switched c) = mem (switched c) (target_area c + 8)" "esi (switched c) = mem (switched c) (target_area c + 12)"
  "edi (switched c) = mem (switched c) (target_area c + 16)" "cr2 (switched c) = mem (switched c) (target_area c + 28)"
  "cr3 (switched c) = mem (switched c) (target_area c + 32)" "\<not> interrupts_enabled (switched c)"
  by (simp_all add: switched_def switch_defs target_area_def interrupts_enabled_def and.assoc)

text \<open>
  The switch leaves the target where its save area says, and the words the handler keeps as they were
  saved.
\<close>

lemma switch_effect:
  assumes k: "handler_keeps ws call" and t: "mem (switched c) (target_area c + 4) = t"
    and w: "t \<in> ws" "t + 4 \<in> ws"
  shows "running (gheith_contextSwitch call c) = suspended (mem (switched c)) (target_area c)"
    and "x \<in> ws \<Longrightarrow> x \<noteq> t - 4 \<Longrightarrow> x \<noteq> t - 8 \<Longrightarrow> mem (gheith_contextSwitch call c) x = mem (switched c) x"
proof -
  let ?r = "switched c"
  define p where "p = push_word (mem (push_word (mem ?r (eax ?r + 20)) ?r) (eax ?r + 8)) (push_word (mem ?r (eax ?r + 20)) ?r)"
  define h where "h = call (edx p) p"
  have p: "esp p = t - 8" "ebx p = ebx ?r" "ebp p = ebp ?r" "esi p = esi ?r" "edi p = edi ?r" "cr2 p = cr2 ?r" "cr3 p = cr3 ?r"
      "\<not> interrupts_enabled p" "\<And>x. x \<noteq> t - 4 \<Longrightarrow> x \<noteq> t - 8 \<Longrightarrow> mem p x = mem ?r x"
    using switched_regs(1,8) [of c] t by (simp_all add: p_def push_word_def store_word_def interrupts_enabled_def)
  have h: "esp h = t - 8" "ebx h = ebx ?r" "ebp h = ebp ?r" "esi h = esi ?r" "edi h = edi ?r" "cr2 h = cr2 ?r" "cr3 h = cr3 ?r"
      "\<And>x. x \<in> ws \<Longrightarrow> mem h x = mem p x"
    using k [unfolded handler_keeps_def, rule_format, OF p(8), of "edx p"] p by (simp_all add: h_def)
  have d: "gheith_contextSwitch call c = do_ret (do_popf (h\<lparr>esp := esp h + 8\<rparr>))"
    by (simp add: gheith_contextSwitch_def call_handler_def Let_def h_def p_def switched_def push_word_def store_word_def)
  have top: "mem h t = mem ?r t" "mem h (t + 4) = mem ?r (t + 4)"
    using w h(8) p(9) [of t] p(9) [of "t + 4"] by (simp_all add: eq_diff_eq)
  show "running (gheith_contextSwitch call c) = suspended (mem ?r) (target_area c)"
    using h top t by (simp add: d do_ret_def do_popf_def running_def suspended_def switched_regs)
  show "mem (gheith_contextSwitch call c) x = mem ?r x" if "x \<in> ws" "x \<noteq> t - 4" "x \<noteq> t - 8"
    using that h(8) p(9) by (simp add: d do_ret_def do_popf_def)
qed

section \<open>Many threads\<close>

text \<open>
  The words on which the context of a thread depends while it does not run: its save area, less
  \<^verbatim>\<open>no_preempt\<close> and the pointer to its control block, and the two words on top of its stack.
\<close>

definition thread_words :: "u32 \<Rightarrow> u32 \<Rightarrow> u32 set" where
  "thread_words a t = {a, a + 4, a + 8, a + 12, a + 16, a + 28, a + 32, t, t + 4}"

lemma suspended_cong:
  "(\<And>w. w \<in> thread_words a (m (a + 4)) \<Longrightarrow> m' w = m w) \<Longrightarrow> suspended m' a = suspended m a"
  unfolding thread_words_def suspended_def by simp

definition held :: "(u32 \<rightharpoonup> thread_context) \<Rightarrow> u32 set" where
  "held g = (\<Union>b \<in> dom g. thread_words b (x_sp (the (g b)) - 8))"

lemma held_words: "g b = Some x \<Longrightarrow> w \<in> thread_words b (x_sp x - 8) \<Longrightarrow> w \<in> held g"
  unfolding held_def by force

text \<open>
  Each thread owns its save area and its stack, and has room on the stack outside the save area for what
  the switch pushes.
\<close>

definition regions :: "(u32 \<Rightarrow> u32 set) \<Rightarrow> u32 set \<Rightarrow> bool" where
  "regions own ths \<longleftrightarrow> (\<forall>a \<in> ths. set (save_area a) \<subseteq> own a) \<and> (\<forall>a \<in> ths. \<forall>b \<in> ths. a \<noteq> b \<longrightarrow> own a \<inter> own b = {})"

definition stack_at :: "(u32 \<Rightarrow> u32 set) \<Rightarrow> u32 \<Rightarrow> u32 \<Rightarrow> bool" where
  "stack_at own a t \<longleftrightarrow> {t - 8, t - 4, t, t + 4} \<subseteq> own a - set (save_area a)"

text \<open>
  The state: the processor, the thread it runs, and the contexts of the threads that do not run. A
  thread runs any code that leaves the words of the others alone, or calls the switch with its own save
  area, which is noted as the context to come back to.
\<close>

type_synonym threads = "cpu \<times> u32 \<times> (u32 \<rightharpoonup> thread_context)"

inductive switch_to :: "(u32 \<Rightarrow> u32 set) \<Rightarrow> threads \<Rightarrow> u32 \<Rightarrow> threads \<Rightarrow> bool" for own where
  "source_area c = a \<Longrightarrow> target_area c = b \<Longrightarrow> g b \<noteq> None \<Longrightarrow> stack_at own a (esp c - 4) \<Longrightarrow>
   handler_keeps (held (g(a \<mapsto> after_switch c))) call \<Longrightarrow>
   switch_to own (c, a, g) b (gheith_contextSwitch call c, b, g(a \<mapsto> after_switch c, b := None))"

inductive thread_run :: "(u32 \<Rightarrow> u32 set) \<Rightarrow> threads \<Rightarrow> u32 list \<Rightarrow> threads \<Rightarrow> bool" for own where
  run_start: "thread_run own s [] s"
| run_code: "thread_run own s bs (c, a, g) \<Longrightarrow> \<forall>w \<in> held g. mem c' w = mem c w \<Longrightarrow> thread_run own s bs (c', a, g)"
| run_switch: "thread_run own s bs s' \<Longrightarrow> switch_to own s' b s'' \<Longrightarrow> thread_run own s (bs @ [b]) s''"

inductive_cases switch_toE: "switch_to own s b s'"

definition threads_ok :: "(u32 \<Rightarrow> u32 set) \<Rightarrow> u32 set \<Rightarrow> threads \<Rightarrow> bool" where
  "threads_ok own ths = (\<lambda>(c, a, g). a \<in> ths \<and> dom g \<subseteq> ths - {a} \<and>
     (\<forall>b x. g b = Some x \<longrightarrow> suspended (mem c) b = x \<and> stack_at own b (x_sp x - 8)))"

lemma save_area_words: "set (save_area a) = {a, a + 4, a + 8, a + 12, a + 16, a + 20, a + 24, a + 28, a + 32}"
  by (auto simp: save_area_def upt_rec)

lemma thread_words_owned:
  assumes "regions own ths" "a \<in> ths" "stack_at own a t"
  shows "thread_words a t \<subseteq> own a"
  using assms unfolding regions_def stack_at_def save_area_words thread_words_def by auto

lemma code_keeps_threads:
  assumes "threads_ok own ths (c, a, g)" "\<forall>w \<in> held g. mem c' w = mem c w"
  shows "threads_ok own ths (c', a, g)"
proof -
  have "suspended (mem c') b = x" if g: "g b = Some x" for b x
  proof -
    have x: "suspended (mem c) b = x" using assms(1) g by (auto simp: threads_ok_def)
    then have "x_sp x - 8 = mem c (b + 4)" by (auto simp: suspended_def)
    then have "suspended (mem c') b = suspended (mem c) b"
      using assms(2) held_words [of g b x] g by (intro suspended_cong) auto
    then show ?thesis using x by simp
  qed
  then show ?thesis using assms(1) by (auto simp: threads_ok_def)
qed

text \<open>The words the switch itself writes, before and after it changes stacks.\<close>

lemma switched_elsewhere:
  assumes "w \<notin> {esp c - 4, source_area c, source_area c + 4, source_area c + 8, source_area c + 12, source_area c + 16,
      source_area c + 28, source_area c + 20, target_area c + 20}"
  shows "mem (switched c) w = mem c w"
  using assms unfolding switched_mem Let_def by simp

lemma saved_words:
  fixes a b s :: u32
  assumes n: "s \<notin> set (save_area a)" "s + 4 \<notin> set (save_area a)" "b + 20 \<notin> thread_words a s"
    and m': "m' = m(s := f, a := v, a + 4 := s, a + 8 := v8, a + 12 := v12, a + 16 := v16, a + 28 := v28, a + 20 := 0, b + 20 := 0)"
  shows "m' a = v" "m' (a + 4) = s" "m' (a + 8) = v8" "m' (a + 12) = v12" "m' (a + 16) = v16" "m' (a + 28) = v28"
    "m' (a + 32) = m (a + 32)" "m' s = f" "m' (s + 4) = m (s + 4)"
proof -
  have b: "b + 20 \<noteq> a" "b + 20 \<noteq> a + 4" "b + 20 \<noteq> a + 8" "b + 20 \<noteq> a + 12" "b + 20 \<noteq> a + 16" "b + 20 \<noteq> a + 28"
    "b + 20 \<noteq> a + 32" "b + 20 \<noteq> s" "b + 20 \<noteq> s + 4"
    using n(3) by (simp_all only: thread_words_def insert_iff empty_iff not_False_eq_True de_Morgan_disj)
  have s: "s \<noteq> a" "s \<noteq> a + 4" "s \<noteq> a + 8" "s \<noteq> a + 12" "s \<noteq> a + 16" "s \<noteq> a + 20" "s \<noteq> a + 28" "s \<noteq> a + 32"
    "s + 4 \<noteq> a" "s + 4 \<noteq> a + 4" "s + 4 \<noteq> a + 8" "s + 4 \<noteq> a + 12" "s + 4 \<noteq> a + 16" "s + 4 \<noteq> a + 20" "s + 4 \<noteq> a + 28"
    using n(1,2) by (simp_all only: save_area_words insert_iff empty_iff not_False_eq_True de_Morgan_disj)
  have a: "a \<noteq> a + 4" "a \<noteq> a + 8" "a \<noteq> a + 12" "a \<noteq> a + 16" "a \<noteq> a + 28" "a \<noteq> a + 20" "a + 4 \<noteq> a + 8" "a + 4 \<noteq> a + 12"
    "a + 4 \<noteq> a + 16" "a + 4 \<noteq> a + 28" "a + 4 \<noteq> a + 20" "a + 8 \<noteq> a + 12" "a + 8 \<noteq> a + 16" "a + 8 \<noteq> a + 28" "a + 8 \<noteq> a + 20"
    "a + 12 \<noteq> a + 16" "a + 12 \<noteq> a + 28" "a + 12 \<noteq> a + 20" "a + 16 \<noteq> a + 28" "a + 16 \<noteq> a + 20" "a + 28 \<noteq> a + 20"
    "a + 32 \<noteq> a" "a + 32 \<noteq> a + 4" "a + 32 \<noteq> a + 8" "a + 32 \<noteq> a + 12" "a + 32 \<noteq> a + 16" "a + 32 \<noteq> a + 28" "a + 32 \<noteq> a + 20" "s \<noteq> s + 4"
    by simp_all
  show "m' a = v" "m' (a + 4) = s" "m' (a + 8) = v8" "m' (a + 12) = v12" "m' (a + 16) = v16" "m' (a + 28) = v28"
    "m' (a + 32) = m (a + 32)" "m' s = f" "m' (s + 4) = m (s + 4)"
    unfolding m' fun_upd_apply using a a [symmetric] b b [symmetric] s s [symmetric]
    by (simp_all only: if_False if_True refl simp_thms)
qed

lemma switched_source:
  assumes "esp c - 4 \<notin> set (save_area (source_area c))" "esp c \<notin> set (save_area (source_area c))"
    and "target_area c + 20 \<notin> thread_words (source_area c) (esp c - 4)"
  shows "suspended (mem (switched c)) (source_area c) = after_switch c"
proof -
  have s: "esp c - 4 + 4 = esp c" "esp c - 4 + 8 = esp c + 4" by simp_all
  note W = saved_words [OF assms(1) _ assms(3) switched_mem [unfolded Let_def], unfolded s, OF assms(2)]
  show ?thesis unfolding suspended_def after_switch_def W s ..
qed

lemma switch_spares:
  assumes r: "regions own ths" and ok: "threads_ok own ths (c, a, g)" and a: "source_area c = a" "target_area c = b"
    and st: "stack_at own a (esp c - 4)" and b: "g b \<noteq> None" and e: "g e = Some y"
  shows "suspended (mem (switched c)) e = y" "thread_words e (x_sp y - 8) \<inter> own a = {}"
    "mem (switched c) (e + 4) = x_sp y - 8" "thread_words e (x_sp y - 8) \<subseteq> own e"
proof -
  have E: "suspended (mem c) e = y" "stack_at own e (x_sp y - 8)" "a \<in> ths" "b \<in> ths" "e \<in> ths" "a \<noteq> e" "a \<noteq> b"
    using ok b e by (auto simp: threads_ok_def)
  have t: "mem c (e + 4) = x_sp y - 8" using E(1) by (auto simp: suspended_def)
  show W: "thread_words e (x_sp y - 8) \<subseteq> own e" by (rule thread_words_owned [OF r E(5,2)])
  then show D: "thread_words e (x_sp y - 8) \<inter> own a = {}" using r E(3,5,6) unfolding regions_def by blast
  have A: "{esp c - 4, a, a + 4, a + 8, a + 12, a + 16, a + 28, a + 20} \<subseteq> own a"
    using r E(3) st unfolding regions_def stack_at_def save_area_words by auto
  have B: "b + 20 \<notin> thread_words e (x_sp y - 8)"
  proof (cases "e = b")
    case True
    then show ?thesis using E(2) unfolding stack_at_def save_area_words thread_words_def by auto
  next
    case False
    have "b + 20 \<in> own b" using r E(4) unfolding regions_def save_area_words by auto
    then show ?thesis using W r E(4,5) False unfolding regions_def by blast
  qed
  have same: "mem (switched c) w = mem c w" if "w \<in> thread_words e (x_sp y - 8)" for w
    using that A B D by (intro switched_elsewhere) (auto simp: a)
  then show "suspended (mem (switched c)) e = y" using suspended_cong [of e "mem c" "mem (switched c)"] E(1) t by simp
  show "mem (switched c) (e + 4) = x_sp y - 8" using same [of "e + 4"] t by (simp add: thread_words_def)
qed

lemma switch_step:
  assumes r: "regions own ths" and ok: "threads_ok own ths (c, a, g)" and s: "switch_to own (c, a, g) b (d, b', g')"
  shows "g b = Some (running d)" "threads_ok own ths (d, b', g')" "b' = b" "g' = g(a \<mapsto> after_switch c, b := None)"
proof -
  obtain call where S: "source_area c = a" "target_area c = b" "g b \<noteq> None" "stack_at own a (esp c - 4)"
      "handler_keeps (held (g(a \<mapsto> after_switch c))) call" "d = gheith_contextSwitch call c"
    and b': "b' = b" and g': "g' = g(a \<mapsto> after_switch c, b := None)"
    using s by (elim switch_toE) auto
  show "b' = b" "g' = g(a \<mapsto> after_switch c, b := None)" by (rule b', rule g')
  let ?ws = "held (g(a \<mapsto> after_switch c))" and ?m = "mem (switched c)"
  obtain x where x: "g b = Some x" using S(3) by blast
  define t where "t = x_sp x - 8"
  have ab: "a \<in> ths" "b \<in> ths" "a \<noteq> b" "stack_at own b t" using ok x by (auto simp: threads_ok_def t_def)
  note B = switch_spares [OF r ok S(1,2,4,3) x, folded t_def]
  have bw: "t \<in> ?ws" "t + 4 \<in> ?ws"
    using ab(3) x held_words [of "g(a \<mapsto> after_switch c)" b x] by (simp_all add: t_def thread_words_def)
  have mt: "?m (target_area c + 4) = t" using B(3) S(2) by simp
  note D = switch_effect [OF S(5) mt bw, folded S(6)]
  have "running d = x" using D(1) B(1) S(2) by simp
  then show "g b = Some (running d)" using x by simp
  have push: "t - 4 \<in> own b" "t - 8 \<in> own b" using ab(4) by (auto simp: stack_at_def)
  have apart: "e \<in> ths \<Longrightarrow> e \<noteq> b \<Longrightarrow> own e \<inter> own b = {}" for e using r ab(2) by (auto simp: regions_def)
  have keep: "suspended (mem d) e = y"
    if e: "(g(a \<mapsto> after_switch c)) e = Some y" "e \<in> ths" "e \<noteq> b" "suspended ?m e = y" "thread_words e (x_sp y - 8) \<subseteq> own e" for e y
  proof -
    have "?m (e + 4) = x_sp y - 8" using e(4) by (auto simp: suspended_def)
    then have "suspended (mem d) e = suspended ?m e"
      using held_words [where g = "g(a \<mapsto> after_switch c)", OF e(1)] e(5) push apart [OF e(2,3)] by (intro suspended_cong D(2)) auto
    then show ?thesis using e(4) by simp
  qed
  have sp: "x_sp (after_switch c) - 8 = esp c - 4" by (simp add: after_switch_def)
  have aw: "thread_words a (esp c - 4) \<subseteq> own a" by (rule thread_words_owned [OF r ab(1) S(4)])
  have "b + 20 \<in> own b" using r ab(2) unfolding regions_def save_area_words by auto
  then have "b + 20 \<notin> thread_words a (esp c - 4)" using aw apart [OF ab(1,3)] by blast
  then have "suspended ?m a = after_switch c"
    using switched_source [of c] S(1,2,4) by (simp add: stack_at_def)
  then have A: "suspended (mem d) a = after_switch c" using aw ab by (intro keep) (simp_all add: sp)
  have O: "suspended (mem d) e = y" if "g e = Some y" "e \<noteq> a" "e \<noteq> b" for e y
    using that ok switch_spares [OF r ok S(1,2,4,3) that(1)] by (intro keep) (auto simp: threads_ok_def)
  show "threads_ok own ths (d, b', g')"
    unfolding b' g' using ok ab(1-3) A O S(4) by (auto simp: threads_ok_def sp split: if_splits)
qed

lemma thread_run_keeps:
  assumes "thread_run own s bs s'" "regions own ths" "threads_ok own ths s"
  shows "threads_ok own ths s'"
  using assms
proof (induction rule: thread_run.induct)
  case (run_code s bs c a g c')
  then show ?case using code_keeps_threads by blast
next
  case (run_switch s bs s' b s'')
  obtain c a g where s': "s' = (c, a, g)" by (cases s')
  obtain d b' g' where s'': "s'' = (d, b', g')" by (cases s'')
  show ?case using run_switch switch_step(2) [of own ths c a g b d b' g'] unfolding s' s'' by simp
qed

lemma thread_run_waits:
  assumes "thread_run own s bs s'" "regions own ths" "threads_ok own ths s" "snd (snd s) e = Some x" "e \<notin> set bs"
  shows "snd (snd s') e = Some x"
  using assms
proof (induction rule: thread_run.induct)
  case (run_switch s bs s' b s'')
  obtain c a g where s': "s' = (c, a, g)" by (cases s')
  obtain d b' g' where s'': "s'' = (d, b', g')" by (cases s'')
  have ok: "threads_ok own ths (c, a, g)" using thread_run_keeps [OF run_switch.hyps(1) run_switch.prems(1,2)] s' by simp
  have g: "g e = Some x" "e \<noteq> b" using run_switch s' by auto
  then have "e \<noteq> a" using ok by (auto simp: threads_ok_def)
  then show ?case
    using g switch_step(4) [OF run_switch.prems(1) ok run_switch.hyps(2) [unfolded s' s'']] by (simp add: s'')
qed simp_all

text \<open>
  C13. A thread that switches away and is switched back to, after any number of other switches and
  whatever the others run meanwhile, returns from the switch with its registers, stack pointer, flags
  and \<^verbatim>\<open>cr2\<close> as it left them, in the address space of its save area.
\<close>

theorem context_switch_roundtrip:
  assumes "regions own ths" "threads_ok own ths (c, a, g)"
    and "switch_to own (c, a, g) b s" "thread_run own s bs (c', a', g')" "a \<notin> set bs"
    and "switch_to own (c', a', g') a (d, a'', g'')"
  shows "running d = after_switch c"
proof -
  obtain c1 b1 g1 where s: "s = (c1, b1, g1)" by (cases s)
  note S = switch_step [OF assms(1,2) assms(3) [unfolded s]]
  have "a \<noteq> b" using assms(2) S(1) by (auto simp: threads_ok_def)
  then have g1: "snd (snd s) a = Some (after_switch c)" using S(4) by (simp add: s)
  have ok: "threads_ok own ths s" using S(2) by (simp add: s)
  have "g' a = Some (after_switch c)" using thread_run_waits [OF assms(4,1) ok g1 assms(5)] by simp
  moreover have "threads_ok own ths (c', a', g')" by (rule thread_run_keeps [OF assms(4,1) ok])
  from switch_step(1) [OF assms(1) this assms(6)] have "g' a = Some (running d)" .
  ultimately show ?thesis by simp
qed

lemma new_thread_suspended:
  assumes "stk + 8184 \<notin> set (save_area a)" "stk + 8188 \<notin> set (save_area a)"
  shows "x_sp (suspended (TCBWithStack t a stk pd start m) a) = stk + 8192"
    "x_flags (suspended (TCBWithStack t a stk pd start m) a) = EFLAGS_IF"
    "x_ip (suspended (TCBWithStack t a stk pd start m) a) = start"
    "x_cr3 (suspended (TCBWithStack t a stk pd start m) a) = pd"
    "TCBWithStack t a stk pd start m (a + 4) = stk + 8184"
proof -
  define top where "top = stk + 8184"
  have top: "stk + 4 * (STACK_WORDS - 2) = top" "stk + 4 * (STACK_WORDS - 1) = top + 4" "stk + 8192 = top + 8"
    by (simp_all add: STACK_WORDS_def top_def)
  have n: "top \<noteq> a + 4" "top \<noteq> a + 20" "top + 4 \<noteq> a + 4" "top + 4 \<noteq> a + 20" "a + 32 \<noteq> top" "a + 32 \<noteq> top + 4"
    "a + 32 \<noteq> a + 4" "a + 32 \<noteq> a + 20" "top \<noteq> top + 4"
    using assms unfolding save_area_words by (auto simp: top_def)
  define M where "M = TCBWithStack t a stk pd start m"
  have M: "M = m(a + 24 := t, a + 32 := pd, top := 0x200, top + 4 := start, a + 20 := 0, a + 4 := top)"
    unfolding M_def TCBWithStack_def Let_def top ..
  have w: "M (a + 4) = top" "M top = 0x200" "M (top + 4) = start" "M (a + 32) = pd"
    unfolding M fun_upd_apply using n by (simp_all only: if_False if_True refl simp_thms n [symmetric])
  show "x_sp (suspended M a) = stk + 8192" "x_flags (suspended M a) = EFLAGS_IF" "x_ip (suspended M a) = start"
    "x_cr3 (suspended M a) = pd" "M (a + 4) = stk + 8184"
    using w by (simp_all add: suspended_def EFLAGS_IF_def top(3) top_def [symmetric])
qed

text \<open>
  C14. A thread made by the constructor starts, when it is switched to for the first time, at
  \<^verbatim>\<open>entry\<close>, with interrupts enabled, on its own empty stack and in the address space of its process.
\<close>

theorem new_thread_starts_at_entry:
  assumes "regions own ths" "threads_ok own ths (c, a, g)" "switch_to own (c, a, g) b (d, b', g')"
    and "\<forall>w \<in> thread_words b (stk + 8184). mem c w = TCBWithStack t b stk pd start m w"
    and "stk + 8184 \<notin> set (save_area b)" "stk + 8188 \<notin> set (save_area b)"
  shows "eip d = start \<and> interrupts_enabled d \<and> esp d = stk + 8192 \<and> cr3 d = pd"
proof -
  note N = new_thread_suspended [OF assms(5,6), of t pd start m]
  have "suspended (mem c) b = suspended (TCBWithStack t b stk pd start m) b"
    using assms(4) N(5) by (intro suspended_cong) simp
  moreover have "suspended (mem c) b = running d"
    using assms(2) switch_step(1) [OF assms(1-3)] by (auto simp: threads_ok_def)
  ultimately have "suspended (TCBWithStack t b stk pd start m) b = running d" by simp
  from N(1-4) [unfolded this] show ?thesis by (simp add: running_def interrupts_enabled_def EFLAGS_IF_def)
qed

section \<open>An example\<close>

text \<open>Two threads of 12 KB each; the second is new, with its stack at \<^verbatim>\<open>0x20100\<close>.\<close>

definition demo_own :: "u32 \<Rightarrow> u32 set" where
  "demo_own a = {a..<a + 0x3000}"

definition demo_cpu :: cpu where
  "demo_cpu = \<lparr>eax = 0, ebx = 1, ecx = 0, edx = 0, esi = 2, edi = 3, ebp = 4, esp = 0x12000, eip = 0x100, eflags = 0x202,
     cr2 = 5, cr3 = 0x4000, mem = (TCBWithStack 0 0x20000 0x20100 0x5000 0x888 (\<lambda>w. 0))
       (0x12000 := 0x777, 0x12004 := 0x10000, 0x12008 := 0x20000, 0x1200C := 0x500)\<rparr>"

definition demo_back :: "cpu \<Rightarrow> cpu" where
  "demo_back c = c\<lparr>ebx := 77, esp := 0x22000, mem := (mem c)(0x22000 := 0x999, 0x22004 := 0x20000, 0x22008 := 0x10000)\<rparr>"

definition no_action :: handler where
  "no_action f c = c\<lparr>eax := f\<rparr>"

lemma demo_regions: "regions demo_own {0x10000, 0x20000}"
  by (auto simp: regions_def demo_own_def save_area_words)

lemma no_action_keeps: "handler_keeps ws no_action"
  by (simp add: handler_keeps_def no_action_def)

definition demo_threads :: threads where
  "demo_threads = (demo_cpu, 0x10000, [0x20000 \<mapsto> suspended (mem demo_cpu) 0x20000])"

lemma demo_new: "x_sp (suspended (mem demo_cpu) 0x20000) = 0x22100"
  by (simp add: demo_cpu_def suspended_def TCBWithStack_def Let_def STACK_WORDS_def)

lemma demo_ok: "threads_ok demo_own {0x10000, 0x20000} demo_threads"
  by (simp add: demo_threads_def threads_ok_def demo_new stack_at_def demo_own_def save_area_words)

lemma demo_switch:
  "switch_to demo_own demo_threads 0x20000
    (gheith_contextSwitch no_action demo_cpu, 0x20000, [0x10000 \<mapsto> after_switch demo_cpu])"
proof -
  have g: "[0x10000 :: u32 \<mapsto> after_switch demo_cpu] =
      [0x20000 \<mapsto> suspended (mem demo_cpu) 0x20000, 0x10000 \<mapsto> after_switch demo_cpu](0x20000 := None)" by (auto simp: fun_eq_iff)
  show ?thesis unfolding demo_threads_def g
    by (intro switch_to.intros no_action_keeps)
      (simp_all add: demo_cpu_def source_area_def target_area_def stack_at_def demo_own_def save_area_words)
qed

theorem new_thread_starts_at_entry_witness:
  "eip (gheith_contextSwitch no_action demo_cpu) = 0x888 \<and> interrupts_enabled (gheith_contextSwitch no_action demo_cpu) \<and>
   esp (gheith_contextSwitch no_action demo_cpu) = 0x22100 \<and> cr3 (gheith_contextSwitch no_action demo_cpu) = 0x5000"
proof -
  have "\<forall>w \<in> thread_words 0x20000 (0x20100 + 8184). mem demo_cpu w = TCBWithStack 0 0x20000 0x20100 0x5000 0x888 (\<lambda>w. 0) w"
    by (simp add: thread_words_def demo_cpu_def)
  from new_thread_starts_at_entry [OF demo_regions demo_ok [unfolded demo_threads_def] demo_switch [unfolded demo_threads_def] this]
  show ?thesis by (simp add: save_area_words)
qed

theorem context_switch_roundtrip_witness:
  "running (gheith_contextSwitch no_action (demo_back (gheith_contextSwitch no_action demo_cpu))) =
    \<lparr>x_ebx = 1, x_ebp = 4, x_esi = 2, x_edi = 3, x_cr2 = 5, x_cr3 = 0, x_flags = 0x202, x_ip = 0x777, x_sp = 0x12004\<rparr>"
proof -
  let ?d = "gheith_contextSwitch no_action demo_cpu" and ?g = "[0x10000 \<mapsto> after_switch demo_cpu]"
  have e: "after_switch demo_cpu = \<lparr>x_ebx = 1, x_ebp = 4, x_esi = 2, x_edi = 3, x_cr2 = 5, x_cr3 = 0, x_flags = 0x202,
      x_ip = 0x777, x_sp = 0x12004\<rparr>"
    by (simp add: after_switch_def demo_cpu_def source_area_def TCBWithStack_def Let_def STACK_WORDS_def)
  have "thread_run demo_own (?d, 0x20000, ?g) [] (demo_back ?d, 0x20000, ?g)"
    by (rule run_code [OF run_start]) (simp add: held_def thread_words_def demo_back_def e)
  moreover have "switch_to demo_own (demo_back ?d, 0x20000, ?g) 0x10000
      (gheith_contextSwitch no_action (demo_back ?d), 0x10000, ?g(0x20000 \<mapsto> after_switch (demo_back ?d), 0x10000 := None))"
    by (intro switch_to.intros no_action_keeps)
      (simp_all add: demo_back_def source_area_def target_area_def stack_at_def demo_own_def save_area_words)
  ultimately show ?thesis
    using context_switch_roundtrip [OF demo_regions demo_ok [unfolded demo_threads_def] demo_switch [unfolded demo_threads_def]] e
    by (metis empty_iff list.set(1))
qed

end
