(* ===== verification/Config_Init.thy ===== *)
theory Config_Init
  imports Config
begin

unbundle bit_operations_syntax

text \<open>
  How the kernel finds out about the machine: \<^verbatim>\<open>src/kernel/config.cc\<close>. Memory is a function from
  addresses to bytes; the structures the BIOS left there are packed, so that a field is read at its
  offset. A null pointer is address 0, which the kernel can read at this point.
\<close>

section \<open>Reading memory\<close>

type_synonym bios = "u32 \<Rightarrow> u8"

definition bios16 :: "bios \<Rightarrow> u32 \<Rightarrow> u16" where
  "bios16 m a = ucast (m a) OR push_bit 8 (ucast (m (a + 1)))"

definition bios32 :: "bios \<Rightarrow> u32 \<Rightarrow> u32" where
  "bios32 m a = ucast (m a) OR push_bit 8 (ucast (m (a + 1))) OR push_bit 16 (ucast (m (a + 2))) OR
     push_bit 24 (ucast (m (a + 3)))"

record memInfo =
  mi_ax :: u16
  mi_bx :: u16
  mi_cx :: u16
  mi_dx :: u16

definition memAbove1M :: "memInfo \<Rightarrow> u32 result" where
  "memAbove1M mi =
     bindR (assertR (mi_cx mi = 15 * 1024 \<or> mi_dx mi = 0) ''(memInfo.cx == 15 * 1024) || (memInfo.dx == 0)'') (\<lambda>_.
     Inr (push_bit 10 (ucast (mi_ax mi OR mi_cx mi)) + push_bit 16 (ucast (mi_bx mi OR mi_dx mi))))"

section \<open>Finding the tables\<close>

fun iseq :: "bios \<Rightarrow> u32 \<Rightarrow> u8 list \<Rightarrow> bool" where
  "iseq m a [] = True"
| "iseq m a (b # bs) = (if m a \<noteq> b then False else iseq m (a + 1) bs)"

definition RSD_PTR :: "u8 list" where
  "RSD_PTR = [0x52, 0x53, 0x44, 0x20, 0x50, 0x54, 0x52, 0x20]"

text \<open>The loop over the multiples of 16, with fuel: it does not end when \<open>i\<close> wraps around.\<close>

fun findRSDInRange :: "nat \<Rightarrow> bios \<Rightarrow> u32 \<Rightarrow> u32 \<Rightarrow> u32 result" where
  "findRSDInRange 0 m i end = Inl Diverges"
| "findRSDInRange (Suc fuel) m i end =
     (if i < end then if iseq m i RSD_PTR then Inr i else findRSDInRange fuel m (i + 16) end
      else Inr 0)"

definition findRSD :: "bios \<Rightarrow> u32 result" where
  "findRSD m =
     bindR (findRSDInRange 8193 m 0x000E0000 0x00100000) (\<lambda>it.
     if it = 0 then
       let base = push_bit 4 (ucast (bios16 m 0x40E))
       in findRSDInRange 65 m base (base + push_bit 10 1)
     else Inr it)"

definition sizeof_SDT :: u32 where "sizeof_SDT = 36"
definition sizeof_MADT :: u32 where "sizeof_MADT = 44"

definition SDT_Length :: "bios \<Rightarrow> u32 \<Rightarrow> u32" where "SDT_Length m p = bios32 m (p + 4)"
definition rootSDT :: "bios \<Rightarrow> u32 \<Rightarrow> u32" where "rootSDT m p = bios32 m (p + 16)"
definition localAddress :: "bios \<Rightarrow> u32 \<Rightarrow> u32" where "localAddress m p = bios32 m (p + 36)"
definition MADT_flags :: "bios \<Rightarrow> u32 \<Rightarrow> u32" where "MADT_flags m p = bios32 m (p + 40)"

fun sdt_loop :: "bios \<Rightarrow> u8 list \<Rightarrow> u32 \<Rightarrow> nat \<Rightarrow> u32" where
  "sdt_loop m name others 0 = 0"
| "sdt_loop m name others (Suc k) =
     (let h = bios32 m others in if iseq m h name then h else sdt_loop m name (others + 4) k)"

definition findSDT :: "bios \<Rightarrow> u32 \<Rightarrow> u8 list \<Rightarrow> u32" where
  "findSDT m rsdp name =
     (let rsdt = rootSDT m rsdp; others = rsdt + sizeof_SDT; entries = (SDT_Length m rsdt - sizeof_SDT) div 4
      in sdt_loop m name others (unat entries))"

section \<open>The interrupt controllers\<close>

definition MAX_PROCS :: nat where "MAX_PROCS = 16"

text \<open>What the loop does with the entry at \<open>p\<close>; the array of processors has 16 elements.\<close>

definition madt_entry :: "bios \<Rightarrow> u32 \<Rightarrow> config \<Rightarrow> config result" where
  "madt_entry m p c =
     (if m p = 0 then
        if m (p + 2) = 0 then Inr c
        else
          let i = unat (nOtherProcs c)
          in if i < MAX_PROCS
             then Inr (c\<lparr>nOtherProcs := nOtherProcs c + 1,
                 apicInfo := (apicInfo c)[i := \<lparr>processorId = m (p + 2), apicId = m (p + 3), apicFlags = bios32 m (p + 4)\<rparr>]\<rparr>)
             else Inl OutOfRange
      else if m p = 1 then Inr (c\<lparr>ioAPIC := bios32 m (p + 4)\<rparr>)
      else Inr c)"

text \<open>
  The loop steps over an entry before it looks at it. With fuel: an entry of length zero keeps it
  where it is.
\<close>

fun madt_loop :: "nat \<Rightarrow> bios \<Rightarrow> u32 \<Rightarrow> u32 \<Rightarrow> config \<Rightarrow> config result" where
  "madt_loop 0 m entryPtr bytesForEntries c = Inl Diverges"
| "madt_loop (Suc fuel) m entryPtr bytesForEntries c =
     (if sint bytesForEntries > 0 then
        let len = ucast (m (entryPtr + 1)); entryPtr = entryPtr + len; bytesForEntries = bytesForEntries - len
        in bindR (madt_entry m entryPtr c) (madt_loop fuel m entryPtr bytesForEntries)
      else Inr c)"

definition configInit :: "nat \<Rightarrow> bios \<Rightarrow> memInfo \<Rightarrow> config \<Rightarrow> config result" where
  "configInit fuel m mi c =
     bindR (memAbove1M mi) (\<lambda>above.
     let c = c\<lparr>memSize := above + push_bit 20 1\<rparr>
     in bindR (findRSD m) (\<lambda>rsdp.
     let c = (if rsdp \<noteq> 0 then c\<lparr>oemid := map (\<lambda>i. m (rsdp + 9 + of_nat i)) [0..<6] @ [0]\<rparr> else c);
         madt = findSDT m rsdp [0x41, 0x50, 0x49, 0x43];
         c = c\<lparr>localAPIC := localAddress m madt, madtFlags := MADT_flags m madt\<rparr>;
         bytesForEntries = SDT_Length m madt - sizeof_MADT
     in bindR (madt_loop fuel m (madt + sizeof_MADT) bytesForEntries (c\<lparr>nOtherProcs := 0\<rparr>)) (\<lambda>c.
        Inr (c\<lparr>totalProcs := nOtherProcs c + 1\<rparr>))))"

section \<open>The search ends\<close>

lemma findRSDInRange_ends:
  "unat e - unat i \<le> 16 * fuel \<Longrightarrow> unat e \<le> 2 ^ 32 - 16 \<Longrightarrow> \<exists>p. findRSDInRange (Suc fuel) m i e = Inr p"
proof (induction fuel arbitrary: i)
  case 0
  then show ?case by (auto simp: word_less_nat_alt)
next
  case (Suc fuel)
  show ?case
  proof (cases "i < e \<and> \<not> iseq m i RSD_PTR")
    case True
    then have "unat (i + 16) = unat i + 16" using Suc.prems(2) by (subst unat_add_lem [THEN iffD1]) (auto simp: word_less_nat_alt)
    then have "\<exists>p. findRSDInRange (Suc fuel) m (i + 16) e = Inr p" using Suc.prems by (intro Suc.IH) simp_all
    then show ?thesis using True by simp
  qed auto
qed

text \<open>The bounds of both searches are such that the fuel \<^verbatim>\<open>findRSD\<close> is given is enough.\<close>

lemma findRSD_ends: "\<exists>p. findRSD m = Inr p"
proof -
  have s: "Suc 8192 = 8193" "Suc 64 = 65" by simp_all
  have "unat (0x100000 :: u32) - unat (0xE0000 :: u32) \<le> 16 * 8192" "unat (0x100000 :: u32) \<le> 2 ^ 32 - 16" by simp_all
  then have "\<exists>p. findRSDInRange (Suc 8192) m 0xE0000 0x100000 = Inr p" by (rule findRSDInRange_ends)
  moreover have "\<exists>p. findRSDInRange (Suc 64) m b (b + 1024) = Inr p" if "b = push_bit 4 (ucast (w :: u16))" for b w
  proof -
    have w: "unat w < 2 ^ 16" using unsigned_less [of w, where 'a = nat] by simp
    have u: "unat (ucast w :: u32) = unat w" using w by (simp add: unsigned_ucast_eq take_bit_nat_def)
    have "b = ucast w * 16" unfolding that by (simp add: push_bit_eq_mult)
    then have "unat b = unat w * 16" using w by (simp add: unat_mult_lem [THEN iffD1] u)
    then have b: "unat b \<le> 0xFFFFF" using w by simp
    then have "unat (b + 1024) = unat b + 1024" by (subst unat_add_lem [THEN iffD1]) simp_all
    then show ?thesis using b by (intro findRSDInRange_ends) simp_all
  qed
  ultimately show ?thesis unfolding findRSD_def Let_def s by fastforce
qed

section \<open>The loop over the interrupt controllers\<close>

text \<open>Entries of the lengths \<open>ls\<close> one after the other from \<open>p\<close> on, and where they start, the last address being their end.\<close>

fun entries_at :: "bios \<Rightarrow> u32 \<Rightarrow> nat list \<Rightarrow> bool" where
  "entries_at m p [] = True"
| "entries_at m p (l # ls) = (0 < l \<and> unat (m (p + 1)) = l \<and> entries_at m (p + of_nat l) ls)"

fun starts :: "u32 \<Rightarrow> nat list \<Rightarrow> u32 list" where
  "starts p [] = [p]"
| "starts p (l # ls) = p # starts (p + of_nat l) ls"

lemma sint_of_nat_pos: "n < 2 ^ 31 \<Longrightarrow> sint (of_nat n :: u32) = int n"
proof -
  assume "n < 2 ^ 31"
  then have "sint (of_int (int n) :: u32) = int n"
    by (simp add: sint_sbintrunc' signed_take_bit_int_eq_self del: of_int_of_nat_eq)
  then show ?thesis by (simp only: of_int_of_nat_eq)
qed

lemma starts_tl: "starts p ls = p # tl (starts p ls)"
  by (cases ls) simp_all

lemma madt_loop_entries:
  "entries_at m p ls \<Longrightarrow> sum_list ls < 2 ^ 31 \<Longrightarrow> length ls < fuel \<Longrightarrow>
    madt_loop fuel m p (of_nat (sum_list ls)) c = foldM (madt_entry m) (tl (starts p ls)) c"
proof (induction ls arbitrary: p c fuel)
  case Nil
  then show ?case by (cases fuel) simp_all
next
  case (Cons l ls)
  obtain f where f: "fuel = Suc f" "length ls < f" using Cons.prems(3) by (cases fuel) auto
  have u: "ucast (m (p + 1)) = (of_nat l :: u32)" using Cons.prems(1)
    by (metis entries_at.simps(2) of_nat_unat)
  have pos: "sint (of_nat (sum_list (l # ls)) :: u32) > 0"
    using Cons.prems(1,2) by (subst sint_of_nat_pos) simp_all
  have IH: "madt_loop f m (p + of_nat l) (of_nat (sum_list ls)) c' = foldM (madt_entry m) (tl (starts (p + of_nat l) ls)) c'" for c'
    by (rule Cons.IH) (use Cons.prems f in simp_all)
  have "madt_loop fuel m p (of_nat (sum_list (l # ls))) c =
      bindR (madt_entry m (p + of_nat l) c) (madt_loop f m (p + of_nat l) (of_nat (sum_list ls)))"
    using pos u f(1) by (simp add: Let_def)
  also have "\<dots> = bindR (madt_entry m (p + of_nat l) c) (foldM (madt_entry m) (tl (starts (p + of_nat l) ls)))"
    by (rule bindR_cong [OF refl IH])
  also have "\<dots> = foldM (madt_entry m) (starts (p + of_nat l) ls) c"
    by (subst (2) starts_tl) simp
  finally show ?case by simp
qed

lemma madt_loop_zero: "m (p + 1) = 0 \<Longrightarrow> sint b > 0 \<Longrightarrow> madt_loop fuel m p b c \<noteq> Inr c'"
  by (induction fuel arbitrary: c) (auto simp: bindR_eq_Inr)

text \<open>
  C37. \<^verbatim>\<open>configInit\<close> looks at the wrong entries of the table of interrupt controllers: at every entry
  but the first, and then at the bytes behind the table as if they were an entry. On a table with
  an entry of length zero it does not return, whatever its fuel.
\<close>

theorem madt_entries_shifted:
  assumes "entries_at m p ls" "sum_list ls < 2 ^ 31" "length ls < fuel"
  shows "madt_loop fuel m p (of_nat (sum_list ls)) c = foldM (madt_entry m) (tl (starts p ls)) c \<and>
    (\<forall>q b k c'. m (q + 1) = 0 \<and> sint b > 0 \<longrightarrow> madt_loop k m q b c \<noteq> Inr c')"
  using madt_loop_entries [OF assms] madt_loop_zero by blast

text \<open>
  A table with two processors, of which it sees the second only, and then the one that the bytes
  behind the table describe.
\<close>

definition demo_madt :: bios where
  "demo_madt a = (if a = 1 \<or> a = 9 then 8 else if a = 2 then 5 else if a = 10 then 6 else if a = 18 then 7 else 0)"

definition demo_config :: config where
  "demo_config = \<lparr>memSize = 0, nOtherProcs = 0, totalProcs = 0, localAPIC = 0, madtFlags = 0, ioAPIC = 0,
     apicInfo = [\<lparr>processorId = 0, apicId = 0, apicFlags = 0\<rparr>, \<lparr>processorId = 0, apicId = 0, apicFlags = 0\<rparr>], oemid = []\<rparr>"

theorem madt_entries_shifted_witness:
  "\<exists>c. madt_loop 3 demo_madt 0 16 demo_config = Inr c \<and> map processorId (take 2 (apicInfo c)) = [6, 7]"
proof -
  have "entries_at demo_madt 0 [8, 8]" by (simp add: demo_madt_def)
  from madt_entries_shifted [OF this, of 3 demo_config]
  have "madt_loop 3 demo_madt 0 16 demo_config = foldM (madt_entry demo_madt) [8, 16] demo_config" by simp
  then show ?thesis by (simp add: madt_entry_def demo_madt_def demo_config_def MAX_PROCS_def)
qed

end
