(* ===== verification/Boot.thy ===== *)
theory Boot
  imports Heap_Correct Vmm_Props Config_Init
begin

text \<open>
  How \<^verbatim>\<open>kernelInit\<close> of \<^verbatim>\<open>src/kernel/init.cc\<close> lays out memory: the kernel heap from 1 MB on, the
  frames from 6 MB to the end of memory, and page tables that map all of it to itself.
\<close>

definition HEAP_START :: u32 where "HEAP_START = 1 * 1024 * 1024"
definition HEAP_SIZE :: u32 where "HEAP_SIZE = 5 * 1024 * 1024"
definition VMM_FRAMES :: u32 where "VMM_FRAMES = HEAP_START + HEAP_SIZE"

text \<open>
  The steps of \<^verbatim>\<open>kernelInit\<close> that set up memory, in their order. \<open>hm\<close> and \<open>m\<close> are what memory
  holds, \<open>lockBytes\<close> the size of the heap's lock.
\<close>

definition memory_init ::
    "u32 \<Rightarrow> (int \<Rightarrow> int) \<Rightarrow> (u32 \<Rightarrow> u32) \<Rightarrow> nat \<Rightarrow> config \<Rightarrow> (heap \<times> vmm) result" where
  "memory_init lockBytes hm m fuel c =
     bindR (heapInit lockBytes hm HEAP_START HEAP_SIZE) (\<lambda>h.
     bindR (pm_init m VMM_FRAMES (memSize c - VMM_FRAMES)) (\<lambda>p.
     bindR (global_init fuel \<lparr>phys = p, shared = 0, kConfig = c, cr3 = 0, invlpgs = []\<rparr>) (\<lambda>v.
     Inr (h, v))))"

lemma owned_above: "owns start s A n \<Longrightarrow> p \<in> A \<Longrightarrow> start \<le> p"
  by (auto simp: owns_def touched_def)

lemma memory_init_ok:
  assumes "offset (memSize c) = 0" "0x800000 \<le> memSize c" "memSize c \<le> 0xFFFFF000"
    and "lockBytes \<noteq> 0" "ints_of lockBytes \<le> 1310716" and fuel: "unat (memSize c) \<le> 4096 * fuel"
  shows "\<exists>h v B. memory_init lockBytes hm m fuel c = Inr (h, v) \<and>
    heap_view h (alloc_at 2 (ints_of lockBytes) [(0, -2), (2, 1310716), (1310718, -2)]) \<and>
    theLock h = Some (HEAP_START + 12) \<and>
    vheld VMM_FRAMES (unat (memSize c - VMM_FRAMES) div 4096) v B \<and> (\<forall>p \<in> B. HEAP_START + HEAP_SIZE \<le> p) \<and>
    pd_wf v B (shared v) \<and> kConfig v = c \<and> card B + 3 \<le> unat (memSize c - VMM_FRAMES) div 4096 \<and>
    (\<forall>va. lookup v (shared v) va =
       (if 0 < framedown va \<and> framedown va < memSize c then Some (framedown va) else None))"
proof -
  let ?M = "unat (memSize c)" and ?T = "unat (memSize c - VMM_FRAMES) div 4096"
  have V: "VMM_FRAMES = 0x600000" by (simp add: VMM_FRAMES_def HEAP_START_def HEAP_SIZE_def)
  have mb: "8388608 \<le> ?M" using assms(2) by (simp add: word_le_nat_alt)
  have sub: "unat (memSize c - VMM_FRAMES) = ?M - 6291456" using mb by (simp add: V unat_sub word_le_nat_alt)
  obtain k where k: "?M = 4096 * k" using assms(1) by (auto simp: offset_0_iff mod_eq_0_iff_dvd elim: dvdE)
  have T: "?T = k - 1536" "2048 \<le> k" using k mb by (simp_all add: sub)
  have heap: "\<exists>h. heapInit lockBytes hm HEAP_START HEAP_SIZE = Inr h \<and> theLock h = Some (HEAP_START + 12) \<and>
      heap_view h (alloc_at 2 (ints_of lockBytes) [(0, -2), (2, 1310720 - 4), (1310720 - 2, -2)])"
    using assms(4,5) by (intro heapInit_correct) (simp_all add: HEAP_START_def HEAP_SIZE_def)
  have "VMM_FRAMES \<le> VMM_FRAMES + (memSize c - VMM_FRAMES)" using mb by (simp add: V word_le_nat_alt)
  moreover have "offset (memSize c - VMM_FRAMES) = 0" using T k mb by (simp add: offset_0_iff sub)
  ultimately obtain p where p: "pm_init m VMM_FRAMES (memSize c - VMM_FRAMES) = Inr p" "owns VMM_FRAMES p {} ?T"
    using pm_init_correct [of VMM_FRAMES "memSize c - VMM_FRAMES" m] by (auto simp: V offset_def)
  let ?v = "\<lparr>phys = p, shared = 0, kConfig = c, cr3 = 0, invlpgs = []\<rparr>"
  have vh: "vheld VMM_FRAMES ?T ?v {}" using p(2) by (simp add: vheld_def)
  have "?M div 4194304 = k div 1024" by (simp add: k div_mult2_eq [symmetric])
  then have "card ({} :: u32 set) + 2 + unat (memSize (kConfig ?v)) div 4194304 \<le> ?T" using T by simp
  then obtain w B where w: "global_init fuel ?v = Inr w" "vheld VMM_FRAMES ?T w B" "pd_wf w B (shared w)"
    "kConfig w = kConfig ?v" "card B \<le> 2 + ?M div 4194304"
    "\<forall>va. lookup w (shared w) va =
       (if 0 < framedown va \<and> framedown va < memSize c then Some (framedown va) else None)"
    using global_init_correct [OF vh, of fuel] mb assms(3) fuel by (auto simp: word_less_nat_alt) 
  have "\<forall>q \<in> B. HEAP_START + HEAP_SIZE \<le> q"
    using owned_above [of VMM_FRAMES "phys w" B] w(2) by (auto simp: vheld_def VMM_FRAMES_def)
  moreover have "card B + 3 \<le> ?T" using w(5) T \<open>?M div 4194304 = k div 1024\<close> by simp
  ultimately show ?thesis using heap p(1) w by (auto simp: memory_init_def)
qed

text \<open>
  Whatever memory holds when the kernel starts, on a machine with at least 8 MB the boot
  sequence leaves a consistent heap between 1 MB and 6 MB, an allocator all of whose frames lie
  behind the heap, and page tables that map every address of the heap, and every other address
  from the second page to the end of memory, to itself.
\<close>

theorem memory_init_correct:
  assumes "offset (memSize c) = 0" "0x800000 \<le> memSize c" "memSize c \<le> 0xFFFFF000"
    and "lockBytes \<noteq> 0" "ints_of lockBytes \<le> 1310716" and fuel: "unat (memSize c) \<le> 4096 * fuel"
  shows "\<exists>h v B. memory_init lockBytes hm m fuel c = Inr (h, v) \<and>
    heap_view h (alloc_at 2 (ints_of lockBytes) [(0, -2), (2, 1310716), (1310718, -2)]) \<and>
    theLock h = Some (HEAP_START + 12) \<and>
    vheld VMM_FRAMES (unat (memSize c - VMM_FRAMES) div 4096) v B \<and> (\<forall>p \<in> B. HEAP_START + HEAP_SIZE \<le> p) \<and>
    pd_wf v B (shared v) \<and>
    (\<forall>va. lookup v (shared v) va =
       (if 0 < framedown va \<and> framedown va < memSize c then Some (framedown va) else None))"
  using memory_init_ok [OF assms, of hm m] by blast

theorem memory_init_correct_witness:
  "\<exists>h v. memory_init 32 (\<lambda>_. 0) (\<lambda>_. 0) 32768 (demo_config\<lparr>memSize := 0x8000000\<rparr>) = Inr (h, v) \<and>
     lookup v (shared v) 0x123456 = Some 0x123000 \<and> lookup v (shared v) 0x8000000 = None"
proof -
  have i: "ints_of 32 \<le> 1310716" using ints_of_eq [of 32] by simp
  obtain h v where "memory_init 32 (\<lambda>_. 0) (\<lambda>_. 0) 32768 (demo_config\<lparr>memSize := 0x8000000\<rparr>) = Inr (h, v)"
    "\<forall>va. lookup v (shared v) va = (if 0 < framedown va \<and> framedown va < 0x8000000 then Some (framedown va) else None)"
    using memory_init_correct [of "demo_config\<lparr>memSize := 0x8000000\<rparr>" 32 32768 "\<lambda>_. 0" "\<lambda>_. 0"] i by (auto simp: offset_def)
  then show ?thesis by (auto simp: framedown_def)
qed

end
