(* ===== verification/Machine.thy ===== *)
theory Machine
  imports Config
begin

unbundle bit_operations_syntax

text \<open>
  The processor's surroundings: the interrupt table (\<^verbatim>\<open>src/kernel/idt.cc\<close>), the local interrupt
  controller and messages between processors (\<^verbatim>\<open>smp.h\<close>, \<^verbatim>\<open>smp.cc\<close>), the timers (\<^verbatim>\<open>pit.cc\<close>, \<^verbatim>\<open>pit.h\<close>)
  and the random numbers of \<^verbatim>\<open>random.h\<close>. The controller's registers are memory; what is sent to
  ports is recorded; what a port or a running counter shows is an input.
\<close>

section \<open>The interrupt table\<close>

definition idt_interrupt :: "u32 \<Rightarrow> nat \<Rightarrow> u32 \<Rightarrow> (nat \<Rightarrow> u32) \<Rightarrow> nat \<Rightarrow> u32" where
  "idt_interrupt kernelCS index handler idt =
     (let i0 = 2 * index; i1 = i0 + 1
      in idt(i0 := push_bit 16 kernelCS + (handler AND 0xffff), i1 := (handler AND 0xffff0000) OR 0x8e00))"

definition idt_trap :: "u32 \<Rightarrow> nat \<Rightarrow> u32 \<Rightarrow> u32 \<Rightarrow> (nat \<Rightarrow> u32) \<Rightarrow> nat \<Rightarrow> u32" where
  "idt_trap kernelCS index handler dpl idt =
     (let i0 = 2 * index; i1 = i0 + 1
      in idt(i0 := push_bit 16 kernelCS + (handler AND 0xffff),
             i1 := (handler AND 0xffff0000) OR 0x8f00 OR push_bit 13 dpl))"

text \<open>How the processor reads a gate: the handler's address, its segment and the ring that may call it.\<close>

definition gate_handler :: "(nat \<Rightarrow> u32) \<Rightarrow> nat \<Rightarrow> u32" where
  "gate_handler idt index = (idt (2 * index + 1) AND 0xffff0000) OR (idt (2 * index) AND 0xffff)"

definition gate_segment :: "(nat \<Rightarrow> u32) \<Rightarrow> nat \<Rightarrow> u32" where
  "gate_segment idt index = drop_bit 16 (idt (2 * index))"

definition gate_dpl :: "(nat \<Rightarrow> u32) \<Rightarrow> nat \<Rightarrow> u32" where
  "gate_dpl idt index = drop_bit 13 (idt (2 * index + 1)) AND 3"

definition gate_present :: "(nat \<Rightarrow> u32) \<Rightarrow> nat \<Rightarrow> bool" where
  "gate_present idt index = bit (idt (2 * index + 1)) 15"

section \<open>The local interrupt controller\<close>

record machine =
  apic :: "u32 \<Rightarrow> u32"
  out_ports :: "(u32 \<times> u32) list"
  msr :: "u32 \<Rightarrow> u64"
  running :: u32
  machine_idt :: "nat \<Rightarrow> u32"
  apic_base :: u32
  apitCounter :: u32
  jiffiesPerSecond :: u32
  jiffies :: u32

definition outb :: "u32 \<Rightarrow> u32 \<Rightarrow> machine \<Rightarrow> machine" where
  "outb p v m = m\<lparr>out_ports := out_ports m @ [(p, v AND 0xff)]\<rparr>"

definition reg_set :: "u32 \<Rightarrow> u32 \<Rightarrow> machine \<Rightarrow> machine" where
  "reg_set off v m = m\<lparr>apic := (apic m)(apic_base m + off := v)\<rparr>"

definition reg_get :: "u32 \<Rightarrow> machine \<Rightarrow> u32" where
  "reg_get off m = apic m (apic_base m + off)"

text \<open>Where \<^verbatim>\<open>SMP::init\<close> finds the registers.\<close>

definition SMP_id :: u32 where "SMP_id = 0x20"
definition eoi_reg :: u32 where "eoi_reg = 0xb0"
definition spurious :: u32 where "spurious = 0xf0"
definition icr_low :: u32 where "icr_low = 0x300"
definition icr_high :: u32 where "icr_high = 0x310"
definition apit_lvt_timer :: u32 where "apit_lvt_timer = 0x320"
definition apit_initial_count :: u32 where "apit_initial_count = 0x380"
definition apit_current_count :: u32 where "apit_current_count = 0x390"
definition apit_divide :: u32 where "apit_divide = 0x3e0"

definition MSR :: u32 where "MSR = 0x1B"
definition ENABLE :: u64 where "ENABLE = push_bit 11 1"

definition SMP_me :: "machine \<Rightarrow> u32" where
  "SMP_me m = drop_bit 24 (reg_get SMP_id m)"

definition eoi :: "machine \<Rightarrow> machine" where
  "eoi m = reg_set eoi_reg 0 m"

text \<open>\<^verbatim>\<open>ipi\<close> then waits for bit 12 of the register, which the controller clears on delivery.\<close>

definition ipi :: "u32 \<Rightarrow> u32 \<Rightarrow> machine \<Rightarrow> machine" where
  "ipi ident num m = reg_set icr_low num (reg_set icr_high (push_bit 24 ident) m)"

definition SMP_init :: "bool \<Rightarrow> u32 \<Rightarrow> u32 \<Rightarrow> config \<Rightarrow> machine \<Rightarrow> machine" where
  "SMP_init isFirst kernelCS spuriousHandler c m =
     (let m = (if isFirst
               then m\<lparr>apic_base := localAPIC c, machine_idt := idt_interrupt kernelCS 0xff spuriousHandler (machine_idt m)\<rparr>
               else m);
          m = outb 0xa1 0xff (outb 0x21 0xff m);
          m = m\<lparr>msr := (msr m)(MSR := msr m MSR OR ENABLE)\<rparr>
      in reg_set spurious 0x1ff m)"

section \<open>The timers\<close>

definition PIT_FREQ :: u32 where "PIT_FREQ = 1193182"
definition APIT_vector :: nat where "APIT_vector = 40"

text \<open>
  The loop that waits for the timer's output to change forty times; \<open>inb61\<close> gives the value of port
  0x61 at each reading. With fuel: it does not end when the output stops changing.
\<close>

fun wait_changes :: "nat \<Rightarrow> (nat \<Rightarrow> u32) \<Rightarrow> nat \<Rightarrow> u32 \<Rightarrow> nat \<Rightarrow> nat result" where
  "wait_changes 0 inb61 k prev changes = Inl Diverges"
| "wait_changes (Suc fuel) inb61 k prev changes =
     (if changes < 40 then
        let t = inb61 k AND 0x20
        in if t \<noteq> prev then wait_changes fuel inb61 (k + 1) t (changes + 1)
           else wait_changes fuel inb61 (k + 1) prev changes
      else Inr k)"

text \<open>\<open>current\<close> is what the counter shows after a given number of readings of the port.\<close>

definition calibrate :: "nat \<Rightarrow> (nat \<Rightarrow> u32) \<Rightarrow> (nat \<Rightarrow> u32) \<Rightarrow> u32 \<Rightarrow> u32 \<Rightarrow> u32 \<Rightarrow> machine \<Rightarrow> machine result" where
  "calibrate fuel inb61 current kernelCS handler hz m =
     (let m = reg_set apit_divide 0x0000000B (reg_set apit_lvt_timer 0x00010000 m);
          d = PIT_FREQ div 20;
          d = (if d AND 0xffff \<noteq> d then 0xffff else d);
          initial = 0xffffffff;
          m = reg_set apit_initial_count initial m;
          m = outb 0x42 (drop_bit 8 d) (outb 0x42 d (outb 0x43 0xb6 (outb 0x61 1 m)));
          prev = inb61 0 AND 0x20
      in bindR (wait_changes fuel inb61 1 prev 0) (\<lambda>k.
         let diff = initial - current k; m = outb 0x61 0 m
         in if hz = 0 then Inl DivideByZero
            else Inr (m\<lparr>apitCounter := diff div hz, jiffiesPerSecond := hz,
                        machine_idt := idt_interrupt kernelCS APIT_vector handler (machine_idt m)\<rparr>)))"

definition Pit_init :: "machine \<Rightarrow> machine result" where
  "Pit_init m =
     (if apitCounter m = 0 then Inl (Panic ''apiCounter == 0, did you call Pit::calibrate?'')
      else Inr (reg_set apit_initial_count (apitCounter m)
                 (reg_set apit_lvt_timer (push_bit 17 1 OR push_bit 16 0 OR of_nat APIT_vector)
                   (reg_set apit_divide 0x0000000B m))))"

text \<open>What the timer interrupt does before it looks at the running thread, on core \<open>c\<close>.\<close>

definition count_jiffy :: "nat \<Rightarrow> machine \<Rightarrow> machine" where
  "count_jiffy c m = eoi (if c = 0 then m\<lparr>jiffies := jiffies m + 1\<rparr> else m)"

definition Pit_seconds :: "machine \<Rightarrow> u32 result" where
  "Pit_seconds m = (if jiffiesPerSecond m = 0 then Inl DivideByZero else Inr (jiffies m div jiffiesPerSecond m))"

section \<open>Random numbers\<close>

record random =
  rnd_w :: u32
  rnd_z :: u32

definition random_new :: "u32 \<Rightarrow> random" where
  "random_new seed =
     (let w = seed; z = NOT seed
      in \<lparr>rnd_w = (if w = 0 \<or> w = 0x464fffff then w + 1 else w), rnd_z = (if z = 0 \<or> z = 0x9068ffff then z + 1 else z)\<rparr>)"

definition random_next :: "random \<Rightarrow> u32 \<times> random" where
  "random_next r =
     (let z = 36969 * (rnd_z r AND 65535) + drop_bit 16 (rnd_z r);
          w = 18000 * (rnd_w r AND 65535) + drop_bit 16 (rnd_w r)
      in (push_bit 16 z + w, \<lparr>rnd_w = w, rnd_z = z\<rparr>))"

section \<open>Properties\<close>

lemma reg_get_set:
  "reg_get a (reg_set b v m) = (if a = b then v else reg_get a m)"
  by (simp add: reg_get_def reg_set_def)

lemma gate_low:
  assumes "cs < (0x10000 :: u32)"
  shows "(push_bit 16 cs + (h AND 0xffff)) AND 0xffff = h AND 0xffff" "drop_bit 16 (push_bit 16 cs + (h AND 0xffff)) = cs"
proof -
  have m: "(0xffff :: u32) = mask 16" by (simp add: mask_eq_exp_minus_1)
  have "take_bit 16 cs = cs" using assms by (simp add: word_unat_eq_iff unsigned_take_bit_eq take_bit_nat_def word_less_nat_alt)
  then have b: "bit cs n \<Longrightarrow> n < 16" for n by (metis bit_take_bit_iff)
  have o: "push_bit 16 cs + (h AND 0xffff) = push_bit 16 cs OR (h AND mask 16)"
    unfolding m by (rule disjunctive_add_eq_or) (rule bit_word_eqI, auto simp: bit_simps)
  show "(push_bit 16 cs + (h AND 0xffff)) AND 0xffff = h AND 0xffff"
    unfolding o unfolding m by (rule bit_word_eqI) (auto simp: bit_simps)
  show "drop_bit 16 (push_bit 16 cs + (h AND 0xffff)) = cs"
    unfolding o by (rule bit_word_eqI) (auto simp: bit_simps dest: b)
qed

lemma gate_high:
  assumes "c AND 0xffff0000 = (0 :: u32)"
  shows "((h AND 0xffff0000) OR c) AND 0xffff0000 = h AND 0xffff0000"
  using assms by (simp add: bit.conj_disj_distrib2 and.assoc)

lemma gate_whole: "(h AND 0xffff0000) OR (h AND 0xffff) = (h :: u32)"
proof -
  have "(0xFFFFFFFF :: u32) = - 1" by simp
  then have "h AND 0xFFFFFFFF = h" by (simp only: and.right_neutral)
  then show ?thesis by (simp add: bit.conj_disj_distrib [symmetric])
qed

lemma gate_mid: "((h AND 524280) OR c) AND 3 = c AND (3 :: u32)"
  by (simp add: bit.conj_disj_distrib2 and.assoc)

lemma gate_bit: "bit ((h AND 0xffff0000) OR c) 15 = bit (c :: u32) 15"
proof -
  have m: "(0xffff0000 :: u32) = push_bit 16 (mask 16)" by (simp add: mask_eq_exp_minus_1)
  show ?thesis unfolding m by (auto simp: bit_simps)
qed

lemma dpl_cases: "dpl < (4 :: u32) \<Longrightarrow> dpl = 0 \<or> dpl = 1 \<or> dpl = 2 \<or> dpl = 3"
  unfolding word_less_nat_alt word_unat_eq_iff by auto

text \<open>
  The gates the kernel writes say what was meant: the processor finds in a gate the address of
  the handler and the kernel's code segment; an interrupt gate can be called from the kernel only,
  a trap gate from the ring given; and no other gate changes.
\<close>

theorem gates_roundtrip:
  assumes "kernelCS < 0x10000" and "dpl < 4"
  shows "gate_handler (idt_trap kernelCS i h dpl idt) i = h \<and> gate_segment (idt_trap kernelCS i h dpl idt) i = kernelCS \<and>
    gate_dpl (idt_trap kernelCS i h dpl idt) i = dpl \<and> gate_present (idt_trap kernelCS i h dpl idt) i \<and>
    gate_handler (idt_interrupt kernelCS i h idt) i = h \<and> gate_segment (idt_interrupt kernelCS i h idt) i = kernelCS \<and>
    gate_dpl (idt_interrupt kernelCS i h idt) i = 0 \<and> gate_present (idt_interrupt kernelCS i h idt) i \<and>
    (\<forall>j. j div 2 \<noteq> i \<longrightarrow> idt_trap kernelCS i h dpl idt j = idt j \<and> idt_interrupt kernelCS i h idt j = idt j)"
proof -
  have o: "(h AND 0xffff0000) OR 0x8f00 OR c = (h AND 0xffff0000) OR (0x8f00 OR c)" for c :: u32 by (simp add: or.assoc)
  have s: "Suc (2 * i) \<noteq> 2 * i" "2 * i \<noteq> Suc (2 * i)" by presburger+
  have j: "j \<noteq> 2 * i \<and> j \<noteq> Suc (2 * i)" if "j div 2 \<noteq> i" for j using that by auto
  show ?thesis using dpl_cases [OF assms(2)] gate_low [OF assms(1), of h] j s
    by (elim disjE) (simp_all add: gate_handler_def gate_segment_def gate_dpl_def gate_present_def idt_trap_def idt_interrupt_def
        Let_def o gate_high gate_whole gate_mid gate_bit)
qed

theorem gates_roundtrip_witness:
  "gate_handler (idt_trap 8 48 0x123456 3 (\<lambda>_. 0)) 48 = 0x123456 \<and> gate_dpl (idt_trap 8 48 0x123456 3 (\<lambda>_. 0)) 48 = 3"
  using gates_roundtrip [of 8 3, where h = "0x123456" and i = 48 and idt = "\<lambda>_. 0"] by simp

end
