(* ===== verification/Kernel_Init.thy ===== *)
theory Kernel_Init
  imports Boot Machine Sys Audio_Play Sched_Steps
begin

unbundle bit_operations_syntax

text \<open>
  What the first processor does in \<^verbatim>\<open>kernelInit\<close> of \<^verbatim>\<open>src/kernel/init.cc\<close>: the initialization of all
  components, in its order, up to the start of the other processors, which is Startup's part; the set-up
  of its own timer and address space; and \<^verbatim>\<open>kernelMain\<close> of \<^verbatim>\<open>kernel.cc\<close>. The messages on the
  way are left out.
\<close>

section \<open>What there is at the start\<close>




section \<open>Global constructors\<close>




section \<open>Initialization\<close>





text \<open>\<^verbatim>\<open>kernelMain\<close>: \<^verbatim>\<open>exec\<close> comes back only when it fails.\<close>

definition kernelMain :: "u32 \<Rightarrow> u32 \<Rightarrow> sys \<Rightarrow> (outcome \<times> sys) result" where
  "kernelMain initName argv0 s =
     bindR (exec initName [argv0] s) (\<lambda>(r, s).
     case r of Returns rc \<Rightarrow> Inl (Panic ''*** rc = %d'') | _ \<Rightarrow> Inr (r, s))"

section \<open>The pieces\<close>







section \<open>The kernel is ready\<close>


section \<open>An example\<close>

















end
