(* ===== verification/Buffer.thy ===== *)
theory Buffer
  imports Prelude
begin

text \<open>
  The bounded buffer of \<^verbatim>\<open>src/kernel/bb.h\<close>, used by any number of threads. A thread's position in
  \<^verbatim>\<open>put\<close> or \<^verbatim>\<open>get\<close> is part of the state and every semaphore operation is one step, so that the
  threads interleave between the statements of the two methods.
\<close>

section \<open>Semaphores as their callers see them\<close>

text \<open>
  A count and the threads that wait, longest first: \<^verbatim>\<open>src/kernel/semaphore.h\<close> without the queue's
  pointers, which the scheduler's theories treat. A thread that is woken up has passed its \<^verbatim>\<open>down\<close>.
\<close>

record sema =
  sm_count :: u64
  sm_waiting :: "nat list"

definition sema_new :: "u32 \<Rightarrow> sema" where
  "sema_new k = \<lparr>sm_count = ucast k, sm_waiting = []\<rparr>"

text \<open>\<open>sema_down\<close> tells whether the thread passes, \<open>sema_up\<close> which thread it wakes up.\<close>

definition sema_down :: "nat \<Rightarrow> sema \<Rightarrow> bool \<times> sema" where
  "sema_down t m =
     (if sm_count m > 0 then (True, m\<lparr>sm_count := sm_count m - 1\<rparr>)
      else (False, m\<lparr>sm_waiting := sm_waiting m @ [t]\<rparr>))"

definition sema_up :: "sema \<Rightarrow> nat option \<times> sema" where
  "sema_up m =
     (case sm_waiting m of
        [] \<Rightarrow> (None, m\<lparr>sm_count := sm_count m + 1\<rparr>)
      | w # ws \<Rightarrow> (Some w, m\<lparr>sm_waiting := ws\<rparr>))"

text \<open>\<^verbatim>\<open>BlockingLock\<close> of \<^verbatim>\<open>blocking_lock.h\<close> is a semaphore that starts at one.\<close>

definition blocking_new :: sema where "blocking_new = sema_new 1"
definition blocking_lock :: "nat \<Rightarrow> sema \<Rightarrow> bool \<times> sema" where "blocking_lock = sema_down"
definition blocking_unlock :: "sema \<Rightarrow> nat option \<times> sema" where "blocking_unlock = sema_up"

section \<open>State\<close>

datatype bb_sem = nEmpty | nFull | bb_lock

text \<open>
  Where a thread is: outside; at one of the five statements of \<^verbatim>\<open>put\<close>, with the value it brings;
  at one of the five of \<^verbatim>\<open>get\<close>, with the value it took; or back from \<^verbatim>\<open>get\<close> with its result.
\<close>

datatype 'a bb_pc =
    Outside
  | PutEmpty 'a | PutLock 'a | PutBody 'a | PutUnlock | PutFull
  | GetFull | GetLock | GetBody | GetUnlock 'a | GetEmpty 'a
  | Returned 'a

text \<open>\<open>put_log\<close> and \<open>got_log\<close> record the values in the order they enter and leave the buffer.\<close>

record 'a bb =
  head :: u32
  bb_n :: u32
  bb_sems :: "bb_sem \<Rightarrow> sema"
  bb_N :: u32
  bb_data :: "'a list"
  bb_pc :: "nat \<Rightarrow> 'a bb_pc"
  put_log :: "'a list"
  got_log :: "'a list"

definition bb_new :: "u32 \<Rightarrow> 'a list \<Rightarrow> 'a bb" where
  "bb_new N garbage =
     \<lparr>head = 0, bb_n = 0,
      bb_sems = (\<lambda>k. case k of nEmpty \<Rightarrow> sema_new N | nFull \<Rightarrow> sema_new 0 | bb_lock \<Rightarrow> sema_new 1),
      bb_N = N, bb_data = garbage, bb_pc = (\<lambda>_. Outside), put_log = [], got_log = []\<rparr>"

section \<open>Steps\<close>

text \<open>Where a thread goes on when it has passed the \<^verbatim>\<open>down\<close> it was at.\<close>

fun passed :: "'a bb_pc \<Rightarrow> 'a bb_pc" where
  "passed (PutEmpty x) = PutLock x"
| "passed (PutLock x) = PutBody x"
| "passed GetFull = GetLock"
| "passed GetLock = GetBody"
| "passed p = p"

definition bb_down :: "bb_sem \<Rightarrow> nat \<Rightarrow> 'a bb \<Rightarrow> 'a bb" where
  "bb_down k t s =
     (let (go, m) = sema_down t (bb_sems s k); s = s\<lparr>bb_sems := (bb_sems s)(k := m)\<rparr>
      in if go then s\<lparr>bb_pc := (bb_pc s)(t := passed (bb_pc s t))\<rparr> else s)"

definition bb_up :: "bb_sem \<Rightarrow> nat \<Rightarrow> 'a bb_pc \<Rightarrow> 'a bb \<Rightarrow> 'a bb" where
  "bb_up k t p s =
     (let (woken, m) = sema_up (bb_sems s k); s = s\<lparr>bb_sems := (bb_sems s)(k := m), bb_pc := (bb_pc s)(t := p)\<rparr>
      in case woken of None \<Rightarrow> s | Some w \<Rightarrow> s\<lparr>bb_pc := (bb_pc s)(w := passed (bb_pc s w))\<rparr>)"

definition put_body :: "'a \<Rightarrow> 'a bb \<Rightarrow> 'a bb result" where
  "put_body x s =
     (if bb_N s = 0 then Inl DivideByZero
      else
        let i = unat ((head s + bb_n s) mod bb_N s)
        in if i < length (bb_data s)
           then Inr (s\<lparr>bb_data := (bb_data s)[i := x], bb_n := bb_n s + 1, put_log := put_log s @ [x]\<rparr>)
           else Inl OutOfRange)"

definition get_body :: "'a bb \<Rightarrow> ('a \<times> 'a bb) result" where
  "get_body s =
     (if unat (head s) < length (bb_data s) then
        let v = bb_data s ! unat (head s)
        in if bb_N s = 0 then Inl DivideByZero
           else Inr (v, s\<lparr>head := (head s + 1) mod bb_N s, bb_n := bb_n s - 1, got_log := got_log s @ [v]\<rparr>)
      else Inl OutOfRange)"

text \<open>The next step of thread \<open>t\<close>; a thread in no call stays where it is.\<close>

definition bb_go :: "nat \<Rightarrow> 'a bb \<Rightarrow> 'a bb result" where
  "bb_go t s =
     (case bb_pc s t of
        Outside \<Rightarrow> Inr s
      | PutEmpty x \<Rightarrow> Inr (bb_down nEmpty t s)
      | PutLock x \<Rightarrow> Inr (bb_down bb_lock t s)
      | PutBody x \<Rightarrow> bindR (put_body x s) (\<lambda>s. Inr (s\<lparr>bb_pc := (bb_pc s)(t := PutUnlock)\<rparr>))
      | PutUnlock \<Rightarrow> Inr (bb_up bb_lock t PutFull s)
      | PutFull \<Rightarrow> Inr (bb_up nFull t Outside s)
      | GetFull \<Rightarrow> Inr (bb_down nFull t s)
      | GetLock \<Rightarrow> Inr (bb_down bb_lock t s)
      | GetBody \<Rightarrow> bindR (get_body s) (\<lambda>(v, s). Inr (s\<lparr>bb_pc := (bb_pc s)(t := GetUnlock v)\<rparr>))
      | GetUnlock v \<Rightarrow> Inr (bb_up bb_lock t (GetEmpty v) s)
      | GetEmpty v \<Rightarrow> Inr (bb_up nEmpty t (Returned v) s)
      | Returned v \<Rightarrow> Inr s)"

definition waits :: "'a bb \<Rightarrow> nat \<Rightarrow> bool" where
  "waits s t \<longleftrightarrow> t \<in> set (sm_waiting (bb_sems s nEmpty)) \<or> t \<in> set (sm_waiting (bb_sems s nFull)) \<or>
     t \<in> set (sm_waiting (bb_sems s bb_lock))"

fun in_call :: "'a bb_pc \<Rightarrow> bool" where
  "in_call Outside = False"
| "in_call (Returned v) = False"
| "in_call p = True"

text \<open>The states of a buffer of capacity \<open>N\<close>: threads call \<^verbatim>\<open>put\<close> and \<^verbatim>\<open>get\<close> and make steps.\<close>

inductive bb_reach :: "u32 \<Rightarrow> 'a bb \<Rightarrow> bool" for N where
  new: "length g = unat N \<Longrightarrow> bb_reach N (bb_new N g)"
| call_put: "bb_reach N s \<Longrightarrow> \<not> in_call (bb_pc s t) \<Longrightarrow> bb_reach N (s\<lparr>bb_pc := (bb_pc s)(t := PutEmpty x)\<rparr>)"
| call_get: "bb_reach N s \<Longrightarrow> \<not> in_call (bb_pc s t) \<Longrightarrow> bb_reach N (s\<lparr>bb_pc := (bb_pc s)(t := GetFull)\<rparr>)"
| go: "bb_reach N s \<Longrightarrow> \<not> waits s t \<Longrightarrow> bb_go t s = Inr s' \<Longrightarrow> bb_reach N s'"

section \<open>Counting threads\<close>

text \<open>
  The threads that hold a slot of the buffer, those whose slot has an item in it, those that hold
  the lock, and those at a \<^verbatim>\<open>down\<close> on a given semaphore.
\<close>

fun slot_holder :: "'a bb_pc \<Rightarrow> bool" where
  "slot_holder Outside = False" | "slot_holder (Returned v) = False" | "slot_holder (PutEmpty x) = False"
| "slot_holder GetFull = False" | "slot_holder p = True"

fun item_holder :: "'a bb_pc \<Rightarrow> bool" where
  "item_holder PutUnlock = True" | "item_holder PutFull = True" | "item_holder GetLock = True"
| "item_holder GetBody = True" | "item_holder p = False"

fun lock_holder :: "'a bb_pc \<Rightarrow> bool" where
  "lock_holder (PutBody x) = True" | "lock_holder PutUnlock = True" | "lock_holder GetBody = True"
| "lock_holder (GetUnlock v) = True" | "lock_holder p = False"

fun at_down :: "bb_sem \<Rightarrow> 'a bb_pc \<Rightarrow> bool" where
  "at_down nEmpty (PutEmpty x) = True" | "at_down nFull GetFull = True"
| "at_down bb_lock (PutLock x) = True" | "at_down bb_lock GetLock = True" | "at_down k p = False"

lemma holder_in_call: "slot_holder p \<Longrightarrow> in_call p" "item_holder p \<Longrightarrow> in_call p" "lock_holder p \<Longrightarrow> in_call p"
  by (cases p; simp)+

definition number_of :: "('a bb_pc \<Rightarrow> bool) \<Rightarrow> (nat \<Rightarrow> 'a bb_pc) \<Rightarrow> nat" where
  "number_of P pc = card {t. P (pc t)}"

lemma number_of_upd:
  assumes "finite {t. in_call (pc t)}" "\<And>p. P p \<Longrightarrow> in_call p"
  shows "number_of P (pc(t := p)) + of_bool (P (pc t)) = number_of P pc + of_bool (P p)"
proof -
  let ?S = "{u. u \<noteq> t \<and> P (pc u)}"
  have f: "finite ?S" by (rule finite_subset [OF _ assms(1)]) (use assms(2) in auto)
  have "{u. P ((pc(t := p)) u)} = (if P p then insert t ?S else ?S)" "{u. P (pc u)} = (if P (pc t) then insert t ?S else ?S)" by auto
  then show ?thesis using f by (simp add: number_of_def)
qed

lemma in_call_finite_upd: "finite {t. in_call (pc t)} \<Longrightarrow> finite {u. in_call ((pc(t := p)) u)}"
  by (rule finite_subset [of _ "insert t {t. in_call (pc t)}"]) auto

section \<open>The invariant\<close>

text \<open>Slots accounted for, slots with an item, and locks: the tokens of the three semaphores.\<close>

definition tokens :: "bb_sem \<Rightarrow> 'a bb \<Rightarrow> nat" where
  "tokens k s = unat (sm_count (bb_sems s k))"

definition slots :: "'a bb \<Rightarrow> nat" where
  "slots s = tokens nEmpty s + tokens nFull s + number_of slot_holder (bb_pc s)"

definition items :: "'a bb \<Rightarrow> nat" where
  "items s = tokens nFull s + number_of item_holder (bb_pc s)"

definition locks :: "'a bb \<Rightarrow> nat" where
  "locks s = tokens bb_lock s + number_of lock_holder (bb_pc s)"

definition waiting_ok :: "'a bb \<Rightarrow> bool" where
  "waiting_ok s \<longleftrightarrow> finite {t. in_call (bb_pc s t)} \<and> (\<forall>k. distinct (sm_waiting (bb_sems s k)) \<and>
     (\<forall>t \<in> set (sm_waiting (bb_sems s k)). at_down k (bb_pc s t)))"

lemma at_down_unique: "at_down k p \<Longrightarrow> at_down l p \<Longrightarrow> k = l"
  by (cases k; cases l; cases p; simp)

lemma set_pc_counts:
  assumes "waiting_ok s"
  shows "slots (s\<lparr>bb_pc := (bb_pc s)(t := p)\<rparr>) + of_bool (slot_holder (bb_pc s t)) = slots s + of_bool (slot_holder p)"
    "items (s\<lparr>bb_pc := (bb_pc s)(t := p)\<rparr>) + of_bool (item_holder (bb_pc s t)) = items s + of_bool (item_holder p)"
    "locks (s\<lparr>bb_pc := (bb_pc s)(t := p)\<rparr>) + of_bool (lock_holder (bb_pc s t)) = locks s + of_bool (lock_holder p)"
  using assms number_of_upd [of "bb_pc s" slot_holder t p, OF _ holder_in_call(1)]
    number_of_upd [of "bb_pc s" item_holder t p, OF _ holder_in_call(2)]
    number_of_upd [of "bb_pc s" lock_holder t p, OF _ holder_in_call(3)]
  by (simp_all add: waiting_ok_def slots_def items_def locks_def tokens_def)

lemma set_pc_waiting:
  assumes "waiting_ok s" "\<not> waits s t"
  shows "waiting_ok (s\<lparr>bb_pc := (bb_pc s)(t := p)\<rparr>)"
proof -
  have "t \<notin> set (sm_waiting (bb_sems s k))" for k using assms(2) by (cases k) (auto simp: waits_def)
  then show ?thesis using assms(1) in_call_finite_upd [of "bb_pc s" t p] by (auto simp: waiting_ok_def)
qed

lemma passed_counts:
  assumes "at_down k p"
  shows "slot_holder (passed p) \<longleftrightarrow> slot_holder p \<or> k \<noteq> bb_lock" "slot_holder p \<longleftrightarrow> k = bb_lock"
    "item_holder (passed p) \<longleftrightarrow> item_holder p \<or> k = nFull" "item_holder p \<longrightarrow> k = bb_lock"
    "lock_holder (passed p) \<longleftrightarrow> k = bb_lock" "\<not> lock_holder p"
  using assms by (cases k; cases p; simp)+

text \<open>A \<^verbatim>\<open>down\<close> moves a token from a semaphore to a thread, or the thread starts to wait.\<close>

lemma bb_down_ok:
  assumes w: "waiting_ok s" and t: "at_down k (bb_pc s t)" "\<not> waits s t"
  shows "waiting_ok (bb_down k t s) \<and> slots (bb_down k t s) = slots s \<and> items (bb_down k t s) = items s \<and>
    locks (bb_down k t s) = locks s"
proof (cases "sm_count (bb_sems s k) > 0")
  case True
  let ?m = "(bb_sems s k)\<lparr>sm_count := sm_count (bb_sems s k) - 1\<rparr>"
  let ?s1 = "s\<lparr>bb_sems := (bb_sems s)(k := ?m)\<rparr>"
  have d: "bb_down k t s = ?s1\<lparr>bb_pc := (bb_pc s)(t := passed (bb_pc s t))\<rparr>"
    using True by (simp add: bb_down_def sema_down_def)
  have c: "unat (sm_count ?m) + 1 = unat (sm_count (bb_sems s k))"
    using True by (simp add: unat_minus_one word_greater_zero_iff unat_gt_0)
  have w1: "waiting_ok ?s1" "\<not> waits ?s1 t" using w t(2) by (auto simp: waiting_ok_def waits_def)
  have "slots ?s1 + of_bool (k \<noteq> bb_lock) = slots s" "items ?s1 + of_bool (k = nFull) = items s" "locks ?s1 + of_bool (k = bb_lock) = locks s"
    using c by (cases k; simp add: slots_def items_def locks_def tokens_def)+
  then show ?thesis
    using set_pc_counts [OF w1(1), of t "passed (bb_pc s t)"] set_pc_waiting [OF w1, of "passed (bb_pc s t)"] passed_counts [OF t(1)]
    unfolding d by (cases "k = bb_lock"; cases "k = nFull") auto
next
  case False
  have "t \<notin> set (sm_waiting (bb_sems s k))" using t(2) by (cases k) (auto simp: waits_def)
  moreover have "bb_down k t s = s\<lparr>bb_sems := (bb_sems s)(k := (bb_sems s k)\<lparr>sm_waiting := sm_waiting (bb_sems s k) @ [t]\<rparr>)\<rparr>"
    using False by (simp add: bb_down_def sema_down_def)
  ultimately show ?thesis using w t(1) by (auto simp: waiting_ok_def slots_def items_def locks_def tokens_def number_of_def)
qed

text \<open>An \<^verbatim>\<open>up\<close> gives a token to the semaphore or to the thread that has waited longest.\<close>

lemma bb_up_ok:
  assumes w: "waiting_ok s" and t: "\<not> waits s t" and n: "tokens k s < 2 ^ 64 - 1"
  shows "waiting_ok (bb_up k t p s)"
    "slots (bb_up k t p s) + of_bool (slot_holder (bb_pc s t)) = slots s + of_bool (slot_holder p) + of_bool (k \<noteq> bb_lock)"
    "items (bb_up k t p s) + of_bool (item_holder (bb_pc s t)) = items s + of_bool (item_holder p) + of_bool (k = nFull)"
    "locks (bb_up k t p s) + of_bool (lock_holder (bb_pc s t)) = locks s + of_bool (lock_holder p) + of_bool (k = bb_lock)"
proof -
  let ?s1 = "s\<lparr>bb_pc := (bb_pc s)(t := p)\<rparr>"
  note W1 = set_pc_waiting [OF w t, of p] and C1 = set_pc_counts [OF w, of t p]
  have "waiting_ok (bb_up k t p s) \<and> slots (bb_up k t p s) = slots ?s1 + of_bool (k \<noteq> bb_lock) \<and>
    items (bb_up k t p s) = items ?s1 + of_bool (k = nFull) \<and> locks (bb_up k t p s) = locks ?s1 + of_bool (k = bb_lock)"
  proof (cases "sm_waiting (bb_sems s k)")
    case Nil
    have u: "bb_up k t p s = ?s1\<lparr>bb_sems := (bb_sems s)(k := (bb_sems s k)\<lparr>sm_count := sm_count (bb_sems s k) + 1\<rparr>)\<rparr>"
      using Nil by (simp add: bb_up_def sema_up_def)
    have "unat (sm_count (bb_sems s k) + 1) = unat (sm_count (bb_sems s k)) + 1"
      using n by (subst unat_add_lem [THEN iffD1]) (simp_all add: tokens_def)
    then show ?thesis unfolding u using W1 by (cases k) (auto simp: waiting_ok_def slots_def items_def locks_def tokens_def)
  next
    case (Cons v ws)
    let ?s2 = "?s1\<lparr>bb_sems := (bb_sems s)(k := (bb_sems s k)\<lparr>sm_waiting := ws\<rparr>)\<rparr>"
    have v: "at_down k (bb_pc ?s1 v)" "v \<notin> set ws" using W1 Cons by (auto simp: waiting_ok_def dest!: spec [of _ k])
    have u: "bb_up k t p s = ?s2\<lparr>bb_pc := (bb_pc ?s2)(v := passed (bb_pc ?s2 v))\<rparr>"
      using Cons by (simp add: bb_up_def sema_up_def)
    have w2: "waiting_ok ?s2" using W1 Cons unfolding waiting_ok_def by (auto dest!: spec [of _ k])
    have nd: "\<not> at_down l (bb_pc ?s2 v)" if "l \<noteq> k" for l using at_down_unique [of k _ l] v(1) that by auto
    have "v \<notin> set (sm_waiting (bb_sems ?s2 l))" for l
    proof (cases "l = k")
      case False
      have "\<forall>u \<in> set (sm_waiting (bb_sems ?s2 l)). at_down l (bb_pc ?s2 u)" using w2 unfolding waiting_ok_def by blast
      then show ?thesis using nd [OF False] by blast
    qed (use v(2) in simp)
    then have nw: "\<not> waits ?s2 v" by (simp add: waits_def)
    have "slots ?s2 = slots ?s1" "items ?s2 = items ?s1" "locks ?s2 = locks ?s1"
      by (simp_all add: slots_def items_def locks_def tokens_def)
    then show ?thesis
      using set_pc_counts [OF w2, of v "passed (bb_pc ?s2 v)"] set_pc_waiting [OF w2 nw, of "passed (bb_pc ?s2 v)"] passed_counts [OF v(1)]
      unfolding u by (cases "k = bb_lock"; cases "k = nFull") auto
  qed
  then show "waiting_ok (bb_up k t p s)"
    "slots (bb_up k t p s) + of_bool (slot_holder (bb_pc s t)) = slots s + of_bool (slot_holder p) + of_bool (k \<noteq> bb_lock)"
    "items (bb_up k t p s) + of_bool (item_holder (bb_pc s t)) = items s + of_bool (item_holder p) + of_bool (k = nFull)"
    "locks (bb_up k t p s) + of_bool (lock_holder (bb_pc s t)) = locks s + of_bool (lock_holder p) + of_bool (k = bb_lock)"
    using C1 by simp_all
qed

section \<open>The ring\<close>

definition ring :: "nat \<Rightarrow> nat \<Rightarrow> 'a list \<Rightarrow> nat \<Rightarrow> 'a list" where
  "ring h m d k = map (\<lambda>j. d ! ((h + j) mod m)) [0..<k]"

lemma ring_put:
  assumes "length d = m" "k < m"
  shows "ring h m (d[(h + k) mod m := x]) (Suc k) = ring h m d k @ [x]"
proof -
  have "(h + j) mod m \<noteq> (h + k) mod m" if "j < k" for j
  proof
    assume "(h + j) mod m = (h + k) mod m"
    then have "m dvd (h + k) - (h + j)" using that by (subst mod_eq_dvd_iff_nat [symmetric]) simp_all
    then show False using that assms(2) by (auto dest: dvd_imp_le)
  qed
  moreover have "(h + k) mod m < m" using assms by simp
  ultimately show ?thesis using assms(1) by (auto simp: ring_def nth_list_update) metis
qed

lemma ring_get: "0 < k \<Longrightarrow> ring h m d k = d ! (h mod m) # ring ((h + 1) mod m) m d (k - 1)"
proof -
  assume "0 < k"
  then obtain k' where k: "k = Suc k'" by (cases k) auto
  have "(h + Suc j) mod m = ((h + 1) mod m + j) mod m" for j by (simp add: mod_simps)
  then show ?thesis unfolding k ring_def by (simp add: upt_conv_Cons map_Suc_upt [symmetric] del: upt_Suc)
qed

definition contents :: "'a bb \<Rightarrow> 'a list" where
  "contents s = ring (unat (head s)) (unat (bb_N s)) (bb_data s) (unat (bb_n s))"

definition bb_inv :: "u32 \<Rightarrow> 'a bb \<Rightarrow> bool" where
  "bb_inv N s \<longleftrightarrow> waiting_ok s \<and> bb_N s = N \<and> length (bb_data s) = unat N \<and> head s < N \<and>
     slots s = unat N \<and> items s = unat (bb_n s) \<and> locks s = 1 \<and> put_log s = got_log s @ contents s"

lemma holder_counts:
  assumes "waiting_ok s"
  shows "slot_holder (bb_pc s t) \<Longrightarrow> \<not> item_holder (bb_pc s t) \<Longrightarrow> items s < slots s"
    "item_holder (bb_pc s t) \<Longrightarrow> 0 < items s"
proof -
  have f: "finite {u. slot_holder (bb_pc s u)}" "finite {u. item_holder (bb_pc s u)}"
    using assms by (auto simp: waiting_ok_def dest: holder_in_call elim: finite_subset [rotated])
  have "item_holder p \<Longrightarrow> slot_holder p" for p :: "'a bb_pc" by (cases p) simp_all
  then have le: "{u. item_holder (bb_pc s u)} \<subseteq> {u. slot_holder (bb_pc s u)}" by auto
  show "items s < slots s" if "slot_holder (bb_pc s t)" "\<not> item_holder (bb_pc s t)"
  proof -
    have "{u. item_holder (bb_pc s u)} \<subset> {u. slot_holder (bb_pc s u)}" using le that by blast
    then have "number_of item_holder (bb_pc s) < number_of slot_holder (bb_pc s)"
      unfolding number_of_def by (rule psubset_card_mono [OF f(1)])
    then show ?thesis by (simp add: items_def slots_def)
  qed
  show "0 < items s" if "item_holder (bb_pc s t)"
    using that f(2) by (auto simp: items_def number_of_def card_gt_0_iff)
qed

lemma put_body_ok:
  assumes v: "bb_inv N s" and N: "unat N \<le> 2 ^ 31" and t: "bb_pc s t = PutBody x" "\<not> waits s t"
  shows "\<exists>s'. bb_go t s = Inr s' \<and> bb_inv N s'"
proof -
  have w: "waiting_ok s" and i: "unat (bb_n s) = items s" "slots s = unat N" and h: "unat (head s) < unat N" "bb_N s = N" "length (bb_data s) = unat N"
    using v by (auto simp: bb_inv_def word_less_nat_alt)
  have n: "unat (bb_n s) < unat N" using holder_counts(1) [OF w, of t] t i by simp
  then have N0: "N \<noteq> 0" by auto
  have idx: "unat ((head s + bb_n s) mod N) = (unat (head s) + unat (bb_n s)) mod unat N"
    using n h(1) N by (simp add: unat_mod unat_add_lem [THEN iffD1])
  let ?d = "(bb_data s)[(unat (head s) + unat (bb_n s)) mod unat N := x]"
  let ?s1 = "s\<lparr>bb_data := ?d, bb_n := bb_n s + 1, put_log := put_log s @ [x]\<rparr>"
  let ?s2 = "?s1\<lparr>bb_pc := (bb_pc ?s1)(t := PutUnlock)\<rparr>"
  have g: "bb_go t s = Inr ?s2" using N0 n by (simp add: bb_go_def t(1) put_body_def h idx Let_def)
  have n1: "unat (bb_n s + 1) = unat (bb_n s) + 1" using n N by (subst unat_add_lem [THEN iffD1]) simp_all
  have w1: "waiting_ok ?s1" "\<not> waits ?s1 t" and e: "slots ?s1 = slots s" "items ?s1 = items s" "locks ?s1 = locks s"
    using w t(2) by (simp_all add: waiting_ok_def waits_def slots_def items_def locks_def tokens_def)
  have "contents ?s2 = contents s @ [x]" using ring_put [OF h(3) n, of "unat (head s)" x] by (simp add: contents_def h n1)
  then have "bb_inv N ?s2"
    using set_pc_counts [OF w1(1), of t PutUnlock] set_pc_waiting [OF w1, of PutUnlock] e v t(1) n1 by (simp add: bb_inv_def)
  with g show ?thesis by blast
qed

lemma get_body_ok:
  assumes v: "bb_inv N s" and N: "unat N \<le> 2 ^ 31" and t: "bb_pc s t = GetBody" "\<not> waits s t"
  shows "\<exists>s'. bb_go t s = Inr s' \<and> bb_inv N s'"
proof -
  have w: "waiting_ok s" and i: "unat (bb_n s) = items s" "slots s = unat N" and h: "unat (head s) < unat N" "bb_N s = N" "length (bb_data s) = unat N"
    using v by (auto simp: bb_inv_def word_less_nat_alt)
  have n: "0 < unat (bb_n s)" using holder_counts(2) [OF w, of t] t i by simp
  have N0: "N \<noteq> 0" using h(1) by auto
  let ?v = "bb_data s ! unat (head s)"
  let ?s1 = "s\<lparr>head := (head s + 1) mod N, bb_n := bb_n s - 1, got_log := got_log s @ [?v]\<rparr>"
  let ?s2 = "?s1\<lparr>bb_pc := (bb_pc ?s1)(t := GetUnlock ?v)\<rparr>"
  have g: "bb_go t s = Inr ?s2" using N0 h by (simp add: bb_go_def t(1) get_body_def Let_def)
  have h1: "unat ((head s + 1) mod N) = (unat (head s) + 1) mod unat N"
    using h(1) N by (simp add: unat_mod unat_add_lem [THEN iffD1])
  have n1: "unat (bb_n s - 1) = unat (bb_n s) - 1" using n by (subst unat_minus_one) auto
  have w1: "waiting_ok ?s1" "\<not> waits ?s1 t" and e: "slots ?s1 = slots s" "items ?s1 = items s" "locks ?s1 = locks s"
    using w t(2) by (simp_all add: waiting_ok_def waits_def slots_def items_def locks_def tokens_def)
  have "contents s = ?v # contents ?s2" using ring_get [OF n, of "unat (head s)" "unat N" "bb_data s"] h(1) by (simp add: contents_def h h1 n1)
  moreover have "(head s + 1) mod N < N" using h(1) by (simp add: word_less_nat_alt h1)
  ultimately have "bb_inv N ?s2"
    using set_pc_counts [OF w1(1), of t "GetUnlock ?v"] set_pc_waiting [OF w1, of "GetUnlock ?v"] e v t(1) n n1 by (simp add: bb_inv_def)
  with g show ?thesis by blast
qed

section \<open>The buffer is a queue\<close>

lemma bb_new_inv: "length g = unat N \<Longrightarrow> 0 < N \<Longrightarrow> bb_inv N (bb_new N g)"
  using unat_bound [of N]
  by (simp add: bb_inv_def bb_new_def waiting_ok_def slots_def items_def locks_def tokens_def number_of_def sema_new_def
      contents_def ring_def unsigned_ucast_eq take_bit_nat_def split: bb_sem.split)

lemma token_bound:
  assumes "bb_inv N s"
  shows "tokens k s < 2 ^ 64 - 1"
proof -
  have "tokens nEmpty s \<le> unat N" "tokens nFull s \<le> unat N" "tokens bb_lock s \<le> 1"
    using assms by (auto simp: bb_inv_def slots_def locks_def)
  then show ?thesis using unat_bound [of N] by (cases k) auto
qed

lemma bb_down_data [simp]: "head (bb_down k t s) = head s" "bb_n (bb_down k t s) = bb_n s" "bb_N (bb_down k t s) = bb_N s"
  "bb_data (bb_down k t s) = bb_data s" "put_log (bb_down k t s) = put_log s" "got_log (bb_down k t s) = got_log s"
  by (simp_all add: bb_down_def sema_down_def)

lemma bb_up_data [simp]: "head (bb_up k t p s) = head s" "bb_n (bb_up k t p s) = bb_n s" "bb_N (bb_up k t p s) = bb_N s"
  "bb_data (bb_up k t p s) = bb_data s" "put_log (bb_up k t p s) = put_log s" "got_log (bb_up k t p s) = got_log s"
  by (simp_all add: bb_up_def sema_up_def split: list.splits)

lemma bb_go_ok:
  assumes v: "bb_inv N s" and N: "unat N \<le> 2 ^ 31" and t: "\<not> waits s t"
  shows "\<exists>s'. bb_go t s = Inr s' \<and> bb_inv N s'"
proof -
  have w: "waiting_ok s" using v by (simp add: bb_inv_def)
  have down: "bb_inv N (bb_down k t s)" if "at_down k (bb_pc s t)" for k
    using bb_down_ok [OF w that t] v by (simp add: bb_inv_def contents_def)
  have up: "bb_inv N (bb_up k t p s)"
    if "slot_holder (bb_pc s t)" "slot_holder p \<longleftrightarrow> k = bb_lock" "item_holder (bb_pc s t) \<longleftrightarrow> item_holder p \<or> k = nFull"
      "item_holder p \<longrightarrow> k \<noteq> nFull" "lock_holder (bb_pc s t) \<longleftrightarrow> k = bb_lock" "\<not> lock_holder p" for k p
    using bb_up_ok [OF w t token_bound [OF v], of k p] v that
    by (cases "k = bb_lock"; cases "item_holder p"; cases "k = nFull"; simp add: bb_inv_def contents_def)
  show ?thesis
  proof (cases "bb_pc s t")
    case (PutBody x)
    then show ?thesis using put_body_ok [OF v N _ t] by blast
  next
    case GetBody
    then show ?thesis using get_body_ok [OF v N _ t] by blast
  qed (use v down [of nEmpty] down [of nFull] down [of bb_lock] in \<open>auto simp: bb_go_def intro!: up\<close>)
qed

lemma at_down_in_call: "at_down k p \<Longrightarrow> in_call p"
  by (cases k; cases p; simp)

lemma bb_reach_inv: "bb_reach N s \<Longrightarrow> 0 < N \<Longrightarrow> unat N \<le> 2 ^ 31 \<Longrightarrow> bb_inv N s"
proof (induction rule: bb_reach.induct)
  case (new g)
  then show ?case by (simp add: bb_new_inv)
next
  case (call_put s t x)
  then have v: "bb_inv N s" and nw: "\<not> waits s t" by (auto simp: bb_inv_def waiting_ok_def waits_def) (metis at_down_in_call)+
  then show ?case using set_pc_counts [of s t "PutEmpty x"] set_pc_waiting [of s t "PutEmpty x"] call_put.hyps(2)
    by (cases "bb_pc s t") (auto simp: bb_inv_def contents_def)
next
  case (call_get s t)
  then have v: "bb_inv N s" and nw: "\<not> waits s t" by (auto simp: bb_inv_def waiting_ok_def waits_def) (metis at_down_in_call)+
  then show ?case using set_pc_counts [of s t GetFull] set_pc_waiting [of s t GetFull] call_get.hyps(2)
    by (cases "bb_pc s t") (auto simp: bb_inv_def contents_def)
next
  case (go s t s')
  then show ?case using bb_go_ok [of N s t] by auto
qed

text \<open>
  C34. The buffer is a queue, whatever threads use it and however they interleave: the values
  taken out are a prefix of the values put in, in the same order, and the rest are the contents of
  the buffer, at most \<open>N\<close>. No more than one thread is between the two operations on the lock, and
  the next step of a thread that does not wait succeeds: it never writes outside the array, takes
  from an empty buffer or overwrites an item.
\<close>

theorem bounded_buffer_is_queue:
  assumes "bb_reach N s" "0 < N" "unat N \<le> 2 ^ 31"
  shows "put_log s = got_log s @ contents s \<and> length (contents s) \<le> unat N \<and>
    card {t. lock_holder (bb_pc s t)} \<le> 1 \<and>
    (\<forall>t. \<not> waits s t \<longrightarrow> (\<exists>s'. bb_go t s = Inr s' \<and> bb_reach N s'))"
proof -
  have v: "bb_inv N s" by (rule bb_reach_inv [OF assms])
  have "items s \<le> slots s"
  proof -
    have w: "waiting_ok s" using v by (simp add: bb_inv_def)
    have "item_holder p \<Longrightarrow> slot_holder p" for p :: "'a bb_pc" by (cases p) simp_all
    then have "{u. item_holder (bb_pc s u)} \<subseteq> {u. slot_holder (bb_pc s u)}" by auto
    moreover have "finite {u. slot_holder (bb_pc s u)}"
      using w by (auto simp: waiting_ok_def dest: holder_in_call elim: finite_subset [rotated])
    ultimately show ?thesis by (auto simp: items_def slots_def number_of_def intro: trans_le_add2 card_mono)
  qed
  then have "length (contents s) \<le> unat N" using v by (simp add: bb_inv_def contents_def ring_def)
  moreover have "card {t. lock_holder (bb_pc s t)} \<le> 1" using v by (simp add: bb_inv_def locks_def number_of_def)
  moreover have "\<exists>s'. bb_go t s = Inr s' \<and> bb_reach N s'" if "\<not> waits s t" for t
    using bb_go_ok [OF v assms(3) that] bb_reach.go [OF assms(1) that] by blast
  ultimately show ?thesis using v by (simp add: bb_inv_def)
qed

text \<open>Two threads and a buffer of two slots; the first has put 5 when the second calls \<^verbatim>\<open>get\<close>.\<close>

theorem bounded_buffer_is_queue_witness:
  "\<exists>s :: nat bb. bb_reach 2 s \<and> put_log s = [5] \<and> got_log s @ contents s = [5] \<and> bb_pc s 2 = GetFull"
proof -
  define s0 :: "nat bb" where "s0 = bb_new 2 [0, 0]"
  define s1 where "s1 = s0\<lparr>bb_pc := (bb_pc s0)(1 := PutEmpty 5)\<rparr>"
  define s2 where "s2 = bb_down nEmpty 1 s1"
  define s3 where "s3 = bb_down bb_lock 1 s2"
  define s4 where "s4 = s3\<lparr>bb_data := [5, 0], bb_n := 1, put_log := [5], bb_pc := (bb_pc s3)(1 := PutUnlock)\<rparr>"
  define s5 where "s5 = s4\<lparr>bb_pc := (bb_pc s4)(2 := GetFull)\<rparr>"
  note defs = s0_def s1_def s2_def s3_def s4_def s5_def bb_new_def bb_down_def sema_down_def sema_new_def waits_def
  have r1: "bb_reach 2 s1" unfolding s1_def by (rule bb_reach.call_put) (simp_all add: s0_def bb_reach.new, simp add: bb_new_def)
  have r2: "bb_reach 2 s2" by (rule bb_reach.go [OF r1, of 1]) (simp_all add: defs bb_go_def)
  have r3: "bb_reach 2 s3" by (rule bb_reach.go [OF r2, of 1]) (simp_all add: defs bb_go_def)
  have "bb_reach 2 s4" by (rule bb_reach.go [OF r3, of 1]) (simp_all add: defs bb_go_def put_body_def)
  then have r5: "bb_reach 2 s5" unfolding s5_def by (rule bb_reach.call_get) (simp add: defs)
  have "put_log s5 = [5]" "bb_pc s5 2 = GetFull" by (simp_all add: defs)
  then show ?thesis using r5 bounded_buffer_is_queue [OF r5] by auto
qed

end
