(* ===== verification/Barrier.thy ===== *)
theory Barrier
  imports Buffer
begin

text \<open>
  The barriers of \<^verbatim>\<open>src/kernel/barrier.h\<close> and the condition variable of \<^verbatim>\<open>condition.h\<close> the second one
  is built on, used by any number of threads whose steps interleave.
\<close>

section \<open>The barrier that is used once\<close>

text \<open>
  Where a thread is: before \<^verbatim>\<open>sync\<close>; at the \<^verbatim>\<open>down\<close> of the semaphore; at the \<^verbatim>\<open>up\<close>; through.
\<close>

datatype bar_pc = Before | AtDown | AtUp | Through

record barrier =
  bar_count :: u32
  bar_sem :: sema
  bar_pc :: "nat \<Rightarrow> bar_pc"

text \<open>A barrier for threads \<open>0\<close> to \<open>N - 1\<close>; the others have nothing to do with it.\<close>

definition barrier_new :: "u32 \<Rightarrow> barrier" where
  "barrier_new N = \<lparr>bar_count = N, bar_sem = sema_new 0, bar_pc = (\<lambda>t. if t < unat N then Before else Through)\<rparr>"

definition barrier_go :: "nat \<Rightarrow> barrier \<Rightarrow> barrier result" where
  "barrier_go t s =
     (case bar_pc s t of
        Before \<Rightarrow>
          (let x = bar_count s - 1
           in if sint x < 0 then Inl (Panic ''count went negative in barrier'')
              else Inr (s\<lparr>bar_count := x, bar_pc := (bar_pc s)(t := if x = 0 then AtUp else AtDown)\<rparr>))
      | AtDown \<Rightarrow>
          (let (go, m) = sema_down t (bar_sem s); s = s\<lparr>bar_sem := m\<rparr>
           in Inr (if go then s\<lparr>bar_pc := (bar_pc s)(t := AtUp)\<rparr> else s))
      | AtUp \<Rightarrow>
          (let (woken, m) = sema_up (bar_sem s); s = s\<lparr>bar_sem := m, bar_pc := (bar_pc s)(t := Through)\<rparr>
           in Inr (case woken of None \<Rightarrow> s | Some w \<Rightarrow> s\<lparr>bar_pc := (bar_pc s)(w := AtUp)\<rparr>))
      | Through \<Rightarrow> Inr s)"

text \<open>A thread can make a step when it is not through and does not wait for the semaphore.\<close>

definition can_go :: "barrier \<Rightarrow> nat \<Rightarrow> bool" where
  "can_go s t \<longleftrightarrow> bar_pc s t \<noteq> Through \<and> t \<notin> set (sm_waiting (bar_sem s))"

text \<open>The states after \<open>k\<close> steps.\<close>

inductive bar_run :: "u32 \<Rightarrow> nat \<Rightarrow> barrier \<Rightarrow> bool" for N where
  new: "bar_run N 0 (barrier_new N)"
| go: "bar_run N k s \<Longrightarrow> can_go s t \<Longrightarrow> barrier_go t s = Inr s' \<Longrightarrow> bar_run N (Suc k) s'"

text \<open>The steps a thread has still to make, and the threads at a place.\<close>

fun bar_rank :: "bool \<Rightarrow> bar_pc \<Rightarrow> nat" where
  "bar_rank w Before = 4"
| "bar_rank w AtDown = (if w then 2 else 3)"
| "bar_rank w AtUp = 1"
| "bar_rank w Through = 0"

definition bar_left :: "nat \<Rightarrow> barrier \<Rightarrow> nat" where
  "bar_left n s = (\<Sum>t < n. bar_rank (t \<in> set (sm_waiting (bar_sem s))) (bar_pc s t))"

definition bar_inv :: "nat \<Rightarrow> barrier \<Rightarrow> bool" where
  "bar_inv n s \<longleftrightarrow>
     (\<forall>t \<ge> n. bar_pc s t = Through) \<and> unat (bar_count s) = card {t. bar_pc s t = Before} \<and>
     distinct (sm_waiting (bar_sem s)) \<and> (\<forall>t \<in> set (sm_waiting (bar_sem s)). bar_pc s t = AtDown) \<and>
     (sm_waiting (bar_sem s) \<noteq> [] \<longrightarrow> sm_count (bar_sem s) = 0) \<and>
     (if bar_count s = 0 then unat (sm_count (bar_sem s)) + card {t. bar_pc s t = AtUp} = 1
      else sm_count (bar_sem s) = 0 \<and> (\<forall>t < n. bar_pc s t \<noteq> AtUp \<and> bar_pc s t \<noteq> Through))"

lemma bar_finite: "\<forall>t \<ge> n. pc t = Through \<Longrightarrow> p \<noteq> Through \<Longrightarrow> finite {t. pc t = p}" for pc :: "nat \<Rightarrow> bar_pc"
  by (rule finite_subset [of _ "{..<n}"]) (auto simp: not_le [symmetric])

lemma card_pc_upd:
  assumes "finite {u. pc u = p}"
  shows "card {u. (pc(t := q)) u = p} + of_bool (pc t = p) = card {u. pc u = p} + of_bool (q = p)"
proof -
  let ?S = "{u. u \<noteq> t \<and> pc u = p}"
  have "finite ?S" by (rule finite_subset [OF _ assms]) auto
  moreover have "{u. (pc(t := q)) u = p} = (if q = p then insert t ?S else ?S)"
    "{u. pc u = p} = (if pc t = p then insert t ?S else ?S)" by auto
  ultimately show ?thesis by simp
qed

lemma bar_left_less:
  assumes "t < n" "bar_rank (t \<in> set (sm_waiting (bar_sem s'))) (bar_pc s' t) < bar_rank (t \<in> set (sm_waiting (bar_sem s))) (bar_pc s t)"
    and "\<And>u. u \<noteq> t \<Longrightarrow> bar_rank (u \<in> set (sm_waiting (bar_sem s'))) (bar_pc s' u) \<le> bar_rank (u \<in> set (sm_waiting (bar_sem s))) (bar_pc s u)"
  shows "bar_left n s' < bar_left n s"
  unfolding bar_left_def using assms by (intro sum_strict_mono_ex1) (auto, metis nat_less_le)

lemma sint_small:
  assumes "unat (x :: u32) < 2 ^ 31"
  shows "\<not> sint x < 0"
proof -
  have "int (unat x) < int (2 ^ 31)" using assms by (simp only: of_nat_less_iff)
  then have "uint x < 2 ^ 31" by (simp only: uint_nat of_nat_power of_nat_numeral)
  then have "signed_take_bit 31 (uint x) = uint x" using uint_ge_0 [of x] by (intro signed_take_bit_int_eq_self) (linarith, assumption)
  then show ?thesis by (simp add: sint_uint)
qed

lemma barrier_arrive:
  assumes v: "bar_inv n s" and n: "n < 2 ^ 31" and t: "bar_pc s t = Before" "t \<notin> set (sm_waiting (bar_sem s))"
  shows "\<exists>s'. barrier_go t s = Inr s' \<and> bar_inv n s' \<and> bar_left n s' < bar_left n s"
proof -
  have th: "\<forall>u \<ge> n. bar_pc s u = Through" and b: "unat (bar_count s) = card {u. bar_pc s u = Before}" using v by (simp_all add: bar_inv_def)
  have fin: "finite {u. bar_pc s u = p}" if "p \<noteq> Through" for p using bar_finite [OF th that] .
  have tn: "t < n" using th t(1) by (metis bar_pc.distinct(5) not_le)
  have "card {u. bar_pc s u = Before} \<le> card {..<n}" using th by (intro card_mono) (auto simp: not_le [symmetric])
  then have le: "unat (bar_count s) \<le> n" using b by simp
  have pos: "0 < unat (bar_count s)" using fin [of Before] t(1) by (auto simp: b card_gt_0_iff)
  then have c0: "bar_count s \<noteq> 0" by auto
  define x where "x = bar_count s - 1"
  have x: "unat x = unat (bar_count s) - 1" using pos unfolding x_def by (subst unat_minus_one) auto
  then have sx: "\<not> sint x < 0" using le n by (simp add: sint_small)
  let ?q = "if x = 0 then AtUp else AtDown"
  let ?s = "s\<lparr>bar_count := x, bar_pc := (bar_pc s)(t := ?q)\<rparr>"
  have g: "barrier_go t s = Inr ?s" using t(1) sx by (simp add: barrier_go_def Let_def x_def)
  have cB: "card {u. bar_pc ?s u = Before} + 1 = card {u. bar_pc s u = Before}"
    using card_pc_upd [OF fin [of Before], of t ?q] t(1) by simp
  have cU: "card {u. bar_pc ?s u = AtUp} = of_bool (x = 0)"
  proof -
    have "\<forall>u. bar_pc s u \<noteq> AtUp" using v c0 th unfolding bar_inv_def by (metis bar_pc.distinct(11) not_le)
    then have "{u. bar_pc ?s u = AtUp} = (if x = 0 then {t} else {})" by auto
    then show ?thesis by simp
  qed
  have bx: "unat x = card {u. bar_pc ?s u = Before}" using cB b x by simp
  have pc: "\<forall>u \<ge> n. bar_pc ?s u = Through" "\<forall>u \<in> set (sm_waiting (bar_sem s)). bar_pc ?s u = AtDown"
    using th tn t(2) v by (auto simp: bar_inv_def)
  have nU: "x \<noteq> 0 \<Longrightarrow> \<forall>u < n. bar_pc ?s u \<noteq> AtUp \<and> bar_pc ?s u \<noteq> Through" using v c0 by (auto simp: bar_inv_def)
  have "sm_count (bar_sem s) = 0" using v c0 by (simp add: bar_inv_def)
  then have "bar_inv n ?s" using v bx cU pc nU unfolding bar_inv_def by (simp only: barrier.simps) simp
  moreover have "bar_left n ?s < bar_left n s" by (rule bar_left_less [OF tn]) (use t in auto)
  ultimately show ?thesis using g by blast
qed

lemma barrier_down:
  assumes v: "bar_inv n s" and t: "bar_pc s t = AtDown" "t \<notin> set (sm_waiting (bar_sem s))"
  shows "\<exists>s'. barrier_go t s = Inr s' \<and> bar_inv n s' \<and> bar_left n s' < bar_left n s"
proof -
  have th: "\<forall>u \<ge> n. bar_pc s u = Through" using v by (simp add: bar_inv_def)
  have fin: "finite {u. bar_pc s u = p}" if "p \<noteq> Through" for p using bar_finite [OF th that] .
  have tn: "t < n" using th t(1) by (metis bar_pc.distinct(9) not_le)
  show ?thesis
  proof (cases "sm_count (bar_sem s) > 0")
    case True
    let ?c = "sm_count (bar_sem s)"
    let ?s = "s\<lparr>bar_sem := (bar_sem s)\<lparr>sm_count := ?c - 1\<rparr>, bar_pc := (bar_pc s)(t := AtUp)\<rparr>"
    have g: "barrier_go t s = Inr ?s" using t(1) True by (simp add: barrier_go_def sema_down_def Let_def)
    have c: "unat (?c - 1) + 1 = unat ?c" "?c \<noteq> 0"
      using True by (simp_all add: unat_minus_one word_greater_zero_iff unat_gt_0)
    have c0: "bar_count s = 0" using v c(2) by (auto simp: bar_inv_def split: if_splits)
    have "card {u. bar_pc ?s u = AtUp} = card {u. bar_pc s u = AtUp} + 1"
      using card_pc_upd [OF fin [of AtUp], of t AtUp] t(1) by simp
    moreover have "card {u. bar_pc ?s u = Before} = card {u. bar_pc s u = Before}"
      using card_pc_upd [OF fin [of Before], of t AtUp] t(1) by simp
    ultimately have "bar_inv n ?s" using v c c0 tn t unfolding bar_inv_def by auto
    moreover have "bar_left n ?s < bar_left n s" by (rule bar_left_less [OF tn]) (use t in auto)
    ultimately show ?thesis using g by blast
  next
    case False
    let ?s = "s\<lparr>bar_sem := (bar_sem s)\<lparr>sm_waiting := sm_waiting (bar_sem s) @ [t]\<rparr>\<rparr>"
    have g: "barrier_go t s = Inr ?s" using t(1) False by (simp add: barrier_go_def sema_down_def Let_def)
    have "bar_inv n ?s" using v t False unfolding bar_inv_def by (auto simp: word_greater_zero_iff)
    moreover have "bar_left n ?s < bar_left n s" by (rule bar_left_less [OF tn]) (use t in auto)
    ultimately show ?thesis using g by blast
  qed
qed

lemma barrier_up:
  assumes v: "bar_inv n s" and t: "bar_pc s t = AtUp"
  shows "\<exists>s'. barrier_go t s = Inr s' \<and> bar_inv n s' \<and> bar_left n s' < bar_left n s"
proof -
  have th: "\<forall>u \<ge> n. bar_pc s u = Through" using v by (simp add: bar_inv_def)
  have fin: "finite {u. bar_pc s u = p}" if "p \<noteq> Through" for p using bar_finite [OF th that] .
  have tn: "t < n" using th t(1) by (metis bar_pc.distinct(11) not_le)
  have c0: "bar_count s = 0" using v tn t by (auto simp: bar_inv_def split: if_splits)
  have "0 < card {u. bar_pc s u = AtUp}" using fin [of AtUp] t by (auto simp: card_gt_0_iff)
  then have c: "unat (sm_count (bar_sem s)) = 0" "card {u. bar_pc s u = AtUp} = 1" using v c0 by (simp_all add: bar_inv_def)
  then have cz: "sm_count (bar_sem s) = 0" by (simp add: unat_eq_zero)
  have only: "{u. bar_pc s u = AtUp} = {t}" using c(2) t by (auto simp: card_1_singleton_iff) (metis mem_Collect_eq singletonD)
  show ?thesis
  proof (cases "sm_waiting (bar_sem s)")
    case Nil
    let ?s = "s\<lparr>bar_sem := (bar_sem s)\<lparr>sm_count := sm_count (bar_sem s) + 1\<rparr>, bar_pc := (bar_pc s)(t := Through)\<rparr>"
    have g: "barrier_go t s = Inr ?s" using t Nil by (simp add: barrier_go_def sema_up_def Let_def)
    have "card {u. bar_pc ?s u = Before} = card {u. bar_pc s u = Before}"
      using card_pc_upd [OF fin [of Before], of t Through] t by simp
    moreover have "{u. bar_pc ?s u = AtUp} = {}" using only by auto
    ultimately have "bar_inv n ?s" using v cz c0 Nil unfolding bar_inv_def by auto
    moreover have "bar_left n ?s < bar_left n s" by (rule bar_left_less [OF tn]) (use t in auto)
    ultimately show ?thesis using g by blast
  next
    case (Cons w ws)
    have w: "bar_pc s w = AtDown" "w \<notin> set ws" "distinct ws" "w \<noteq> t" "\<forall>u \<in> set ws. bar_pc s u = AtDown"
      using v Cons t by (auto simp: bar_inv_def)
    let ?p = "(bar_pc s)(t := Through, w := AtUp)"
    let ?s = "s\<lparr>bar_sem := (bar_sem s)\<lparr>sm_waiting := ws\<rparr>, bar_pc := ?p\<rparr>"
    have g: "barrier_go t s = Inr ?s" using t Cons by (simp add: barrier_go_def sema_up_def Let_def)
    have "{u. ?p u = Before} = {u. bar_pc s u = Before}" using w(1) t by auto
    moreover have "{u. ?p u = AtUp} = {w}" using only by auto
    moreover have "\<forall>u \<ge> n. ?p u = Through" using th w(1) by (metis bar_pc.distinct(9) fun_upd_apply)
    ultimately have "bar_inv n ?s" using v cz c0 w t unfolding bar_inv_def by auto
    moreover have "bar_left n ?s < bar_left n s" by (rule bar_left_less [OF tn]) (use t w Cons in auto)
    ultimately show ?thesis using g by blast
  qed
qed

lemma barrier_step:
  assumes "bar_inv n s" "n < 2 ^ 31" "can_go s t"
  shows "\<exists>s'. barrier_go t s = Inr s' \<and> bar_inv n s' \<and> bar_left n s' < bar_left n s"
  using assms barrier_arrive [of n s t] barrier_down [of n s t] barrier_up [of n s t]
  by (cases "bar_pc s t") (auto simp: can_go_def)

lemma barrier_new_inv: "0 < N \<Longrightarrow> bar_inv (unat N) (barrier_new N)"
  by (simp add: bar_inv_def barrier_new_def sema_new_def)

lemma bar_run_inv:
  "bar_run N k s \<Longrightarrow> 0 < N \<Longrightarrow> unat N < 2 ^ 31 \<Longrightarrow> bar_inv (unat N) s \<and> bar_left (unat N) s + k \<le> 4 * unat N"
proof (induction rule: bar_run.induct)
  case new
  have "bar_left (unat N) (barrier_new N) = 4 * unat N" by (simp add: bar_left_def barrier_new_def sema_new_def)
  then show ?case using barrier_new_inv new by simp
next
  case (go k s t s')
  then show ?case using barrier_step [of "unat N" s t] by fastforce
qed

text \<open>
  C35. A barrier for \<open>N\<close> threads holds every one of them back until the last has arrived, and then
  lets all through. No step panics; a thread is past the semaphore only when no thread is before
  \<^verbatim>\<open>sync\<close>; as long as a thread is not through some thread can make a step, and \<open>N\<close> threads make at
  most \<open>4 * N\<close> steps, so that every run ends, with all threads through.
\<close>

theorem barrier_lets_all_through:
  assumes "bar_run N k s" "0 < N" "unat N < 2 ^ 31"
  shows "(\<forall>t. can_go s t \<longrightarrow> (\<exists>s'. barrier_go t s = Inr s')) \<and>
    ((\<exists>t < unat N. bar_pc s t = AtUp \<or> bar_pc s t = Through) \<longrightarrow> (\<forall>t. bar_pc s t \<noteq> Before)) \<and>
    ((\<forall>t. \<not> can_go s t) \<longrightarrow> (\<forall>t. bar_pc s t = Through)) \<and> k \<le> 4 * unat N"
proof -
  have v: "bar_inv (unat N) s" and k: "bar_left (unat N) s + k \<le> 4 * unat N" using bar_run_inv [OF assms] by blast+
  have th: "\<forall>u \<ge> unat N. bar_pc s u = Through" using v by (simp add: bar_inv_def)
  have fin: "finite {u. bar_pc s u = p}" if "p \<noteq> Through" for p using bar_finite [OF th that] .
  have none: "bar_pc s t \<noteq> Before" if "bar_count s = 0" for t
    using v that fin [of Before] by (auto simp: bar_inv_def)
  have "bar_pc s t \<noteq> Before" if "u < unat N" "bar_pc s u = AtUp \<or> bar_pc s u = Through" for u t
    using v that none [of t] by (auto simp: bar_inv_def split: if_splits)
  moreover have "bar_pc s t = Through" if stuck: "\<forall>u. \<not> can_go s u" for t
  proof (rule ccontr)
    assume n: "bar_pc s t \<noteq> Through"
    then have "t \<in> set (sm_waiting (bar_sem s))" using stuck by (auto simp: can_go_def)
    then have z: "sm_count (bar_sem s) = 0" "bar_pc s t = AtDown" using v by (auto simp: bar_inv_def)
    have nB: "bar_pc s u \<noteq> Before" and nU: "bar_pc s u \<noteq> AtUp" for u
      using stuck v by (auto simp: bar_inv_def can_go_def dest!: spec [of _ u])
    then have "unat (bar_count s) = 0" using v by (simp add: bar_inv_def)
    then have "bar_count s = 0" by (simp only: unat_eq_zero [symmetric])
    then show False using v z(1) nU by (simp add: bar_inv_def)
  qed
  moreover have "\<forall>t. can_go s t \<longrightarrow> (\<exists>s'. barrier_go t s = Inr s')" using barrier_step [OF v assms(3)] by blast
  moreover have "k \<le> 4 * unat N" using k by simp
  ultimately show ?thesis by blast
qed

text \<open>Two threads: the first waits, the second arrives last.\<close>

theorem barrier_lets_all_through_witness:
  "\<exists>s. bar_run 2 2 s \<and> bar_pc s 1 = AtUp \<and> (\<forall>t. bar_pc s t \<noteq> Before)"
proof -
  define s1 where "s1 = (barrier_new 2)\<lparr>bar_count := 1, bar_pc := (bar_pc (barrier_new 2))(0 := AtDown)\<rparr>"
  define s2 where "s2 = s1\<lparr>bar_count := 0, bar_pc := (bar_pc s1)(1 := AtUp)\<rparr>"
  note defs = s1_def s2_def barrier_new_def sema_new_def can_go_def
  have r1: "bar_run 2 1 s1" using bar_run.go [OF bar_run.new, of 2 0 s1] by (simp add: defs barrier_go_def)
  have "bar_run 2 (Suc 1) s2" by (rule bar_run.go [OF r1, of 1 s2]) (simp_all add: defs barrier_go_def)
  then have r2: "bar_run 2 2 s2" by (simp only: Suc_1)
  have u: "bar_pc s2 1 = AtUp" by (simp add: defs)
  show ?thesis using barrier_lets_all_through [OF r2] r2 u by (intro exI [of _ s2]) auto
qed

end
