(* ===== verification/Condition.thy ===== *)
theory Condition
  imports Prelude
begin

unbundle bit_operations_syntax

text \<open>
  The condition variable of \<^verbatim>\<open>src/kernel/condition.h\<close> and the reusable barrier of \<^verbatim>\<open>barrier.h\<close> that
  is built on it. The steps of the threads are the stretches of code between two points where the
  lock is taken or given back; the lock itself is treated in \<open>Locks\<close>.
\<close>

section \<open>Condition variables\<close>

record cond =
  c_epoch :: u64
  c_queue :: "nat list"


text \<open>The loop of \<^verbatim>\<open>notify\<close>, with what is left of the limit: the threads it schedules and those that stay.\<close>

fun notify_loop :: "nat \<Rightarrow> nat list \<Rightarrow> nat list \<times> nat list" where
  "notify_loop k [] = ([], [])"
| "notify_loop k (w # q) =
     (if k = 0 then ([], w # q) else let (ws, r) = notify_loop (k - 1) q in (w # ws, r))"

definition notify :: "u64 \<Rightarrow> cond \<Rightarrow> nat list \<times> cond" where
  "notify limit c = (let (ws, r) = notify_loop (unat limit) (c_queue c) in (ws, \<lparr>c_epoch = c_epoch c + 1, c_queue = r\<rparr>))"

definition notifyOne :: "cond \<Rightarrow> nat list \<times> cond" where
  "notifyOne = notify 1"




section \<open>The reusable barrier\<close>













section \<open>The invariant\<close>


















end
