(* ===== verification/Startup.thy ===== *)
theory Startup
  imports Prelude
begin

text \<open>
  How the processors start: the parts of \<^verbatim>\<open>kernelInit\<close> in \<^verbatim>\<open>src/kernel/init.cc\<close> in which they
  wait for each other. The first processor sets up the kernel, resets the others one after the
  other, and waits for each to arrive; every processor then finishes its own set-up, and the
  last one to do so creates the first process. Processors are numbered as their interrupt
  controllers are, the first one being number 0.
\<close>

section \<open>State\<close>

text \<open>
  The stack a processor runs on: the end of its element of \<^verbatim>\<open>stacks\<close>, which is 16384 bytes long.
  The first processor asks when it cannot read its number yet.
\<close>

definition pickKernelStack :: "u32 \<Rightarrow> bool \<Rightarrow> u32 \<Rightarrow> u32" where
  "pickKernelStack stacks smpInitDone me = stacks + 16384 * (if smpInitDone then me else 0) + 4 * 4096"

text \<open>
  Where a processor is: not running, at the start of \<^verbatim>\<open>kernelInit\<close>, behind its increment of
  \<^verbatim>\<open>SMP::running\<close>, at the head of the loop over the other processors or waiting in its body for
  number \<open>i\<close>, at the common part, at the increment of \<^verbatim>\<open>howManyAreHere\<close>, creating the first
  process, and in \<^verbatim>\<open>stop\<close>.
\<close>

datatype core_place = Off | Entry | SmpInit | Loop u32 | Await u32 | Common | Arrive | Create | Stopped

record startup =
  smpInitDone :: bool
  running :: u32
  howManyAreHere :: u32
  place_of :: "nat \<Rightarrow> core_place"
  ready :: "nat \<Rightarrow> bool"
  initProcs :: nat

definition startup_init :: startup where
  "startup_init = \<lparr>smpInitDone = False, running = 0, howManyAreHere = 0,
     place_of = (\<lambda>c. if c = 0 then Entry else Off), ready = (\<lambda>_. False), initProcs = 0\<rparr>"

text \<open>
  One step of processor \<open>c\<close>; \<open>ready\<close> notes that it has set up its own page directory register, timer and
  task-state segment. The reset message makes the processor it names start at the entry.
\<close>

definition startup_step :: "u32 \<Rightarrow> nat \<Rightarrow> startup \<Rightarrow> startup" where
  "startup_step totalProcs c s =
     (let go = (\<lambda>p s. s\<lparr>place_of := (place_of s)(c := p)\<rparr>)
      in case place_of s c of
        Entry \<Rightarrow>
          (if \<not> smpInitDone s then go (Loop 1) (s\<lparr>smpInitDone := True, running := running s + 1\<rparr>)
           else go SmpInit (s\<lparr>running := running s + 1\<rparr>))
      | SmpInit \<Rightarrow> go Common s
      | Loop i \<Rightarrow>
          (if i < totalProcs then go (Await i) (s\<lparr>place_of := (place_of s)(unat i := Entry)\<rparr>)
           else go Common s)
      | Await i \<Rightarrow> (if running s \<le> i then s else go (Loop (i + 1)) s)
      | Common \<Rightarrow> go Arrive (s\<lparr>ready := (ready s)(c := True)\<rparr>)
      | Arrive \<Rightarrow>
          (let myOrder = howManyAreHere s + 1
           in go (if myOrder = totalProcs then Create else Stopped) (s\<lparr>howManyAreHere := myOrder\<rparr>))
      | Create \<Rightarrow> go Stopped (s\<lparr>initProcs := initProcs s + 1\<rparr>)
      | _ \<Rightarrow> s)"

text \<open>A schedule is the sequence of processors that take a step.\<close>

fun startup_run :: "u32 \<Rightarrow> nat list \<Rightarrow> startup \<Rightarrow> startup" where
  "startup_run n [] s = s"
| "startup_run n (c # cs) s = startup_run n cs (startup_step n c s)"

lemma startup_run_append: "startup_run n (cs @ ds) s = startup_run n ds (startup_run n cs s)"
  by (induction cs arbitrary: s) auto

section \<open>The invariant\<close>

definition started :: "core_place \<Rightarrow> bool" where
  "started p \<longleftrightarrow> p \<in> {SmpInit, Common, Arrive, Create, Stopped}"

definition arrived :: "core_place \<Rightarrow> bool" where
  "arrived p \<longleftrightarrow> p \<in> {Create, Stopped}"

lemma place_simps [simp]:
  "\<not> started Off" "\<not> started Entry" "started SmpInit" "\<not> started (Loop i)" "\<not> started (Await i)"
  "started Common" "started Arrive" "started Create" "started Stopped"
  "\<not> arrived Off" "\<not> arrived Entry" "\<not> arrived SmpInit" "\<not> arrived (Loop i)" "\<not> arrived (Await i)"
  "\<not> arrived Common" "\<not> arrived Arrive" "arrived Create" "arrived Stopped"
  by (auto simp: started_def arrived_def)

text \<open>How far the first processor is, and what that says of the others and of \<^verbatim>\<open>SMP::running\<close>.\<close>

definition first_inv :: "nat \<Rightarrow> startup \<Rightarrow> bool" where
  "first_inv N s \<longleftrightarrow>
     (case place_of s 0 of
        Entry \<Rightarrow> \<not> smpInitDone s \<and> running s = 0 \<and> (\<forall>c. 0 < c \<and> c < N \<longrightarrow> place_of s c = Off)
      | Loop i \<Rightarrow> smpInitDone s \<and> 1 \<le> unat i \<and> unat i \<le> N \<and> unat (running s) = unat i \<and>
          (\<forall>c. 0 < c \<and> c < N \<longrightarrow> (if c < unat i then started (place_of s c) else place_of s c = Off))
      | Await i \<Rightarrow> smpInitDone s \<and> 1 \<le> unat i \<and> unat i < N \<and>
          unat (running s) = unat i + (if place_of s (unat i) = Entry then 0 else 1) \<and>
          (\<forall>c. 0 < c \<and> c < N \<longrightarrow> (if c < unat i then started (place_of s c)
             else if c = unat i then place_of s c = Entry \<or> started (place_of s c) else place_of s c = Off))
      | Off \<Rightarrow> False
      | SmpInit \<Rightarrow> False
      | _ \<Rightarrow> smpInitDone s \<and> (\<forall>c. 0 < c \<and> c < N \<longrightarrow> started (place_of s c)))"

definition count_inv :: "nat \<Rightarrow> startup \<Rightarrow> bool" where
  "count_inv N s \<longleftrightarrow>
     unat (howManyAreHere s) = card {c. c < N \<and> arrived (place_of s c)} \<and>
     initProcs s + card {c. c < N \<and> place_of s c = Create} = (if unat (howManyAreHere s) = N then 1 else 0) \<and>
     (\<forall>c < N. ready s c \<longleftrightarrow> place_of s c \<in> {Arrive, Create, Stopped})"

lemma unat_next: "unat i < unat n \<Longrightarrow> unat (i + 1) = unat i + 1" for i n :: u32
  using unat_bound [of n] by (subst unat_add_lem [THEN iffD1]) auto

lemma others_place:
  assumes "first_inv N s" "0 < c" "c < N"
  shows "place_of s c = Off \<or> place_of s c = Entry \<or> started (place_of s c)"
proof (cases "place_of s 0")
  case (Await i)
  then show ?thesis using assms by (cases "c = unat i") (auto simp: first_inv_def split: if_splits)
qed (use assms in \<open>auto simp: first_inv_def split: if_splits\<close>)

lemma started_cases: "started p \<Longrightarrow> p = SmpInit \<or> p = Common \<or> p = Arrive \<or> p = Create \<or> p = Stopped"
  by (auto simp: started_def)

text \<open>Steps that count nobody as arrived.\<close>

lemma count_same:
  assumes "count_inv N s" "howManyAreHere s' = howManyAreHere s" "initProcs s' = initProcs s"
    and "\<And>d. d < N \<Longrightarrow> arrived (place_of s' d) = arrived (place_of s d) \<and> (place_of s' d = Create) = (place_of s d = Create)"
    and "\<And>d. d < N \<Longrightarrow> ready s' d \<longleftrightarrow> place_of s' d \<in> {Arrive, Create, Stopped}"
  shows "count_inv N s'"
proof -
  have "{c. c < N \<and> arrived (place_of s' c)} = {c. c < N \<and> arrived (place_of s c)}"
    "{c. c < N \<and> place_of s' c = Create} = {c. c < N \<and> place_of s c = Create}"
    using assms(4) by auto
  then show ?thesis using assms(1-3,5) by (simp add: count_inv_def)
qed

lemma count_arrive:
  assumes ci: "count_inv (unat n) s" and c: "c < unat n" and p: "place_of s c = Arrive"
  shows "count_inv (unat n) (startup_step n c s)"
proof -
  let ?s = "startup_step n c s" and ?N = "unat n"
  let ?A = "{d. d < ?N \<and> arrived (place_of s d)}" and ?C = "{d. d < ?N \<and> place_of s d = Create}"
  have I: "unat (howManyAreHere s) = card ?A" "initProcs s + card ?C = (if unat (howManyAreHere s) = ?N then 1 else 0)"
    "\<forall>d < ?N. ready s d \<longleftrightarrow> place_of s d \<in> {Arrive, Create, Stopped}"
    using ci by (auto simp: count_inv_def)
  have cA: "c \<notin> ?A" "c \<notin> ?C" using p by auto
  have "card (insert c ?A) \<le> card {..<?N}" by (rule card_mono) (use c in auto)
  then have less: "card ?A < ?N" using cA(1) by simp
  have n0: "initProcs s = 0" "?C = {}" using I(1,2) less by auto
  have h: "unat (howManyAreHere s + 1) = card ?A + 1"
    using less I(1) unat_next [of "howManyAreHere s" n] by simp
  have eq: "howManyAreHere s + 1 = n \<longleftrightarrow> card ?A + 1 = ?N" by (simp add: word_unat_eq_iff h)
  have A': "{d. d < ?N \<and> arrived (place_of ?s d)} = insert c ?A"
    using c p by (auto simp: startup_step_def Let_def)
  have C': "{d. d < ?N \<and> place_of ?s d = Create} = (if card ?A + 1 = ?N then {c} else {})"
    using c p n0(2) eq by (auto simp: startup_step_def Let_def)
  have f: "howManyAreHere ?s = howManyAreHere s + 1" "initProcs ?s = initProcs s" "ready ?s = ready s"
    using p by (simp_all add: startup_step_def Let_def)
  have r: "ready ?s d \<longleftrightarrow> place_of ?s d \<in> {Arrive, Create, Stopped}" if "d < ?N" for d
    using I(3) that p by (auto simp: startup_step_def Let_def)
  have "card (insert c ?A) = card ?A + 1" using cA(1) by (subst card_insert_disjoint) auto
  then show ?thesis unfolding count_inv_def A' C' f n0(1) h using r f(3) by simp
qed

lemma count_create:
  assumes ci: "count_inv N s" and c: "c < N" and p: "place_of s c = Create"
  shows "count_inv N (startup_step n c s)"
proof -
  let ?s = "startup_step n c s" and ?C = "{d. d < N \<and> place_of s d = Create}"
  have A: "{d. d < N \<and> arrived (place_of ?s d)} = {d. d < N \<and> arrived (place_of s d)}"
    using p by (auto simp: startup_step_def)
  have "{d. d < N \<and> place_of ?s d = Create} = ?C - {c}" using p by (auto simp: startup_step_def)
  moreover have "card ?C = Suc (card (?C - {c}))"
    by (rule card.remove) (use c p in auto)
  ultimately have C: "initProcs ?s + card {d. d < N \<and> place_of ?s d = Create} = initProcs s + card ?C"
    using p by (simp add: startup_step_def)
  have r: "ready ?s d \<longleftrightarrow> place_of ?s d \<in> {Arrive, Create, Stopped}" if "d < N" for d
    using ci that p by (auto simp: startup_step_def count_inv_def)
  have "howManyAreHere ?s = howManyAreHere s" using p by (simp add: startup_step_def)
  then show ?thesis using ci r unfolding count_inv_def A C by simp
qed

lemma others_step:
  assumes "started (place_of s c)" "c \<noteq> 0"
  shows "started (place_of (startup_step n c s) c)" "\<And>d. d \<noteq> c \<Longrightarrow> place_of (startup_step n c s) d = place_of s d"
    "running (startup_step n c s) = running s" "smpInitDone (startup_step n c s) = smpInitDone s"
  using started_cases [OF assms(1)] by (auto simp: startup_step_def Let_def)

lemma first_step_others:
  assumes fi: "first_inv (unat n) s" and c: "0 < c" "c < unat n"
  shows "first_inv (unat n) (startup_step n c s)"
proof -
  let ?N = "unat n" and ?s = "startup_step n c s"
  consider "place_of s c = Off" | "place_of s c = Entry" | "started (place_of s c)"
    using others_place [OF fi c] by blast
  then show ?thesis
  proof cases
    case 1
    then have "?s = s" by (simp add: startup_step_def)
    then show ?thesis using fi by simp
  next
    case 2
    have "\<exists>i. place_of s 0 = Await i \<and> c = unat i"
    proof (cases "place_of s 0")
      case (Await i)
      then show ?thesis using fi c 2 by (cases "c = unat i") (auto simp: first_inv_def split: if_splits)
    qed (use fi c 2 in \<open>auto simp: first_inv_def split: if_splits\<close>)
    then obtain i where i: "place_of s 0 = Await i" "c = unat i" by blast
    have I: "smpInitDone s" "1 \<le> unat i" "unat i < ?N" "unat (running s) = unat i"
      "\<forall>d. 0 < d \<and> d < ?N \<longrightarrow> (if d < unat i then started (place_of s d)
             else if d = unat i then place_of s d = Entry \<or> started (place_of s d) else place_of s d = Off)"
      using fi 2 i by (simp_all add: first_inv_def)
    have r: "unat (running s + 1) = unat i + 1" using I(3,4) unat_next [of "running s" n] by simp
    have st: "?s = s\<lparr>running := running s + 1, place_of := (place_of s)(c := SmpInit)\<rparr>"
      using 2 I(1) by (simp add: startup_step_def)
    show ?thesis unfolding st first_inv_def using i I c r by auto
  next
    case 3
    note S = others_step [OF 3, where n = n]
    have c0: "c \<noteq> 0" using c(1) by simp
    have p0: "place_of ?s 0 = place_of s 0" using S(2) [OF c0, of 0] c0 by simp
    have st: "started (place_of ?s d) \<longleftrightarrow> started (place_of s d)" "place_of ?s d = Entry \<longleftrightarrow> place_of s d = Entry"
      "place_of ?s d = Off \<longleftrightarrow> place_of s d = Off" for d
      using S(1,2) [OF c0] 3 by (cases "d = c"; auto)+
    show ?thesis
      using fi unfolding first_inv_def p0 st S(3,4) [OF c0] .
  qed
qed

lemma first_step_first:
  assumes fi: "first_inv (unat n) s" and n: "0 < unat n"
  shows "first_inv (unat n) (startup_step n 0 s)"
proof (cases "place_of s 0")
  case Entry
  then show ?thesis using fi n by (auto simp: first_inv_def startup_step_def)
next
  case (Loop i)
  have I: "smpInitDone s" "1 \<le> unat i" "unat i \<le> unat n" "unat (running s) = unat i"
    "\<forall>c. 0 < c \<and> c < unat n \<longrightarrow> (if c < unat i then started (place_of s c) else place_of s c = Off)"
    using fi Loop by (simp_all add: first_inv_def)
  show ?thesis
  proof (cases "i < n")
    case True
    then have "unat i < unat n" by (simp add: word_less_nat_alt)
    then show ?thesis using Loop True I by (auto simp: first_inv_def startup_step_def)
  next
    case False
    then have "unat i = unat n" using I(3) by (simp add: word_less_nat_alt)
    then show ?thesis using Loop False I by (auto simp: first_inv_def startup_step_def)
  qed
next
  case (Await i)
  have I: "smpInitDone s" "1 \<le> unat i" "unat i < unat n"
    "unat (running s) = unat i + (if place_of s (unat i) = Entry then 0 else 1)"
    "\<forall>c. 0 < c \<and> c < unat n \<longrightarrow> (if c < unat i then started (place_of s c)
       else if c = unat i then place_of s c = Entry \<or> started (place_of s c) else place_of s c = Off)"
    using fi Await by (simp_all add: first_inv_def)
  show ?thesis
  proof (cases "running s \<le> i")
    case True
    then have "startup_step n 0 s = s" using Await by (simp add: startup_step_def)
    then show ?thesis using fi by simp
  next
    case False
    then have ne: "place_of s (unat i) \<noteq> Entry" using I(4) by (auto simp: word_le_nat_alt)
    have i1: "unat (i + 1) = unat i + 1" using I(3) by (rule unat_next)
    have "startup_step n 0 s = s\<lparr>place_of := (place_of s)(0 := Loop (i + 1))\<rparr>"
      using Await False by (simp add: startup_step_def)
    moreover have "started (place_of s d)" if "0 < d" "d < unat n" "d < unat i + 1" for d
      using I(5) that ne by (cases "d = unat i") (auto split: if_splits)
    ultimately show ?thesis using I ne i1 by (auto simp: first_inv_def)
  qed
qed (use fi in \<open>auto simp: first_inv_def startup_step_def Let_def split: if_splits\<close>)

definition startup_inv :: "u32 \<Rightarrow> startup \<Rightarrow> bool" where
  "startup_inv n s \<longleftrightarrow> first_inv (unat n) s \<and> count_inv (unat n) s"

lemma startup_step_inv:
  assumes si: "startup_inv n s" and c: "c < unat n"
  shows "startup_inv n (startup_step n c s)"
proof -
  have fi: "first_inv (unat n) s" and ci: "count_inv (unat n) s" using si by (auto simp: startup_inv_def)
  have "first_inv (unat n) (startup_step n c s)"
    using first_step_first [OF fi] first_step_others [OF fi] c by (cases "c = 0") auto
  moreover have "count_inv (unat n) (startup_step n c s)"
  proof (cases "place_of s c \<in> {Arrive, Create}")
    case True
    then show ?thesis using count_arrive [OF ci c] count_create [OF ci c] by auto
  next
    case False
    have i: "place_of s (unat i) = Off" if "place_of s c = Loop i" "i < n" for i
    proof -
      have "unat i < unat n" using that(2) by (simp add: word_less_nat_alt)
      moreover have "c = 0" using others_place [OF fi _ c] that(1) by fastforce
      ultimately show ?thesis using fi that(1) by (auto simp: first_inv_def)
    qed
    have r: "\<forall>d < unat n. ready s d \<longleftrightarrow> place_of s d \<in> {Arrive, Create, Stopped}"
      using ci by (simp add: count_inv_def)
    show ?thesis
      by (rule count_same [OF ci])
        (use False i r c in \<open>auto simp: startup_step_def Let_def split: core_place.splits if_splits\<close>)
  qed
  ultimately show ?thesis by (simp add: startup_inv_def)
qed

lemma startup_init_inv: "0 < unat n \<Longrightarrow> startup_inv n startup_init"
proof -
  assume "0 < unat n"
  moreover have "{c. c < unat n \<and> arrived (if c = 0 then Entry else Off)} = {}"
    "{c. c < unat n \<and> (if c = 0 then Entry else Off) = Create} = {}" by auto
  ultimately show ?thesis by (simp add: startup_inv_def first_inv_def count_inv_def startup_init_def)
qed

lemma startup_run_inv:
  "startup_inv n s \<Longrightarrow> \<forall>c \<in> set cs. c < unat n \<Longrightarrow> startup_inv n (startup_run n cs s)"
  by (induction cs arbitrary: s) (auto intro: startup_step_inv)

section \<open>Progress\<close>

fun rank :: "nat \<Rightarrow> nat \<Rightarrow> core_place \<Rightarrow> nat" where
  "rank N c Off = 7"
| "rank N c Entry = (if c = 0 then 2 * N + 3 else 6)"
| "rank N c SmpInit = 5"
| "rank N c (Loop i) = 2 * (N - unat i) + 4"
| "rank N c (Await i) = 2 * (N - unat i) + 3"
| "rank N c Common = 3"
| "rank N c Arrive = 2"
| "rank N c Create = 1"
| "rank N c Stopped = 0"

definition work :: "nat \<Rightarrow> startup \<Rightarrow> nat" where
  "work N s = (\<Sum>c < N. rank N c (place_of s c))"

lemma work_less:
  assumes "c < N" "\<And>d. d < N \<Longrightarrow> rank N d (place_of s' d) \<le> rank N d (place_of s d)"
    "rank N c (place_of s' c) < rank N c (place_of s c)"
  shows "work N s' < work N s"
  unfolding work_def by (rule sum_strict_mono_ex1) (use assms in auto)

lemma step_work:
  assumes si: "startup_inv n s" and c: "c < unat n"
  shows "startup_step n c s = s \<or> work (unat n) (startup_step n c s) < work (unat n) s"
proof (rule disjCI)
  assume ne: "\<not> work (unat n) (startup_step n c s) < work (unat n) s"
  have fi: "first_inv (unat n) s" using si by (simp add: startup_inv_def)
  have less: "work (unat n) (startup_step n c s) < work (unat n) s"
    if "rank (unat n) c (place_of (startup_step n c s) c) < rank (unat n) c (place_of s c)"
      "\<And>d. d \<noteq> c \<Longrightarrow> d < unat n \<Longrightarrow>
        rank (unat n) d (place_of (startup_step n c s) d) \<le> rank (unat n) d (place_of s d)"
    using work_less [OF c _ that(1)] that by (metis less_imp_le)
  have c0: "c = 0" if "place_of s c = Loop i \<or> place_of s c = Await i" for i
    using others_place [OF fi _ c] that by fastforce
  show "startup_step n c s = s"
  proof (cases "place_of s c")
    case (Loop i)
    have I: "1 \<le> unat i" "unat i \<le> unat n"
      "\<forall>d. 0 < d \<and> d < unat n \<longrightarrow> (if d < unat i then started (place_of s d) else place_of s d = Off)"
      using fi Loop c0 [of i] by (simp_all add: first_inv_def)
    have "place_of s (unat i) = Off" if "i < n" using that I by (simp add: word_less_nat_alt)
    then have "work (unat n) (startup_step n c s) < work (unat n) s"
      using Loop I by (intro less) (auto simp: startup_step_def word_less_nat_alt)
    then show ?thesis using ne by simp
  next
    case (Await i)
    have I: "unat i < unat n" using fi Await c0 [of i] by (simp add: first_inv_def)
    have i1: "unat (i + 1) = unat i + 1" using I by (rule unat_next)
    have "work (unat n) (startup_step n c s) < work (unat n) s" if "\<not> running s \<le> i"
      using Await I i1 that by (intro less) (auto simp: startup_step_def)
    then show ?thesis using ne Await by (auto simp: startup_step_def)
  next
    case Entry
    have n1: "1 \<le> unat n" "unat (1 :: u32) = 1" using c by simp_all
    have d: "smpInitDone s \<longleftrightarrow> c \<noteq> 0"
      using fi Entry c by (cases "c = 0") (auto simp: first_inv_def split: core_place.splits if_splits)
    have "work (unat n) (startup_step n c s) < work (unat n) s"
      using Entry n1 d by (intro less) (auto simp: startup_step_def)
    then show ?thesis using ne by simp
  qed (use ne less in \<open>auto simp: startup_step_def Let_def split: if_splits\<close>)
qed

lemma run_or_stuck:
  "startup_inv n s \<Longrightarrow> \<forall>c \<in> set cs. c < unat n \<Longrightarrow>
     startup_run n cs s = s \<and> (\<forall>c \<in> set cs. startup_step n c s = s) \<or>
     work (unat n) (startup_run n cs s) < work (unat n) s"
proof (induction cs arbitrary: s)
  case (Cons c cs)
  let ?s = "startup_step n c s"
  have c: "c < unat n" "\<forall>c \<in> set cs. c < unat n" using Cons.prems(2) by auto
  have "startup_inv n ?s" using startup_step_inv [OF Cons.prems(1) c(1)] .
  from Cons.IH [OF this c(2)] show ?case
    using step_work [OF Cons.prems(1) c(1)] by (elim disjE) auto
qed simp

lemma moves:
  assumes "startup_step n c s = s" "place_of s c \<noteq> Off" "\<And>i. place_of s c \<noteq> Await i"
  shows "place_of s c = Stopped"
proof (rule ccontr)
  assume "place_of s c \<noteq> Stopped"
  then have "place_of (startup_step n c s) c \<noteq> place_of s c"
    using assms(2,3) by (cases "place_of s c") (auto simp: startup_step_def Let_def)
  then show False using assms(1) by simp
qed

lemma stuck_final:
  assumes si: "startup_inv n s" and n: "0 < unat n" and st: "\<forall>c < unat n. startup_step n c s = s"
  shows "initProcs s = 1 \<and> (\<forall>c < unat n. place_of s c = Stopped)"
proof -
  have fi: "first_inv (unat n) s" and ci: "count_inv (unat n) s" using si by (auto simp: startup_inv_def)
  have p0: "place_of s 0 = Stopped"
  proof (rule moves)
    show "startup_step n 0 s = s" using st n by simp
    show "place_of s 0 \<noteq> Off" using fi by (auto simp: first_inv_def)
    show "place_of s 0 \<noteq> Await i" for i
    proof
      assume a: "place_of s 0 = Await i"
      then have I: "1 \<le> unat i" "unat i < unat n" "unat (running s) = unat i + (if place_of s (unat i) = Entry then 0 else 1)"
        using fi by (simp_all add: first_inv_def)
      show False
      proof (cases "running s \<le> i")
        case True
        then have "place_of s (unat i) = Entry" using I(3) by (auto simp: word_le_nat_alt split: if_splits)
        then show False using moves [of n "unat i" s] st I(2) by simp
      next
        case False
        then have "place_of (startup_step n 0 s) 0 = Loop (i + 1)" using a by (simp add: startup_step_def)
        then show False using st n a by simp
      qed
    qed
  qed
  have all: "place_of s c = Stopped" if "c < unat n" for c
  proof (cases "c = 0")
    case False
    then have "started (place_of s c)" using fi p0 that by (simp add: first_inv_def)
    then show ?thesis using moves [of n c s] st that by (auto simp: started_def)
  qed (use p0 in simp)
  have e: "{c. c < unat n \<and> arrived (place_of s c)} = {..<unat n}" "{c. c < unat n \<and> place_of s c = Create} = {}"
    using all by auto
  show ?thesis using ci all unfolding count_inv_def e by simp
qed

text \<open>A round is a sequence of steps in which every processor takes one at least.\<close>

lemma rounds_finish:
  assumes n: "0 < unat n"
  shows "startup_inv n s \<Longrightarrow> \<forall>b \<in> set bs. set b = {..<unat n} \<Longrightarrow> work (unat n) s \<le> length bs \<Longrightarrow>
    initProcs (startup_run n (concat bs) s) = 1 \<and> (\<forall>c < unat n. place_of (startup_run n (concat bs) s) c = Stopped)"
proof (induction bs arbitrary: s)
  case Nil
  then have "startup_step n c s = s" if "c < unat n" for c using step_work [OF Nil.prems(1) that] by simp
  then show ?case using stuck_final [OF Nil.prems(1) n] by simp
next
  case (Cons b bs)
  have b: "\<forall>c \<in> set b. c < unat n" using Cons.prems(2) by simp
  have si: "startup_inv n (startup_run n b s)" using startup_run_inv [OF Cons.prems(1) b] .
  have "\<forall>c \<in> set (concat (b # bs)). c < unat n" using Cons.prems(2) by auto
  from run_or_stuck [OF Cons.prems(1) b] show ?case
  proof
    assume st: "startup_run n b s = s \<and> (\<forall>c \<in> set b. startup_step n c s = s)"
    then have all: "\<forall>c < unat n. startup_step n c s = s" using Cons.prems(2) by auto
    have "startup_run n cs s = s" if "\<forall>c \<in> set cs. c < unat n" for cs
      using that all by (induction cs) auto
    then have "startup_run n (concat (b # bs)) s = s"
      using \<open>\<forall>c \<in> set (concat (b # bs)). c < unat n\<close> by blast
    then show ?thesis using stuck_final [OF Cons.prems(1) n all] by simp
  next
    assume "work (unat n) (startup_run n b s) < work (unat n) s"
    then show ?thesis using Cons.IH [OF si] Cons.prems(2,3) by (simp add: startup_run_append)
  qed
qed

lemma work_bound:
  assumes si: "startup_inv n s" and n: "0 < unat n"
  shows "work (unat n) s \<le> 9 * unat n"
proof -
  let ?N = "unat n" and ?g = "\<lambda>c :: nat. if c = 0 then 2 * unat n + 3 else 7"
  have fi: "first_inv ?N s" using si by (simp add: startup_inv_def)
  have "rank ?N c (place_of s c) \<le> ?g c" if "c < ?N" for c
  proof (cases "c = 0")
    case True
    then show ?thesis using fi by (cases "place_of s 0") (auto simp: first_inv_def)
  next
    case False
    then show ?thesis using others_place [OF fi _ that] by (auto simp: started_def)
  qed
  then have "work ?N s \<le> (\<Sum>c < ?N. ?g c)" unfolding work_def by (intro sum_mono) auto
  also have "\<dots> = 2 * ?N + 3 + 7 * (?N - 1)"
    using n by (subst sum.remove [of "{..<?N}" 0]) auto
  finally show ?thesis using n by simp
qed

text \<open>
  C40. In whatever order the processors take their steps, the first process is created once at
  most, and only when every processor has set itself up; and nobody waits for ever: once every processor
  has had nine turns for each processor of the machine, the first process has been created and
  all processors are in \<^verbatim>\<open>stop\<close>, ready to run threads.
\<close>
theorem all_cores_start:
  assumes "0 < n" "\<forall>c \<in> set cs. c < unat n" "s = startup_run n cs startup_init"
  shows "initProcs s \<le> 1 \<and> (initProcs s = 1 \<longrightarrow> (\<forall>c < unat n. ready s c)) \<and>
    (\<forall>rounds. (\<forall>r \<in> set rounds. set r = {..<unat n}) \<and> 9 * unat n \<le> length rounds \<longrightarrow>
       (let u = startup_run n (concat rounds) s
        in initProcs u = 1 \<and> (\<forall>c < unat n. ready u c \<and> place_of u c = Stopped)))"
proof -
  have n: "0 < unat n" using assms(1) by (simp add: word_less_nat_alt)
  have si: "startup_inv n s"
    unfolding assms(3) by (rule startup_run_inv [OF startup_init_inv [OF n] assms(2)])
  have C: "unat (howManyAreHere s) = card {c. c < unat n \<and> arrived (place_of s c)}"
    "initProcs s + card {c. c < unat n \<and> place_of s c = Create} = (if unat (howManyAreHere s) = unat n then 1 else 0)"
    "\<forall>c < unat n. ready s c \<longleftrightarrow> place_of s c \<in> {Arrive, Create, Stopped}"
    using si by (auto simp: startup_inv_def count_inv_def)
  have "ready s c" if "initProcs s = 1" "c < unat n" for c
  proof -
    have "card {c. c < unat n \<and> arrived (place_of s c)} = card {..<unat n}"
      using C(1,2) that(1) by (simp split: if_splits)
    then have "{c. c < unat n \<and> arrived (place_of s c)} = {..<unat n}" by (intro card_subset_eq) auto
    then have "arrived (place_of s c)" using that(2) by auto
    then show ?thesis using C(3) that(2) by (auto simp: arrived_def)
  qed
  moreover have "initProcs s \<le> 1" using C(2) by (simp split: if_splits)
  moreover have "let u = startup_run n (concat rounds) s
      in initProcs u = 1 \<and> (\<forall>c < unat n. ready u c \<and> place_of u c = Stopped)"
    if r: "\<forall>r \<in> set rounds. set r = {..<unat n}" "9 * unat n \<le> length rounds" for rounds
  proof -
    have "\<forall>c \<in> set (concat rounds). c < unat n" using r(1) by auto
    then have u: "startup_inv n (startup_run n (concat rounds) s)" by (rule startup_run_inv [OF si])
    have "work (unat n) s \<le> length rounds" using work_bound [OF si n] r(2) by simp
    from rounds_finish [OF n si r(1) this] show ?thesis
      using u by (simp add: Let_def startup_inv_def count_inv_def)
  qed
  ultimately show ?thesis by blast
qed

theorem all_cores_start_witness:
  "\<exists>s. s = startup_run 2 (concat (replicate 18 [1, 0])) startup_init \<and> initProcs s = 1 \<and> place_of s 1 = Stopped"
proof -
  have N: "unat (2 :: u32) = 2" by simp
  have "{..<2 :: nat} = {0, 1}" by auto
  then have "let u = startup_run 2 (concat (replicate 18 [1, 0])) (startup_run 2 [] startup_init)
    in initProcs u = 1 \<and> (\<forall>c < unat (2 :: u32). ready u c \<and> place_of u c = Stopped)"
    using all_cores_start [of 2 "[]", OF _ _ refl, THEN conjunct2, THEN conjunct2, rule_format,
        of "replicate 18 [1, 0]"] by (auto simp: N insert_commute)
  then show ?thesis by (simp add: Let_def)
qed

text \<open>The stacks two processors run on do not overlap.\<close>

lemma stacks_disjoint:
  assumes "a < 16" "b < 16" "a \<noteq> b" "unat stacks + 16 * 16384 < 2 ^ 32"
  shows "unat (pickKernelStack stacks True a) + 16384 \<le> unat (pickKernelStack stacks True b) \<or>
    unat (pickKernelStack stacks True b) + 16384 \<le> unat (pickKernelStack stacks True a)"
proof -
  have u: "unat (pickKernelStack stacks True c) = unat stacks + 16384 * unat c + 16384" if "c < 16" for c
  proof -
    have c: "unat c < 16" using that by (simp add: word_less_nat_alt)
    then have m: "unat (16384 * c) = 16384 * unat c" by (simp add: unat_word_ariths)
    have a: "unat (stacks + 16384 * c) = unat stacks + 16384 * unat c"
      using assms(4) c m by (subst unat_add_lem [THEN iffD1]) auto
    show ?thesis
      using assms(4) c a by (simp add: pickKernelStack_def) (subst unat_add_lem [THEN iffD1], auto)
  qed
  have "unat a \<noteq> unat b" using assms(3) by (simp add: word_unat_eq_iff)
  then show ?thesis unfolding u [OF assms(1)] u [OF assms(2)] by auto
qed

end
