(* ===== verification/Debug.thy ===== *)
theory Debug
  imports Snprintf_Format Locks Machine
begin

text \<open>
  The kernel's messages: \<^verbatim>\<open>src/kernel/debug.h\<close> and \<^verbatim>\<open>debug.cc\<close>. The stream the messages go to is the
  text sent so far, or nothing before \<^verbatim>\<open>Debug::init\<close>. The lock is held only while one message is
  formatted, which is one step here.
\<close>

record debug_state =
  debug_sink :: "string option"
  checks :: u32
  shutdown_called :: bool
  debugAll :: bool

text \<open>An object of class \<^verbatim>\<open>Debug\<close>.\<close>

record debug_unit =
  what :: string
  flag :: bool

text \<open>A call returns, or stops the processor in a loop that asks the machine to switch itself off.\<close>

datatype debug_end = Returns_with debug_state | Halts_with debug_state

definition debug_init :: "string option \<Rightarrow> debug_state \<Rightarrow> debug_state" where
  "debug_init s d = d\<lparr>debug_sink := s\<rparr>"

definition debug_vprintf :: "(rat \<Rightarrow> rat) \<Rightarrow> string \<Rightarrow> arg list \<Rightarrow> debug_state \<Rightarrow> debug_state result" where
  "debug_vprintf rnd fmt as d =
     (case debug_sink d of
        None \<Rightarrow> Inr d
      | Some t \<Rightarrow> bindR (vsnprintf rnd 1000 fmt as) (\<lambda>s. Inr (d\<lparr>debug_sink := Some (t @ chars s)\<rparr>)))"

definition debug_printf :: "(rat \<Rightarrow> rat) \<Rightarrow> string \<Rightarrow> arg list \<Rightarrow> debug_state \<Rightarrow> debug_state result" where
  "debug_printf rnd fmt as d = debug_vprintf rnd fmt as d"

definition debug_shutdown :: "(rat \<Rightarrow> rat) \<Rightarrow> machine \<Rightarrow> debug_state \<Rightarrow> debug_end result" where
  "debug_shutdown rnd m d =
     bindR (if atomic_get (checks d) > 0
            then debug_printf rnd (''*** passed %d checkes'' @ [CHR 0x0A]) [AWord (checks d)] d else Inr d) (\<lambda>d.
     bindR (debug_printf rnd (''core %d requested shutdown'' @ [CHR 0x0A]) [AWord (SMP_me m)] d) (\<lambda>d.
     Inr (Halts_with (d\<lparr>shutdown_called := True\<rparr>))))"

definition debug_vpanic :: "(rat \<Rightarrow> rat) \<Rightarrow> machine \<Rightarrow> string \<Rightarrow> arg list \<Rightarrow> debug_state \<Rightarrow> debug_end result" where
  "debug_vpanic rnd m fmt as d =
     bindR (debug_vprintf rnd fmt as d) (\<lambda>d.
     bindR (debug_printf rnd (''| processor %d halting'' @ [CHR 0x0A]) [AWord (SMP_me m)] d) (\<lambda>d.
     Inr (Halts_with (d\<lparr>shutdown_called := True\<rparr>))))"

definition debug_panic :: "(rat \<Rightarrow> rat) \<Rightarrow> machine \<Rightarrow> string \<Rightarrow> arg list \<Rightarrow> debug_state \<Rightarrow> debug_end result" where
  "debug_panic rnd m fmt as d = debug_vpanic rnd m fmt as d"

definition debug_vdebug :: "(rat \<Rightarrow> rat) \<Rightarrow> debug_unit \<Rightarrow> string \<Rightarrow> arg list \<Rightarrow> debug_state \<Rightarrow> debug_state result" where
  "debug_vdebug rnd u fmt as d =
     (if debugAll d \<or> flag u then
        bindR (debug_printf rnd ''[%s] '' [AStr (Some (what u))] d) (\<lambda>d.
        bindR (debug_vprintf rnd fmt as d) (\<lambda>d. debug_printf rnd [CHR 0x0A] [] d))
      else Inr d)"

definition debug_debug :: "(rat \<Rightarrow> rat) \<Rightarrow> debug_unit \<Rightarrow> string \<Rightarrow> arg list \<Rightarrow> debug_state \<Rightarrow> debug_state result" where
  "debug_debug rnd u fmt as d = (if debugAll d \<or> flag u then debug_vdebug rnd u fmt as d else Inr d)"

definition debug_missing :: "(rat \<Rightarrow> rat) \<Rightarrow> machine \<Rightarrow> string \<Rightarrow> u32 \<Rightarrow> debug_state \<Rightarrow> debug_end result" where
  "debug_missing rnd m fname line d =
     debug_panic rnd m (''*** Missing code at %s:%d'' @ [CHR 0x0A]) [AStr (Some fname), AWord line] d"

definition debug_check :: "(rat \<Rightarrow> rat) \<Rightarrow> machine \<Rightarrow> bool \<Rightarrow> string \<Rightarrow> string \<Rightarrow> u32 \<Rightarrow> debug_state \<Rightarrow> debug_end result" where
  "debug_check rnd m invariant invariant_text fname line d =
     (let d = d\<lparr>checks := snd (fetch_add 1 (checks d))\<rparr>
      in if \<not> invariant
         then debug_panic rnd m (''*** Check [%s] failed at %s:%d'' @ [CHR 0x0A])
                [AStr (Some invariant_text), AStr (Some fname), AWord line] d
         else Inr (Returns_with d))"

definition debug_assert :: "(rat \<Rightarrow> rat) \<Rightarrow> machine \<Rightarrow> bool \<Rightarrow> string \<Rightarrow> string \<Rightarrow> u32 \<Rightarrow> debug_state \<Rightarrow> debug_end result" where
  "debug_assert rnd m invariant invariant_text fname line d =
     (if \<not> invariant
      then debug_panic rnd m (''*** Assertion [%s] failed at %s:%d'' @ [CHR 0x0A])
             [AStr (Some invariant_text), AStr (Some fname), AWord line] d
      else Inr (Returns_with d))"

definition debug_on :: "debug_unit \<Rightarrow> debug_unit" where
  "debug_on u = u\<lparr>flag := True\<rparr>"

definition debug_off :: "debug_unit \<Rightarrow> debug_unit" where
  "debug_off u = u\<lparr>flag := False\<rparr>"

section \<open>What the models of the other components leave out\<close>

text \<open>
  A failed assertion or a panic never returns, and says so to whoever looks at the shutdown flag;
  one that holds changes nothing. This is why they end a path in the other components.
\<close>

lemma assert_holds [simp]: "debug_assert rnd m True t f l d = Inr (Returns_with d)"
  by (simp add: debug_assert_def)

lemma panic_halts: "debug_panic rnd m fmt as d = Inr e \<Longrightarrow> \<exists>d'. e = Halts_with d' \<and> shutdown_called d'"
  by (auto simp: debug_panic_def debug_vpanic_def bindR_eq_Inr)

lemma assert_fails_halts: "debug_assert rnd m False t f l d = Inr e \<Longrightarrow> \<exists>d'. e = Halts_with d' \<and> shutdown_called d'"
  by (auto simp: debug_assert_def dest: panic_halts)

end
