(* ===== verification/Libc.thy ===== *)
theory Libc
  imports Files
begin

text \<open>
  The C library of user programs, \<^verbatim>\<open>src/t0.dir/sbin/libc.c\<close>, over the open files its descriptors
  stand for. \<^verbatim>\<open>putchar\<close> is \<^verbatim>\<open>write\<close> of one byte to descriptor 1.
\<close>

definition u_putchar :: "kfile \<Rightarrow> u8 \<Rightarrow> console \<Rightarrow> int \<times> console" where
  "u_putchar out c con = file_write out c 1 con"

fun puts_loop :: "kfile \<Rightarrow> bytes \<Rightarrow> int \<Rightarrow> console \<Rightarrow> int \<times> console" where
  "puts_loop out [] count con = (let (n, con) = u_putchar out 10 con in (count + 1, con))"
| "puts_loop out (c # cs) count con =
     (let (n, con) = u_putchar out c con
      in if n < 0 then (n, con) else puts_loop out cs (count + 1) con)"

definition puts :: "kfile \<Rightarrow> bytes \<Rightarrow> console \<Rightarrow> int \<times> console" where
  "puts out p con = puts_loop out p 0 con"

text \<open>
  The inner loop of \<^verbatim>\<open>cp\<close> writes what is left of the buffer; whether it ended with an error is the
  first result. With fuel: it does not end when \<^verbatim>\<open>write\<close> writes nothing.
\<close>

fun cp_write :: "nat \<Rightarrow> kfile \<Rightarrow> bytes \<Rightarrow> console \<Rightarrow> (bool \<times> console) result" where
  "cp_write 0 to b con = Inl Diverges"
| "cp_write (Suc fuel) to b con =
     (case b of
        [] \<Rightarrow> Inr (False, con)
      | c # cs \<Rightarrow>
          (let (k, con) = file_write to c (of_nat (length b)) con
           in if k < 0 then Inr (True, con) else cp_write fuel to (drop (nat k) b) con))"

text \<open>
  \<^verbatim>\<open>cp\<close> with fuel: it does not end when the input does not. The list holds the line of the code and
  the descriptor of each message it prints.
\<close>

datatype complaint = ReadError | WriteError

fun cp :: "nat \<Rightarrow> kfile \<Rightarrow> kfile \<Rightarrow> console \<Rightarrow> (complaint list \<times> kfile \<times> console) result" where
  "cp 0 from to con = Inl Diverges"
| "cp (Suc fuel) from to con =
     bindR (file_read from 100 con) (\<lambda>(n, b, from, con).
     if n = 0 then Inr ([], from, con)
     else if n < 0 then Inr ([ReadError], from, con)
     else
       bindR (cp_write 101 to (take (nat n) b) con) (\<lambda>(failed, con).
       bindR (cp fuel from to con) (\<lambda>(cs, from, con).
       Inr (if failed then WriteError # cs else cs, from, con))))"

section \<open>Copying to the console\<close>

lemma cp_write_console:
  "length b < fuel \<Longrightarrow> length b < 2 ^ 32 \<Longrightarrow> cp_write fuel U8250File b con = Inr (False, con\<lparr>con_out := con_out con @ b\<rparr>)"
proof (induction b arbitrary: fuel con)
  case Nil
  then show ?case by (cases fuel) simp_all
next
  case (Cons c cs)
  obtain f where f: "fuel = Suc f" "length cs < f" using Cons.prems(1) by (cases fuel) auto
  have "(of_nat (Suc (length cs)) :: u32) \<noteq> 0"
  proof
    assume "(of_nat (Suc (length cs)) :: u32) = 0"
    then have "unat (of_nat (Suc (length cs)) :: u32) = 0" by (simp only: unat_0)
    then show False using Cons.prems(2) by (simp add: unat_of_nat take_bit_nat_def del: of_nat_Suc)
  qed
  then have "cp_write fuel U8250File (c # cs) con = cp_write f U8250File cs (u8250_put c con)"
    by (simp add: f(1) del: of_nat_Suc)
  also have "\<dots> = Inr (False, (u8250_put c con)\<lparr>con_out := con_out (u8250_put c con) @ cs\<rparr>)"
    by (rule Cons.IH) (use f Cons.prems in simp_all)
  finally show ?case by (simp add: u8250_put_def)
qed

lemma cp_file:
  "file_ok (OpenFileStruct n off) \<Longrightarrow> unat (node_size_in_bytes n) - unat off \<le> 100 * fuel \<Longrightarrow>
    cp (Suc fuel) (OpenFileStruct n off) U8250File con =
      Inr ([], OpenFileStruct n (node_size_in_bytes n),
        con\<lparr>con_out := con_out con @ map (node_cont n) [unat off..<unat (node_size_in_bytes n)]\<rparr>)"
proof (induction fuel arbitrary: off con)
  case 0
  then have "unat off = unat (node_size_in_bytes n)" by (simp add: file_ok_def word_le_nat_alt)
  then have "off = node_size_in_bytes n" by (simp only: word_unat_eq_iff)
  then show ?case using file_read_ok [OF 0(1), of 100 con] by (simp del: file_read.simps)
next
  case (Suc fuel)
  let ?S = "unat (node_size_in_bytes n)" and ?o = "unat off"
  define k where "k = min 100 (?S - ?o)"
  have o: "?o \<le> ?S" "?S < 2 ^ 31" using Suc.prems(1) by (simp_all add: file_ok_def word_le_nat_alt)
  have r: "file_read (OpenFileStruct n off) 100 con = Inr (int k, map (node_cont n) [?o..<?o + k], OpenFileStruct n (off + of_nat k), con)"
    using file_read_ok [OF Suc.prems(1), of 100 con] by (simp add: k_def Let_def del: file_read.simps)
  show ?case
  proof (cases "k = 0")
    case True
    then have "?o = ?S" using o by (simp add: k_def min_def split: if_splits)
    then have "off = node_size_in_bytes n" by (simp only: word_unat_eq_iff)
    then show ?thesis using r True by (simp del: file_read.simps)
  next
    case False
    have "unat (of_nat k :: u32) = k" by (simp add: k_def unat_of_nat take_bit_nat_def)
    then have ok: "unat (off + of_nat k) = ?o + k" using o by (subst unat_add_lem [THEN iffD1]) (simp_all add: k_def)
    have w: "cp_write 101 U8250File (map (node_cont n) [?o..<?o + k]) con =
        Inr (False, con\<lparr>con_out := con_out con @ map (node_cont n) [?o..<?o + k]\<rparr>)"
      by (rule cp_write_console) (simp_all add: k_def)
    have "cp (Suc fuel) (OpenFileStruct n (off + of_nat k)) U8250File (con\<lparr>con_out := con_out con @ map (node_cont n) [?o..<?o + k]\<rparr>) =
        Inr ([], OpenFileStruct n (node_size_in_bytes n), (con\<lparr>con_out := con_out con @ map (node_cont n) [?o..<?o + k]\<rparr>)
          \<lparr>con_out := con_out (con\<lparr>con_out := con_out con @ map (node_cont n) [?o..<?o + k]\<rparr>) @ map (node_cont n) [unat (off + of_nat k)..<?S]\<rparr>)"
      by (rule Suc.IH [OF file_read_keeps [OF Suc.prems(1) r]]) (use Suc.prems(2) ok False o in \<open>simp add: k_def min_def split: if_splits\<close>)
    moreover have "map (node_cont n) [?o..<?o + k] @ map (node_cont n) [?o + k..<?S] = map (node_cont n) [?o..<?S]"
      using o upt_add_eq_append [of ?o "?o + k" "?S - (?o + k)"] by (simp add: k_def flip: map_append)
    ultimately show ?thesis using False
      by (subst cp.simps) (simp add: r w ok del: file_read.simps cp_write.simps cp.simps)
  qed
qed

text \<open>
  C39. \<^verbatim>\<open>cp\<close> from a file of the file system to the console writes the bytes of the file from its
  offset to its end, each once and in order, although the console takes one byte at a time; it ends
  without a complaint and leaves the file at its end.
\<close>

theorem cp_copies_to_console:
  assumes "file_ok (OpenFileStruct n off)" "unat (node_size_in_bytes n) - unat off \<le> 100 * fuel"
  shows "cp (fuel + 1) (OpenFileStruct n off) U8250File con =
    Inr ([], OpenFileStruct n (node_size_in_bytes n),
      con\<lparr>con_out := con_out con @ map (node_cont n) [unat off..<unat (node_size_in_bytes n)]\<rparr>)"
  using cp_file [OF assms] by simp

theorem cp_copies_to_console_witness:
  "\<exists>f con. cp 11 (OpenFileStruct (demo_node [42] 1000) 998) U8250File \<lparr>con_in = [], con_out = []\<rparr> = Inr ([], f, con) \<and>
     length (con_out con) = 2"
proof -
  have g: "file_ok (OpenFileStruct (demo_node [42] 1000) 998)"
    using demo_node_good [of 1000 "[42]"] by (simp add: file_ok_def node_size_in_bytes_def demo_node_def)
  have s: "unat (node_size_in_bytes (demo_node [42] 1000)) = 1000" by (simp add: node_size_in_bytes_def demo_node_def)
  show ?thesis using cp_copies_to_console [OF g, of 10 "\<lparr>con_in = [], con_out = []\<rparr>"] by (simp add: s del: cp.simps)
qed

text \<open>\<^verbatim>\<open>puts\<close> to the console writes the string and a newline and returns the number of bytes.\<close>

lemma puts_console:
  "puts_loop U8250File p k con = (k + int (length p) + 1, con\<lparr>con_out := con_out con @ p @ [10]\<rparr>)"
  by (induction p arbitrary: k con) (simp_all add: u_putchar_def u8250_put_def)

end
