(* ===== verification/Spec2Isabelle.thy ===== *)
theory Spec2Isabelle
  imports Snprintf_Props Snprintf_Format Printf User_Heap Shared Sched_Props Sched_Live Fork Sys_Types Exec_Program
    Audio_Play User_Init Context Kernel_Init Barrier Condition Boot Startup Debug Libc
begin

text \<open>
  A verification development for a small multiprocessor kernel in C++ that runs user programs
  from an Ext2 disk and plays WAV files on an AC97 sound card, and for the C library of its user
  programs. This theory imports all others; each of them opens with what it models.

  The program and how its parts interact. \<^verbatim>\<open>kernelInit\<close> (\<^verbatim>\<open>src/kernel/init.cc\<close>) reads the machine's
  configuration from the BIOS tables, sets up the kernel heap, the allocator of 4096-byte frames and
  the page tables that map memory to itself, starts the other processors, and creates the
  first process, which executes \<^verbatim>\<open>/sbin/init\<close>. A process owns a page directory and three tables of
  handles, for files, semaphores and children. Its threads enter the kernel through the handler of
  \<^verbatim>\<open>sys.cc\<close> and through page faults, which map fresh frames. Threads give up their processor in
  \<^verbatim>\<open>block\<close>, by themselves, on a semaphore, or when the timer interrupts them. Files are nodes of the
  file system, which reads the disk block by block, or the serial console. Objects that several
  owners hold are counted by \<^verbatim>\<open>Shared<T>\<close>; state that several processors use is guarded by the locks
  of \<^verbatim>\<open>atomic.h\<close>.

  Theories and the code they model, from the bottom up.

  \<^descr> \<^bold>\<open>Vocabulary.\<close> Prelude: machine integers (\<^verbatim>\<open>stdint.h\<close>) as words, errors as values (an assertion that
    fails, a panic, an access out of range, a division by zero, a loop that does not end), the
    bounded loop \<^verbatim>\<open>foldM\<close> with its invariant rule, and the collections of rewrite rules.
  \<^descr> \<^bold>\<open>Memory.\<close> Heap, Heap_Blocks and Heap_Correct: \<^verbatim>\<open>kernel/heap.cc\<close>, an array of integers with boundary tags and a
    list of free blocks, refined to the list of its blocks. User_Heap: \<^verbatim>\<open>t0.dir/sbin/heap.c\<close>, over the same
    blocks. PhysMem: \<^verbatim>\<open>physmem.h\<close> and \<^verbatim>\<open>physmem.cc\<close>. Vmm with Vmm_Correct, Vmm_Spaces, Vmm_Clear, Vmm_Init and
    Vmm_Props: \<^verbatim>\<open>vmm.cc\<close>, page tables in the frames of the allocator; \<open>lookup\<close> is the processor's
    translation and \<open>aspace\<close> says what an address space is.
  \<^descr> \<^bold>\<open>Threads and synchronisation.\<close> Queue: \<^verbatim>\<open>queue.h\<close>. Sched with Sched_Inv, Sched_Steps, Sched_Props and Sched_Live:
    \<^verbatim>\<open>threads.h\<close>, \<^verbatim>\<open>threads.cc\<close>, \<^verbatim>\<open>semaphore.h\<close> and the timer handler of \<^verbatim>\<open>pit.cc\<close>, where a thread is its control block.
    Context: \<^verbatim>\<open>context.s\<close> instruction by instruction, with save areas and stacks. Locks: \<^verbatim>\<open>atomic.h\<close>.
    Buffer: \<^verbatim>\<open>bb.h\<close> and \<^verbatim>\<open>blocking_lock.h\<close>. Barrier and Condition: \<^verbatim>\<open>barrier.h\<close> and \<^verbatim>\<open>condition.h\<close>. Shared: \<^verbatim>\<open>shared.h\<close>.
  \<^descr> \<^bold>\<open>Disk and files.\<close> Block_IO: \<^verbatim>\<open>block_io.h\<close>, \<^verbatim>\<open>block_io.cc\<close>, the driver of \<^verbatim>\<open>ide.cc\<close>, strings of \<^verbatim>\<open>libk.cc\<close>. Ext2 and
    Ext2_Props: \<^verbatim>\<open>ext2.h\<close> and \<^verbatim>\<open>ext2.cc\<close>. Files: \<^verbatim>\<open>file.h\<close>, \<^verbatim>\<open>openfilestruct.h\<close>, \<^verbatim>\<open>u8250.h\<close>, \<^verbatim>\<open>u8250.cc\<close>. Elf: \<^verbatim>\<open>elf.h\<close>, \<^verbatim>\<open>elf.cc\<close>.
  \<^descr> \<^bold>\<open>Processes.\<close> Process: \<^verbatim>\<open>process.h\<close>, \<^verbatim>\<open>process.cc\<close>, \<^verbatim>\<open>future.h\<close>. Sys: \<^verbatim>\<open>sys.cc\<close>. Fork, Exec,
    Exec_Program and Sys_Types: what \<^verbatim>\<open>fork\<close> and \<^verbatim>\<open>exec\<close> give a process, from the file of an executable to the
    program in memory, and that every system call keeps the handles of all processes well typed.
  \<^descr> \<^bold>\<open>Devices and start-up.\<close> Audio and Audio_Play: \<^verbatim>\<open>pci.h\<close>, \<^verbatim>\<open>pci.cc\<close>, the WAV parser of \<^verbatim>\<open>process.cc\<close>, and the system
    call that plays a file, down to the bytes in the buffers the card is started on.
    Config and Config_Init: \<^verbatim>\<open>config.h\<close>, \<^verbatim>\<open>config.cc\<close>. Machine: \<^verbatim>\<open>idt.cc\<close>, \<^verbatim>\<open>smp.h\<close>, \<^verbatim>\<open>smp.cc\<close>, \<^verbatim>\<open>pit.cc\<close>, \<^verbatim>\<open>random.h\<close>. Boot,
    Kernel_Init and Startup: \<^verbatim>\<open>init.cc\<close>, \<^verbatim>\<open>kernel.cc\<close> and \<^verbatim>\<open>crti.cc\<close>, the layout of memory, the first processor's way through
    all components, and the protocol by which the processors start.
    Debug: \<^verbatim>\<open>debug.h\<close>, \<^verbatim>\<open>debug.cc\<close>.
  \<^descr> \<^bold>\<open>Formatted output and the C library.\<close> Snprintf, Snprintf_Props and Snprintf_Format: \<^verbatim>\<open>kernel/snprintf.cc\<close>. Printf:
    \<^verbatim>\<open>t0.dir/sbin/printf.c\<close>. Libc: \<^verbatim>\<open>t0.dir/sbin/libc.c\<close>. User_Init: the first user program, \<^verbatim>\<open>t0.dir/sbin/init.c\<close>, whose calls
    go through the handler of system calls of Sys.
\<close>

text \<open>
  State and concurrency. A class or struct is a record, an operation a function from the old
  state to a result and the new state, or an error. Memory is a function from addresses;
  what a component leaves alone is stated as such (\<open>keeps\<close>, \<open>grows\<close>). Operations that the code
  runs under a lock are one step each. Where the code interleaves, its atomic actions are the steps: a
  schedule, a list of processors or threads in any order and number, drives the state, and the properties
  hold for all schedules (Sched, Locks, Buffer, Barrier, Condition, Startup).

  Interfaces. A contract that several components rely on is a locale, with an
  interpretation on the code's own definitions: \<open>allocator\<close> for the two heaps, \<open>frame_allocator\<close> for the
  frames under the page tables, \<open>fifo\<close> for the queues under the scheduler, \<open>block_device\<close> for the
  disk and, on top of it, for the nodes of the file system, and \<open>lock_protocol\<close> for the three locks.

  What the lemmas show.

  \<^item> Each state has an invariant that every operation keeps: the view of a heap as blocks, the frames
    held and free (\<open>vheld\<close>), address spaces that share no private frame (\<open>aspace\<close>), one place for each
    thread (\<open>sinv\<close>), counts that equal the number of live handles, tickets and positions in the barriers.
  \<^item> The operations do what they are for, on every branch: allocation and freeing on blocks, mapping,
    page faults, creating, copying, clearing and deleting address spaces, semaphores in order of
    arrival, reads of any range of a file, path lookup, formatted numbers and whole formats.
  \<^item> Some code is equal to other code: the two formatters, the two heaps' way of freeing, the
    kernel's path lookup and a walk over the components of the path.
  \<^item> Components together: the boot sequence sets up every component as the others expect it, a thread comes
    back from a switch with the context it left, and the first user program, through path lookup,
    descriptors, the WAV parser and the buffers of the card, has its files played.
  \<^item> Progress: ready threads run, barriers let everybody through, all processors start.
  \<^item> What the code gets wrong, as theorems about the code as it is: the directory entry of
    size zero, the format that is read past its end, the table of processors read one entry late, the
    page fault on a mapped page, \<^verbatim>\<open>realloc\<close> that loses its block, \<^verbatim>\<open>yield\<close> that switches off preemption.

  Bounds and fuel. A loop the code bounds is a recursion on the bound. The others have fuel and
  return \<open>Diverges\<close> without it. Where the loop ends, the fuel is shown to be enough: the
  free-list searches of the heaps (the number of free blocks), \<^verbatim>\<open>global_init\<close> (one for each page of
  memory), the search for the BIOS tables (8193 and 65 steps for ranges of 128 KB and 1 KB), the two
  loops of \<^verbatim>\<open>cp\<close> (one for each hundred bytes of the file, and 101 for each hundred). The loop over
  the entries of a directory has one more than the directory has bytes, and an entry has at
  least one byte unless its size is zero, in which case no fuel is enough. The loops that search the chunks
  of a WAV file, follow symbolic links, read the table of processors and wait for the timer can
  go on for ever in the code; their fuel is a parameter.

  Not modelled: the assembly code (the boot sector, the entry into protected mode, the stubs that save
  registers), of which the models take \<^verbatim>\<open>memcpy\<close>, \<^verbatim>\<open>bzero\<close>, the ports and the switch between threads; the statistics,
  messages and \<^verbatim>\<open>show\<close> functions that only print; caching of translations other than the record of \<^verbatim>\<open>invlpg\<close>;
  the template \<^verbatim>\<open>future\<close> of \<^verbatim>\<open>future.h\<close>, which nothing uses and which does not compile where it is used;
  the program \<^verbatim>\<open>shell.c\<close>, which nothing starts. \<^verbatim>\<open>long double\<close> is an exact rational with the processor's rounding as
  a parameter, without infinities. Devices answer with what their model's state holds: the serial line
  has a list of characters to come, the disk is its sectors, the sound card answers at once.
\<close>

end
